(* ===== verification/Prelude.thy ===== *)
theory Prelude
  imports Main "HOL-Library.Word" "HOL-Library.AList" "HOL-Library.List_Lexorder"
begin

text \<open>
  Shared vocabulary of the development: the machine integers and byte strings of the Rust code,
  its standard containers (\<open>HashMap\<close>, \<open>HashSet\<close>, \<open>BTreeMap\<close>) as lists with the laws the
  components use, sequences of fallible writes, and the generic induction principle for
  invariants of step relations.

  \<^item> \<open>u64\<close> is \<open>64 word\<close> wherever the code computes with it (balances, nonces, fees, peer ids,
    timestamps). View numbers and heights are \<open>nat\<close>: the code only compares them and adds one
    per view change, and reads them as \<open>u64\<close> when it hashes them.
  \<^item> \<open>HashMap<K, V>\<close> is an association list with distinct keys; its order stands for the
    iteration order, about which no theorem assumes anything. \<open>BTreeMap<K, V>\<close> is an association
    list sorted by key. \<open>HashSet<T>\<close> is a list without two elements equal under \<open>T\<close>'s \<open>Eq\<close>.
\<close>

type_synonym byte = "8 word"
type_synonym bytes = "byte list"
type_synonym hash = "bytes"
type_synonym u64 = "64 word"
type_synonym view_no = nat
type_synonym peer_id = u64
type_synonym instant = nat

named_theorems view_simps \<open>definitions that a proof about one message handler unfolds\<close>
named_theorems frame \<open>what an operation leaves unchanged\<close>

subsection \<open>Unsigned 64-bit arithmetic\<close>

definition u64_max :: nat where
  "u64_max = 2 ^ 64 - 1"

text \<open>Addition of view numbers and heights, which are natural numbers here and \<open>u64\<close> in the code, in a
  release build.\<close>

definition u64_add :: "nat \<Rightarrow> nat \<Rightarrow> nat" where
  "u64_add a b = unat (word_of_nat (a + b) :: u64)"

lemma u64_add_mod: "u64_add a b = (a + b) mod 2 ^ 64"
  unfolding u64_add_def by (subst unat_of_nat) simp

lemma u64_add_exact: "a + b < 2 ^ 64 \<Longrightarrow> u64_add a b = a + b"
  by (simp add: u64_add_mod)

definition checked_add :: "u64 \<Rightarrow> u64 \<Rightarrow> u64 option" where
  "checked_add a b = (if uint a + uint b < 18446744073709551616 then Some (a + b) else None)"

definition saturating_add :: "u64 \<Rightarrow> u64 \<Rightarrow> u64" where
  "saturating_add a b = (if uint a + uint b < 18446744073709551616 then a + b else - 1)"

definition saturating_sub :: "u64 \<Rightarrow> u64 \<Rightarrow> u64" where
  "saturating_sub a b = (if b \<le> a then a - b else 0)"

definition to_le_bytes :: "u64 \<Rightarrow> bytes" where
  "to_le_bytes w = map (\<lambda>i. ucast (drop_bit (8 * i) w)) [0..<8]"

lemma unat_u64_le_max [simp]: "unat (a :: u64) \<le> u64_max"
proof -
  have "unat a < 2 ^ LENGTH(64)" by (rule unsigned_less)
  then show ?thesis by (simp add: u64_max_def)
qed

lemma unat_minus_one_u64: "unat (- 1 :: u64) = u64_max"
  by (simp add: u64_max_def unsigned_minus_1_eq_mask mask_eq_exp_minus_1)

lemma unat_add_u64: "unat a + unat b \<le> u64_max \<Longrightarrow> unat (a + b) = unat a + unat b" for a b :: u64
  by (simp add: unat_word_ariths u64_max_def)

lemma no_overflow_u64:
  "uint a + uint b < 18446744073709551616 \<longleftrightarrow> unat a + unat b \<le> u64_max" for a b :: u64
proof -
  have u: "uint a = int (unat a)" "uint b = int (unat b)" by simp_all
  have m: "u64_max = 18446744073709551615" by (simp add: u64_max_def)
  show ?thesis unfolding u m by (rule iffI; linarith)
qed

lemma checked_add_Some:
  "checked_add a b = Some c \<longleftrightarrow> unat a + unat b \<le> u64_max \<and> c = a + b"
  by (auto simp: checked_add_def no_overflow_u64)

lemma checked_add_unat: "checked_add a b = Some c \<Longrightarrow> unat c = unat a + unat b"
  by (auto simp: checked_add_Some unat_add_u64)

lemma unat_saturating_add: "unat (saturating_add a b) = min u64_max (unat a + unat b)"
  by (auto simp: saturating_add_def no_overflow_u64 unat_add_u64 unat_minus_one_u64 min_def)

lemma unat_saturating_sub: "unat (saturating_sub a b) = unat a - unat b"
  by (auto simp: saturating_sub_def word_le_nat_alt unat_sub)

lemma length_to_le_bytes [simp]: "length (to_le_bytes w) = 8"
  by (simp add: to_le_bytes_def)

subsection \<open>Maps\<close>

text \<open>The interface of the code's maps: what a lookup returns after each write, under the
  representation invariant.\<close>

locale map_impl =
  fixes get :: "'m \<Rightarrow> 'k \<Rightarrow> 'v option"
    and put :: "'k \<Rightarrow> 'v \<Rightarrow> 'm \<Rightarrow> 'm"
    and del :: "'k \<Rightarrow> 'm \<Rightarrow> 'm"
    and empty :: "'m"
    and invar :: "'m \<Rightarrow> bool"
  assumes get_empty: "get empty k = None"
    and get_put: "invar m \<Longrightarrow> get (put k v m) = (get m)(k \<mapsto> v)"
    and get_del: "invar m \<Longrightarrow> get (del k m) = (get m)(k := None)"
    and invar_empty: "invar empty"
    and invar_put: "invar m \<Longrightarrow> invar (put k v m)"
    and invar_del: "invar m \<Longrightarrow> invar (del k m)"
begin

lemma get_put_same: "invar m \<Longrightarrow> get (put k v m) k = Some v"
  by (simp add: get_put)

lemma get_put_other: "invar m \<Longrightarrow> k' \<noteq> k \<Longrightarrow> get (put k v m) k' = get m k'"
  by (simp add: get_put)

lemma get_fold_put:
  assumes "invar m"
  shows "get (fold (\<lambda>(k, v). put k v) kvs m) = (get m) ++ map_of (rev kvs)
    \<and> invar (fold (\<lambda>(k, v). put k v) kvs m)"
  using assms by (induction kvs arbitrary: m) (auto simp: get_put invar_put map_add_def split: option.splits)

end

text \<open>\<open>HashMap\<close>: the library's association lists.\<close>

definition hm_invar :: "('k \<times> 'v) list \<Rightarrow> bool" where
  "hm_invar m \<longleftrightarrow> distinct (map fst m)"

interpretation hm: map_impl map_of AList.update AList.delete "[]" hm_invar
  by unfold_locales
    (auto simp: hm_invar_def update_conv' delete_conv' intro: distinct_update distinct_delete)

text \<open>\<open>BTreeMap\<close>: insertion keeps the keys strictly ascending.\<close>

fun bt_insert :: "'k::linorder \<Rightarrow> 'v \<Rightarrow> ('k \<times> 'v) list \<Rightarrow> ('k \<times> 'v) list" where
  "bt_insert k v [] = [(k, v)]"
| "bt_insert k v (e # m) =
     (if k < fst e then (k, v) # e # m
      else if fst e = k then (k, v) # m
      else e # bt_insert k v m)"

definition bt_invar :: "('k::linorder \<times> 'v) list \<Rightarrow> bool" where
  "bt_invar m \<longleftrightarrow> sorted_wrt (<) (map fst m)"

lemma map_of_bt_insert: "map_of (bt_insert k v m) = (map_of m)(k \<mapsto> v)"
  by (induction m) (auto simp: fun_eq_iff)

lemma fst_set_bt_insert: "fst ` set (bt_insert k v m) = insert k (fst ` set m)"
  by (induction m) auto

lemma in_bt_insertD: "e \<in> set (bt_insert k v m) \<Longrightarrow> e = (k, v) \<or> e \<in> set m"
  by (induction m) (auto split: if_splits)

lemma filter_same_length: "length (filter P xs) = length xs \<Longrightarrow> filter P xs = xs"
  by (metis filter_id_conv length_filter_less less_irrefl)

lemma bt_invar_insert: "bt_invar m \<Longrightarrow> bt_invar (bt_insert k v m)"
proof (induction m)
  case (Cons e m)
  then have "sorted_wrt (<) (map fst m)" by (simp add: bt_invar_def)
  then have IH: "sorted_wrt (<) (map fst (bt_insert k v m))" using Cons by (simp add: bt_invar_def)
  have "set (map fst (bt_insert k v m)) = insert k (fst ` set m)" by (simp add: fst_set_bt_insert)
  with IH Cons.prems show ?case by (auto simp: bt_invar_def dest: less_trans)
qed (simp add: bt_invar_def)

lemma bt_invar_filter: "bt_invar m \<Longrightarrow> bt_invar (filter P m)"
  by (simp add: bt_invar_def sorted_wrt_map sorted_wrt_filter)

lemma bt_invar_distinct: "bt_invar m \<Longrightarrow> distinct (map fst m)"
  by (simp add: bt_invar_def strict_sorted_iff)

lemma bt_invar_delete: "bt_invar m \<Longrightarrow> bt_invar (AList.delete k m)"
  by (simp add: AList.delete_eq bt_invar_filter)

interpretation bt: map_impl map_of bt_insert AList.delete "[]" bt_invar
  by unfold_locales
    (simp_all add: map_of_bt_insert delete_conv' bt_invar_insert bt_invar_delete,
     simp add: bt_invar_def)

lemma map_of_filter_key:
  "map_of (filter (\<lambda>e. P (fst e)) m) k = (if P k then map_of m k else None)"
  by (induction m) auto

subsection \<open>Sets with the element type's own equality\<close>

text \<open>\<open>HashSet::insert\<close>: an element equal (under \<open>Eq\<close>, here equality of \<open>key\<close>) to one already
  there is not inserted.\<close>

definition hs_insert :: "('a \<Rightarrow> 'k) \<Rightarrow> 'a \<Rightarrow> 'a list \<Rightarrow> 'a list" where
  "hs_insert key x xs = (if key x \<in> key ` set xs then xs else xs @ [x])"

definition hs_invar :: "('a \<Rightarrow> 'k) \<Rightarrow> 'a list \<Rightarrow> bool" where
  "hs_invar key xs \<longleftrightarrow> distinct (map key xs)"

lemma hs_invar_insert: "hs_invar key xs \<Longrightarrow> hs_invar key (hs_insert key x xs)"
  by (auto simp: hs_invar_def hs_insert_def)

lemma hs_invar_fold_insert: "hs_invar key xs \<Longrightarrow> hs_invar key (fold (hs_insert key) ys xs)"
  by (induction ys arbitrary: xs) (auto simp: hs_invar_insert)

lemma hs_invar_Nil [simp]: "hs_invar key []"
  by (simp add: hs_invar_def)

lemma set_hs_insert_subset: "set (hs_insert key x xs) \<subseteq> insert x (set xs)"
  by (auto simp: hs_insert_def)

lemma set_hs_insert_mono: "set xs \<subseteq> set (hs_insert key x xs)"
  by (auto simp: hs_insert_def)

lemma set_fold_hs_insert_subset: "set (fold (hs_insert key) ys xs) \<subseteq> set xs \<union> set ys"
  by (induction ys arbitrary: xs) (use set_hs_insert_subset in fastforce)+

lemma key_image_hs_insert: "key ` set (hs_insert key x xs) = insert (key x) (key ` set xs)"
  by (auto simp: hs_insert_def)

lemma key_image_fold_hs_insert:
  "key ` set (fold (hs_insert key) ys xs) = key ` set xs \<union> key ` set ys"
  by (induction ys arbitrary: xs) (auto simp: key_image_hs_insert)

lemma length_hs_insert_ge: "length xs \<le> length (hs_insert key x xs)"
  by (simp add: hs_insert_def)

subsection \<open>Sequences of fallible writes\<close>

text \<open>Rust's \<open>f(s)?; g(s)?; ...\<close> on a mutable \<open>s\<close>: what the completed writes did stays when a
  later one fails.\<close>

fun run_writes :: "('s \<Rightarrow> 'e + 's) list \<Rightarrow> 's \<Rightarrow> 'e option \<times> 's" where
  "run_writes [] s = (None, s)"
| "run_writes (w # ws) s = (case w s of Inl e \<Rightarrow> (Some e, s) | Inr s' \<Rightarrow> run_writes ws s')"

lemma run_writes_append:
  "run_writes (ws @ vs) s =
     (case run_writes ws s of (Some e, s') \<Rightarrow> (Some e, s') | (None, s') \<Rightarrow> run_writes vs s')"
  by (induction ws arbitrary: s) (auto split: sum.splits)

lemma run_writes_preserve:
  assumes "\<And>w s s'. w \<in> set ws \<Longrightarrow> w s = Inr s' \<Longrightarrow> P s \<Longrightarrow> P s'" and "P s"
  shows "P (snd (run_writes ws s))"
  using assms by (induction ws arbitrary: s) (auto split: sum.splits)

text \<open>The same for operations that report their error together with the state they leave.\<close>

fun run_ops :: "('s \<Rightarrow> ('e + unit) \<times> 's) list \<Rightarrow> 's \<Rightarrow> ('e + unit) \<times> 's" where
  "run_ops [] s = (Inr (), s)"
| "run_ops (f # fs) s = (case f s of (Inl e, s') \<Rightarrow> (Inl e, s') | (Inr _, s') \<Rightarrow> run_ops fs s')"

lemma run_ops_append:
  "run_ops (fs @ gs) s = (case run_ops fs s of (Inl e, s') \<Rightarrow> (Inl e, s') | (Inr _, s') \<Rightarrow> run_ops gs s')"
  by (induction fs arbitrary: s) (auto split: prod.splits sum.splits)

lemma run_ops_preserve:
  assumes "\<And>f s. f \<in> set fs \<Longrightarrow> P s \<Longrightarrow> P (snd (f s))" and "P s"
  shows "P (snd (run_ops fs s))"
  using assms by (induction fs arbitrary: s) (force split: prod.splits sum.splits)+

lemma run_ops_all_ok:
  assumes "\<And>f s. f \<in> set fs \<Longrightarrow> fst (f s) = Inr ()"
  shows "run_ops fs s = (Inr (), fold (\<lambda>f s. snd (f s)) fs s)"
  using assms
proof (induction fs arbitrary: s)
  case (Cons f fs)
  have "fst (f s) = Inr ()" by (rule Cons.prems) simp
  with Cons show ?case by (cases "f s") simp
qed simp

subsection \<open>Invariants of step relations\<close>

locale invariant_machine =
  fixes init :: "'s \<Rightarrow> bool"
    and step :: "'s \<Rightarrow> 's \<Rightarrow> bool"
    and inv :: "'s \<Rightarrow> bool"
  assumes inv_init: "init s \<Longrightarrow> inv s"
    and inv_step: "step s t \<Longrightarrow> inv s \<Longrightarrow> inv t"
begin

lemma inv_steps: "step\<^sup>*\<^sup>* s t \<Longrightarrow> inv s \<Longrightarrow> inv t"
  by (induction rule: rtranclp_induct) (auto intro: inv_step)

lemma inv_reachable: "init s \<Longrightarrow> step\<^sup>*\<^sup>* s t \<Longrightarrow> inv t"
  using inv_init inv_steps by blast

end

end
