(* ===== verification/Crypto.thy ===== *)
theory Crypto
  imports Prelude
begin

text \<open>
  The cryptography of \<open>consensus/src/crypto/aggregated.rs\<close>: BLS keys and signatures, their
  aggregation, and peer ids. The elliptic-curve library (\<open>ark_bls12_381\<close>), the hash function
  (\<open>blake3\<close>), the Ed25519 library (\<open>ed25519_dalek\<close>) and the database (\<open>redb\<close>) are not part of
  the repository: the record \<open>env\<close> holds the operations the code calls, and every definition that
  uses one takes the record as an argument. What a theorem relies on of them is a named hypothesis
  (\<open>ark_laws\<close> here).
\<close>

type_synonym g1 = int
type_synonym g2 = int
type_synonym gt = int
type_synonym fr = int
type_synonym bls_public_key = g2
type_synonym bls_signature = g1
type_synonym bls_secret_key = fr

record env =
  blake3 :: "bytes \<Rightarrow> hash"
  fr_from_le_bytes_mod_order :: "bytes \<Rightarrow> fr"
  g1_generator :: g1
  g1_zero :: g1
  g1_add :: "g1 \<Rightarrow> g1 \<Rightarrow> g1"
  g1_mul :: "g1 \<Rightarrow> fr \<Rightarrow> g1"
  g2_generator :: g2
  g2_zero :: g2
  g2_add :: "g2 \<Rightarrow> g2 \<Rightarrow> g2"
  g2_mul :: "g2 \<Rightarrow> fr \<Rightarrow> g2"
  pairing :: "g1 \<Rightarrow> g2 \<Rightarrow> gt"
  g2_serialize_compressed :: "g2 \<Rightarrow> bytes"
  ed_public_key :: "bytes \<Rightarrow> bytes"
  ed_sign :: "bytes \<Rightarrow> bytes \<Rightarrow> bytes"
  ed_valid_key :: "bytes \<Rightarrow> bool"
  ed_verify :: "bytes \<Rightarrow> bytes \<Rightarrow> bytes \<Rightarrow> bool"
  ed_verify_batch :: "bytes list \<Rightarrow> bytes list \<Rightarrow> bytes list \<Rightarrow> bool"
  hex_decode :: "string \<Rightarrow> bytes option"
  redb_write_ok :: "string \<Rightarrow> bytes \<Rightarrow> bool"

subsection \<open>Keys and signatures\<close>

definition public_key :: "env \<Rightarrow> bls_secret_key \<Rightarrow> bls_public_key" where
  "public_key E sk = g2_mul E (g2_generator E) sk"

definition hash_to_fr :: "env \<Rightarrow> bytes \<Rightarrow> fr" where
  "hash_to_fr E message = fr_from_le_bytes_mod_order E (blake3 E message)"

definition hash_to_g1 :: "env \<Rightarrow> bytes \<Rightarrow> g1" where
  "hash_to_g1 E message = g1_mul E (g1_generator E) (hash_to_fr E message)"

definition bls_sign :: "env \<Rightarrow> bls_secret_key \<Rightarrow> bytes \<Rightarrow> bls_signature" where
  "bls_sign E sk message = g1_mul E (hash_to_g1 E message) sk"

definition bls_verify :: "env \<Rightarrow> bls_public_key \<Rightarrow> bytes \<Rightarrow> bls_signature \<Rightarrow> bool" where
  "bls_verify E pk message signature \<longleftrightarrow>
     pairing E signature (g2_generator E) = pairing E (hash_to_g1 E message) pk"

definition aggregate_public_keys :: "env \<Rightarrow> bls_public_key list \<Rightarrow> bls_public_key" where
  "aggregate_public_keys E pks = fold (\<lambda>pk acc. g2_add E acc pk) pks (g2_zero E)"

definition aggregate_signatures :: "env \<Rightarrow> bls_signature list \<Rightarrow> bls_signature" where
  "aggregate_signatures E sigs = fold (\<lambda>s acc. g1_add E acc s) sigs (g1_zero E)"

definition verify_aggregate :: "env \<Rightarrow> bls_public_key list \<Rightarrow> bytes \<Rightarrow> bls_signature \<Rightarrow> bool" where
  "verify_aggregate E pks message aggregated_signature \<longleftrightarrow>
     pairing E aggregated_signature (g2_generator E)
       = pairing E (hash_to_g1 E message) (aggregate_public_keys E pks)"

text \<open>\<open>batch_verify\<close> asserts that the three slices have the same length: \<open>None\<close> is that panic.\<close>

definition batch_verify ::
    "env \<Rightarrow> bls_public_key list \<Rightarrow> bytes list \<Rightarrow> bls_signature list \<Rightarrow> bool option" where
  "batch_verify E pks messages sigs =
     (if length pks \<noteq> length messages then None
      else if length pks \<noteq> length sigs then None
      else if pks = [] then Some True
      else Some (list_all (\<lambda>i. bls_verify E (pks ! i) (messages ! i) (sigs ! i)) [0..<length pks]))"

definition u64_from_le_bytes :: "bytes \<Rightarrow> u64" where
  "u64_from_le_bytes bs = foldr (\<lambda>b acc. ucast b + 256 * acc) bs 0"

definition to_peer_id :: "env \<Rightarrow> bls_public_key \<Rightarrow> peer_id" where
  "to_peer_id E pk = u64_from_le_bytes (take 8 (blake3 E (g2_serialize_compressed E pk)))"

record aggregated_signature =
  as_aggregated_signature :: bls_signature
  as_public_keys :: "bls_public_key list"

definition aggregated_signature_new ::
    "env \<Rightarrow> bls_public_key list \<Rightarrow> bytes \<Rightarrow> bls_signature list \<Rightarrow> aggregated_signature option" where
  "aggregated_signature_new E pks message sigs =
     (if length pks \<noteq> length sigs \<or> pks = [] then None
      else if \<not> list_all (\<lambda>i. bls_verify E (pks ! i) message (sigs ! i)) [0..<length pks] then None
      else Some \<lparr>as_aggregated_signature = aggregate_signatures E sigs, as_public_keys = pks\<rparr>)"

definition aggregated_signature_verify :: "env \<Rightarrow> aggregated_signature \<Rightarrow> bytes \<Rightarrow> bool" where
  "aggregated_signature_verify E s message =
     verify_aggregate E (as_public_keys s) message (as_aggregated_signature s)"

subsection \<open>What the curve library promises\<close>

text \<open>The pairing is bilinear and scalars are read modulo the group order \<open>r\<close>.\<close>

definition ark_laws :: "env \<Rightarrow> int \<Rightarrow> bool" where
  "ark_laws E r \<longleftrightarrow>
     (\<exists>mul one pow.
        (\<forall>a b q. pairing E (g1_add E a b) q = mul (pairing E a q) (pairing E b q)) \<and>
        (\<forall>a p q. pairing E a (g2_add E p q) = mul (pairing E a p) (pairing E a q)) \<and>
        (\<forall>q. pairing E (g1_zero E) q = one) \<and>
        (\<forall>a. pairing E a (g2_zero E) = one) \<and>
        (\<forall>a q x. pairing E (g1_mul E a x) q = pow (pairing E a q) x) \<and>
        (\<forall>a q x. pairing E a (g2_mul E q x) = pow (pairing E a q) x)) \<and>
     (\<forall>a x y. g1_mul E (g1_mul E a x) y = g1_mul E a (x * y)) \<and>
     (\<forall>a x. g1_mul E a (x mod r) = g1_mul E a x)"

text \<open>A concrete instance, used by the witnesses: the additive group of the integers modulo 7.\<close>

definition toy_env :: env where
  "toy_env = \<lparr>
     blake3 = (\<lambda>bs. bs),
     fr_from_le_bytes_mod_order = (\<lambda>bs. (1 + uint (sum_list bs)) mod 7),
     g1_generator = 1, g1_zero = 0,
     g1_add = (\<lambda>a b. (a + b) mod 7), g1_mul = (\<lambda>a x. (a * x) mod 7),
     g2_generator = 1, g2_zero = 0,
     g2_add = (\<lambda>a b. (a + b) mod 7), g2_mul = (\<lambda>a x. (a * x) mod 7),
     pairing = (\<lambda>a b. (a * b) mod 7),
     g2_serialize_compressed = (\<lambda>p. [word_of_int p]),
     ed_public_key = (\<lambda>sk. sk), ed_sign = (\<lambda>sk m. sk @ m),
     ed_valid_key = (\<lambda>k. length k = 1),
     ed_verify = (\<lambda>k m s. s = k @ m),
     ed_verify_batch = (\<lambda>ms ss ks. list_all2 (\<lambda>s (k, m). s = k @ m) ss (zip ks ms)),
     hex_decode = (\<lambda>s. None),
     redb_write_ok = (\<lambda>t k. True)\<rparr>"

lemma toy_env_ark_laws: "ark_laws toy_env 7"
  unfolding ark_laws_def toy_env_def
  by (rule conjI, rule exI [of _ "\<lambda>a b. (a + b) mod 7"], rule exI [of _ 0],
      rule exI [of _ "\<lambda>a x. (a * x) mod 7"]) (auto simp: mod_simps algebra_simps)

subsection \<open>Signing, aggregation and verification agree\<close>

lemma ark_pairing_scale:
  "ark_laws E r \<Longrightarrow> pairing E a q = pairing E b p \<Longrightarrow>
   pairing E (g1_mul E a x) q = pairing E (g1_mul E b x) p"
  unfolding ark_laws_def by (metis (no_types, lifting))

lemma ark_pairing_swap:
  "ark_laws E r \<Longrightarrow> pairing E (g1_mul E a x) q = pairing E a (g2_mul E q x)"
  unfolding ark_laws_def by (metis (no_types, lifting))

lemma ark_pairing_add:
  "ark_laws E r \<Longrightarrow> pairing E a q = pairing E h p \<Longrightarrow> pairing E b q = pairing E h p' \<Longrightarrow>
   pairing E (g1_add E a b) q = pairing E h (g2_add E p p')"
  unfolding ark_laws_def by (metis (no_types, lifting))

lemma ark_pairing_zero: "ark_laws E r \<Longrightarrow> pairing E (g1_zero E) q = pairing E a (g2_zero E)"
  unfolding ark_laws_def by (metis (no_types, lifting))

lemma ark_mul_mul: "ark_laws E r \<Longrightarrow> g1_mul E (g1_mul E a x) y = g1_mul E a (x * y)"
  by (simp add: ark_laws_def)

lemma ark_mul_cong: "ark_laws E r \<Longrightarrow> x mod r = y mod r \<Longrightarrow> g1_mul E a x = g1_mul E a y"
  unfolding ark_laws_def by metis

lemma verify_aggregate_eq: "verify_aggregate E pks m s = bls_verify E (aggregate_public_keys E pks) m s"
  by (simp add: verify_aggregate_def bls_verify_def)

text \<open>A signature made with a secret key verifies under the public key derived from it, for
  every message.\<close>

theorem sign_then_verify:
  assumes "ark_laws E r"
  shows "bls_verify E (public_key E sk) message (bls_sign E sk message)"
  using ark_pairing_swap [OF assms] by (simp add: bls_verify_def public_key_def bls_sign_def)

theorem sign_then_verify_witness:
  "ark_laws toy_env 7 \<and> bls_verify toy_env (public_key toy_env 3) [5, 6] (bls_sign toy_env 3 [5, 6])"
  using toy_env_ark_laws sign_then_verify [OF toy_env_ark_laws] by blast

lemma aggregate_verify_fold:
  assumes "ark_laws E r"
    and "pairing E sg (g2_generator E) = pairing E (hash_to_g1 E m) pk"
    and "list_all2 (\<lambda>pk s. bls_verify E pk m s) pks sigs"
  shows "pairing E (fold (\<lambda>s acc. g1_add E acc s) sigs sg) (g2_generator E)
    = pairing E (hash_to_g1 E m) (fold (\<lambda>pk acc. g2_add E acc pk) pks pk)"
  using assms(3,2)
proof (induction arbitrary: sg pk rule: list_all2_induct)
  case (Cons p pks s sigs)
  from Cons.hyps(1) Cons.prems
  have "pairing E (g1_add E sg s) (g2_generator E) = pairing E (hash_to_g1 E m) (g2_add E pk p)"
    unfolding bls_verify_def by (intro ark_pairing_add [OF assms(1)])
  then show ?case using Cons.IH by simp
qed simp

lemma aggregate_verifies:
  assumes "ark_laws E r" and "list_all2 (\<lambda>pk s. bls_verify E pk m s) pks sigs"
  shows "bls_verify E (aggregate_public_keys E pks) m (aggregate_signatures E sigs)"
  using aggregate_verify_fold [OF assms(1) ark_pairing_zero [OF assms(1)] assms(2)]
  by (simp add: bls_verify_def aggregate_public_keys_def aggregate_signatures_def)

text \<open>\<open>AggregatedSignature::new\<close> succeeds exactly on a non-empty list of signatures that each
  verify under the key at the same index, and the value it builds then passes its own \<open>verify\<close>.\<close>

theorem aggregated_signature_sound:
  assumes "ark_laws E r"
  shows "case aggregated_signature_new E pks m sigs of
      None \<Rightarrow> pks = [] \<or> \<not> list_all2 (\<lambda>pk s. bls_verify E pk m s) pks sigs
    | Some s \<Rightarrow> pks \<noteq> [] \<and> list_all2 (\<lambda>pk s. bls_verify E pk m s) pks sigs
        \<and> aggregated_signature_verify E s m"
proof -
  have iff: "list_all2 (\<lambda>pk s. bls_verify E pk m s) pks sigs \<longleftrightarrow>
      length pks = length sigs \<and> list_all (\<lambda>i. bls_verify E (pks ! i) m (sigs ! i)) [0..<length pks]"
    by (auto simp: list_all2_conv_all_nth list_all_iff)
  show ?thesis
    using aggregate_verifies [OF assms, of m pks sigs]
    by (auto simp: aggregated_signature_new_def aggregated_signature_verify_def verify_aggregate_eq iff)
qed

theorem aggregated_signature_sound_witness:
  "ark_laws toy_env 7 \<and>
   (case aggregated_signature_new toy_env [3, 5] [2] [bls_sign toy_env 3 [2], bls_sign toy_env 5 [2]] of
      None \<Rightarrow> False | Some s \<Rightarrow> aggregated_signature_verify toy_env s [2])"
  using aggregated_signature_sound [OF toy_env_ark_laws, of "[3, 5]" "[2]"
      "[bls_sign toy_env 3 [2], bls_sign toy_env 5 [2]]"] toy_env_ark_laws
  by (simp add: aggregated_signature_new_def bls_verify_def bls_sign_def hash_to_g1_def
      hash_to_fr_def toy_env_def)

text \<open>\<open>batch_verify\<close> is the conjunction of the single verifications.\<close>

lemma batch_verify_iff:
  "batch_verify E pks ms sigs = Some True \<longleftrightarrow>
     length ms = length pks \<and> length sigs = length pks \<and>
     (\<forall>i < length pks. bls_verify E (pks ! i) (ms ! i) (sigs ! i))"
  by (auto simp: batch_verify_def list_all_iff)

subsection \<open>The hash to the curve has a known discrete logarithm\<close>

text \<open>From one valid signature of a peer on one message (whose hash is invertible modulo the
  group order) anyone computes, by multiplying the point with a public scalar, a signature of the
  same peer on any other message: \<open>hash_to_g1\<close> multiplies the fixed generator by the hash, so the
  secret key is not needed.\<close>

theorem bls_signature_forgeable:
  assumes laws: "ark_laws E r"
    and seen: "bls_verify E pk m sig"
    and inv: "coprime (hash_to_fr E m) r"
  shows "\<exists>c. bls_verify E pk m' (g1_mul E sig c)"
proof -
  obtain d v where "d * hash_to_fr E m + v * r = 1"
    using bezout_int [of "hash_to_fr E m" r] inv by (auto simp: coprime_iff_gcd_eq_1)
  then have d: "(hash_to_fr E m * d) mod r = 1 mod r"
    by (metis mod_mult_self1 mult.commute)
  let ?c = "d * hash_to_fr E m'"
  have "(hash_to_fr E m * ?c) mod r = hash_to_fr E m' mod r"
    using d by (metis mod_mult_left_eq mult.assoc mult_1)
  then have h: "g1_mul E (hash_to_g1 E m) ?c = hash_to_g1 E m'"
    unfolding hash_to_g1_def ark_mul_mul [OF laws] by (rule ark_mul_cong [OF laws])
  from seen have "pairing E (g1_mul E sig ?c) (g2_generator E)
      = pairing E (g1_mul E (hash_to_g1 E m) ?c) pk"
    unfolding bls_verify_def by (rule ark_pairing_scale [OF laws])
  then have "bls_verify E pk m' (g1_mul E sig ?c)" by (simp add: bls_verify_def h)
  then show ?thesis by blast
qed

theorem bls_signature_forgeable_witness:
  "ark_laws toy_env 7 \<and> coprime (hash_to_fr toy_env [2]) 7
     \<and> bls_verify toy_env (public_key toy_env 3) [2] (bls_sign toy_env 3 [2])
     \<and> (\<exists>c. bls_verify toy_env (public_key toy_env 3) [4] (g1_mul toy_env (bls_sign toy_env 3 [2]) c))"
proof -
  have s: "bls_verify toy_env (public_key toy_env 3) [2] (bls_sign toy_env 3 [2])"
    by (simp add: bls_verify_def public_key_def bls_sign_def hash_to_g1_def hash_to_fr_def toy_env_def)
  have i: "coprime (hash_to_fr toy_env [2]) 7"
    by code_simp
  show ?thesis using bls_signature_forgeable [OF toy_env_ark_laws s i, of "[4]"] s i toy_env_ark_laws
    by blast
qed

end
