(* ===== verification/Chain_Types.thy ===== *)
theory Chain_Types
  imports Crypto
begin

text \<open>
  The data of \<open>consensus/src/state\<close>: transactions, blocks, votes, the two kinds of
  notarizations, nullify messages and nullifications, peers, leaders, views and accounts, with
  their constructors, hashes and signature checks, and the messages replicas exchange
  (\<open>consensus/src/consensus.rs\<close>). Field names carry a prefix per type because Isabelle's
  record selectors are global. \<open>Err\<close> values of \<open>anyhow\<close> are constructors of \<open>error\<close>; a Rust panic
  (\<open>expect\<close>, \<open>unwrap\<close>, \<open>assert\<close>, an index out of range) is \<open>Panic\<close>, which no caller catches.
\<close>

datatype panic_site =
    PeerIdNotInPeerSet | AddressNotAPublicKey | UnwrapOnNone | MissingCurrentView
  | LeaderKeyMissing | ReplicasMismatch | IndexOutOfRange | DuplicatePeers | NotImplemented

datatype error =
    Panic panic_site
  | PeerIdNotFound | BlockNotForView | BlockExists | WrongBlockLeader | WrongParent
  | BadBlockSignature
  | VoterNotAPeer | VoteNotForView | VoteExists | VoteExistsNonVerified | BadVoteSignature
  | NotEnoughVotes | AlreadyVoted | OwnVoteConflict
  | NullifierNotAPeer | NullifyNotForView | NullifyWrongLeader | NullifyExists
  | BadNullifySignature | NotEnoughNullifies
  | MNotNotForView | MNotWrongLeader | BadMNotSignature
  | NullificationNotForView | NullificationWrongLeader | BadNullificationSignature
  | AlreadyNullified | TimeoutAfterVote | ProgressedWithoutProof
  | ViewUnknown | PendingBlockExists | NoBlockHash | RecoveredHashMismatch
  | ParentNullified | IntermediateNotNullified | ParentNotCommitted
  | NotNextView | CurrentNotMNotarized | CurrentNotNullified
  | FinalizeInFuture | NotLNotarized | FinalizeNullified | ParentNotMNotarized | ParentTooRecent
  | NoBlock | NoMNotarization | NoNullification | NotCurrentView
  | StorageFailed | BroadcastFailed | ChannelFull

type_synonym 'a result = "error + 'a"

text \<open>A panic is no value that the callers can inspect: code that logs or drops errors does not stop it.\<close>

definition is_panic :: "'a result \<Rightarrow> bool" where
  "is_panic r = (case r of Inl (Panic _) \<Rightarrow> True | _ \<Rightarrow> False)"

subsection \<open>Addresses and transactions\<close>

type_synonym address = bytes

datatype transaction_instruction =
    CreateAccount address
  | Burn address u64
  | Mint address u64
  | Transfer address u64

record transaction =
  tx_sender :: address
  tx_instruction :: transaction_instruction
  tx_nonce :: u64
  tx_timestamp :: u64
  tx_fee :: u64
  tx_hash :: hash
  tx_signature :: bytes

definition to_public_key :: "env \<Rightarrow> address \<Rightarrow> bytes option" where
  "to_public_key E a = (if ed_valid_key E a then Some a else None)"

definition tx_compute_hash ::
    "env \<Rightarrow> address \<Rightarrow> transaction_instruction \<Rightarrow> u64 \<Rightarrow> u64 \<Rightarrow> u64 \<Rightarrow> hash" where
  "tx_compute_hash E sender instr nonce timestamp fee =
     blake3 E (sender
       @ (case instr of
            CreateAccount a \<Rightarrow> [1] @ a
          | Burn a n \<Rightarrow> [2] @ a @ to_le_bytes n
          | Mint a n \<Rightarrow> [3] @ a @ to_le_bytes n
          | Transfer a n \<Rightarrow> [4] @ a @ to_le_bytes n)
       @ to_le_bytes nonce @ to_le_bytes timestamp @ to_le_bytes fee)"

definition create_signed ::
    "env \<Rightarrow> address \<Rightarrow> transaction_instruction \<Rightarrow> u64 \<Rightarrow> u64 \<Rightarrow> bytes \<Rightarrow> u64 \<Rightarrow> transaction" where
  "create_signed E sender instr nonce fee sk now =
     (let h = tx_compute_hash E sender instr nonce now fee
      in \<lparr>tx_sender = sender, tx_instruction = instr, tx_nonce = nonce, tx_timestamp = now,
          tx_fee = fee, tx_hash = h, tx_signature = ed_sign E sk h\<rparr>)"

definition new_transfer ::
    "env \<Rightarrow> address \<Rightarrow> address \<Rightarrow> u64 \<Rightarrow> u64 \<Rightarrow> u64 \<Rightarrow> bytes \<Rightarrow> u64 \<Rightarrow> transaction" where
  "new_transfer E sender recipient amount nonce fee sk now =
     create_signed E sender (Transfer recipient amount) nonce fee sk now"

definition new_mint :: "env \<Rightarrow> address \<Rightarrow> address \<Rightarrow> u64 \<Rightarrow> u64 \<Rightarrow> bytes \<Rightarrow> u64 \<Rightarrow> transaction" where
  "new_mint E sender recipient amount nonce sk now =
     create_signed E sender (Mint recipient amount) nonce 0 sk now"

definition new_create_account ::
    "env \<Rightarrow> address \<Rightarrow> address \<Rightarrow> u64 \<Rightarrow> u64 \<Rightarrow> bytes \<Rightarrow> u64 \<Rightarrow> transaction" where
  "new_create_account E sender a nonce fee sk now =
     create_signed E sender (CreateAccount a) nonce fee sk now"

definition new_burn ::
    "env \<Rightarrow> address \<Rightarrow> address \<Rightarrow> u64 \<Rightarrow> u64 \<Rightarrow> u64 \<Rightarrow> bytes \<Rightarrow> u64 \<Rightarrow> transaction" where
  "new_burn E sender a amount nonce fee sk now =
     create_signed E sender (Burn a amount) nonce fee sk now"

text \<open>\<open>Transaction::verify\<close>: \<open>None\<close> is the panic on a sender that is not a public key.\<close>

definition tx_verify :: "env \<Rightarrow> transaction \<Rightarrow> bool option" where
  "tx_verify E tx = (case to_public_key E (tx_sender tx) of
      None \<Rightarrow> None
    | Some pk \<Rightarrow> Some (ed_verify E pk (tx_hash tx) (tx_signature tx)))"

fun tx_amount :: "transaction_instruction \<Rightarrow> u64" where
  "tx_amount (Transfer _ amount) = amount"
| "tx_amount (Burn _ amount) = amount"
| "tx_amount (Mint _ amount) = amount"
| "tx_amount (CreateAccount _) = 0"

fun tx_recipient :: "transaction_instruction \<Rightarrow> address option" where
  "tx_recipient (Transfer r _) = Some r"
| "tx_recipient (Burn a _) = Some a"
| "tx_recipient (Mint r _) = Some r"
| "tx_recipient (CreateAccount a) = Some a"

subsection \<open>Blocks\<close>

record block_header =
  h_view :: view_no
  h_parent_block_hash :: hash
  h_timestamp :: u64

record block =
  b_leader :: peer_id
  b_header :: block_header
  b_leader_signature :: bls_signature
  b_transactions :: "transaction list"
  b_hash :: "hash option"
  b_is_finalized :: bool
  b_height :: nat

definition block_compute_hash :: "env \<Rightarrow> block \<Rightarrow> hash" where
  "block_compute_hash E b = blake3 E
     (h_parent_block_hash (b_header b)
      @ concat (map (\<lambda>(i, t). blake3 E (to_le_bytes (of_nat i) @ tx_hash t))
                    (enumerate 0 (b_transactions b)))
      @ to_le_bytes (h_timestamp (b_header b))
      @ to_le_bytes (of_nat (h_view (b_header b))))"

definition block_new ::
    "env \<Rightarrow> view_no \<Rightarrow> peer_id \<Rightarrow> hash \<Rightarrow> transaction list \<Rightarrow> u64 \<Rightarrow> bls_signature \<Rightarrow> bool \<Rightarrow> nat
      \<Rightarrow> block" where
  "block_new E view leader parent txs timestamp sig fin height =
     (let b = \<lparr>b_leader = leader,
               b_header = \<lparr>h_view = view, h_parent_block_hash = parent, h_timestamp = timestamp\<rparr>,
               b_leader_signature = sig, b_transactions = txs, b_hash = None,
               b_is_finalized = fin, b_height = height\<rparr>
      in b\<lparr>b_hash := Some (block_compute_hash E b)\<rparr>)"

definition genesis_hash :: "env \<Rightarrow> hash" where
  "genesis_hash E = blake3 E (replicate 32 0 @ to_le_bytes 0 @ to_le_bytes 0)"

definition genesis :: "env \<Rightarrow> peer_id \<Rightarrow> bls_signature \<Rightarrow> block" where
  "genesis E leader sig =
     \<lparr>b_leader = leader,
      b_header = \<lparr>h_view = 0, h_parent_block_hash = replicate 32 0, h_timestamp = 0\<rparr>,
      b_leader_signature = sig, b_transactions = [], b_hash = Some (genesis_hash E),
      b_is_finalized = True, b_height = 0\<rparr>"

definition get_hash :: "env \<Rightarrow> block \<Rightarrow> hash" where
  "get_hash E b = (case b_hash b of Some h \<Rightarrow> h | None \<Rightarrow> block_compute_hash E b)"

definition b_view :: "block \<Rightarrow> view_no" where
  "b_view b = h_view (b_header b)"

definition b_parent :: "block \<Rightarrow> hash" where
  "b_parent b = h_parent_block_hash (b_header b)"

definition BATCH_CHUNK_SIZE :: nat where
  "BATCH_CHUNK_SIZE = 128"

definition verify_batch_chunk :: "env \<Rightarrow> transaction list \<Rightarrow> bool" where
  "verify_batch_chunk E chunk =
     (if chunk = [] then True
      else if \<exists>tx \<in> set chunk. to_public_key E (tx_sender tx) = None then False
      else ed_verify_batch E (map tx_hash chunk) (map tx_signature chunk) (map tx_sender chunk))"

text \<open>\<open>slice::par_chunks\<close>.\<close>

function chunks :: "nat \<Rightarrow> 'a list \<Rightarrow> 'a list list" where
  "chunks n xs = (if n = 0 \<or> xs = [] then [] else take n xs # chunks n (drop n xs))"
  by pat_completeness auto
termination by (relation "measure (\<lambda>(n, xs). length xs)") auto

declare chunks.simps [simp del]

definition verify_block_txs_signatures :: "env \<Rightarrow> block \<Rightarrow> bool" where
  "verify_block_txs_signatures E b =
     (if b_transactions b = [] then True
      else if length (b_transactions b) \<le> BATCH_CHUNK_SIZE then verify_batch_chunk E (b_transactions b)
      else list_all (verify_batch_chunk E) (chunks BATCH_CHUNK_SIZE (b_transactions b)))"

text \<open>\<open>None\<close> is the panic of \<open>Transaction::verify\<close>.\<close>

definition verify_signatures_find_invalid :: "env \<Rightarrow> block \<Rightarrow> nat list option" where
  "verify_signatures_find_invalid E b =
     (if \<exists>tx \<in> set (b_transactions b). tx_verify E tx = None then None
      else Some (map fst (filter (\<lambda>(i, tx). tx_verify E tx = Some False)
                                 (enumerate 0 (b_transactions b)))))"

definition verify_all_signatures :: "env \<Rightarrow> block \<Rightarrow> (nat list + unit) option" where
  "verify_all_signatures E b =
     (if verify_block_txs_signatures E b then Some (Inr ())
      else case verify_signatures_find_invalid E b of
             None \<Rightarrow> None
           | Some [] \<Rightarrow> Some (Inr ())
           | Some (i # is) \<Rightarrow> Some (Inl (i # is)))"

subsection \<open>Peers\<close>

record peer =
  p_peer_id :: peer_id
  p_public_key :: bls_public_key
  p_is_current_leader :: bool

definition peer_new :: "env \<Rightarrow> bls_public_key \<Rightarrow> bool \<Rightarrow> peer" where
  "peer_new E pk cur = \<lparr>p_peer_id = to_peer_id E pk, p_public_key = pk, p_is_current_leader = cur\<rparr>"

record peer_set =
  id_to_public_key :: "(peer_id \<times> bls_public_key) list"
  sorted_peer_ids :: "peer_id list"

text \<open>\<open>PeerSet::new\<close>: \<open>None\<close> is the failed \<open>assert_eq\<close>. \<open>remdups_adj\<close> is \<open>Vec::dedup\<close>.\<close>

definition peer_set_new :: "env \<Rightarrow> bls_public_key list \<Rightarrow> peer_set option" where
  "peer_set_new E peers =
     (let m = fold (\<lambda>pk m. AList.update (to_peer_id E pk) pk m) peers [];
          ids = remdups_adj (sort (map (to_peer_id E) peers))
      in if length ids = length peers
         then Some \<lparr>id_to_public_key = m, sorted_peer_ids = ids\<rparr> else None)"

definition get_public_key :: "peer_set \<Rightarrow> peer_id \<Rightarrow> bls_public_key result" where
  "get_public_key P p = (case map_of (id_to_public_key P) p of
      Some pk \<Rightarrow> Inr pk | None \<Rightarrow> Inl PeerIdNotFound)"

definition peer_contains :: "peer_set \<Rightarrow> peer_id \<Rightarrow> bool" where
  "peer_contains P p = (map_of (id_to_public_key P) p \<noteq> None)"

subsection \<open>Votes and notarizations\<close>

record vote =
  v_view :: view_no
  v_block_hash :: hash
  v_signature :: bls_signature
  v_peer_id :: peer_id
  v_leader_id :: peer_id

definition vote_verify :: "env \<Rightarrow> vote \<Rightarrow> bls_public_key \<Rightarrow> bool" where
  "vote_verify E v pk = bls_verify E pk (v_block_hash v) (v_signature v)"

text \<open>The fields that \<open>PartialEq\<close> and \<open>Hash\<close> of \<open>Vote\<close> and \<open>Nullify\<close> look at.\<close>

definition vote_key :: "vote \<Rightarrow> view_no \<times> hash \<times> peer_id" where
  "vote_key v = (v_view v, v_block_hash v, v_peer_id v)"

record m_notarization =
  mn_view :: view_no
  mn_block_hash :: hash
  mn_aggregated_signature :: bls_signature
  mn_peer_ids :: "peer_id list"
  mn_leader_id :: peer_id

text \<open>The keys of a list of peer ids, \<open>None\<close> where \<open>expect\<close> panics.\<close>

definition lookup_keys :: "peer_set \<Rightarrow> peer_id list \<Rightarrow> bls_public_key list option" where
  "lookup_keys P ids = those (map (map_of (id_to_public_key P)) ids)"

definition mnot_verify :: "env \<Rightarrow> peer_set \<Rightarrow> m_notarization \<Rightarrow> bool option" where
  "mnot_verify E P m = (case lookup_keys P (mn_peer_ids m) of
      None \<Rightarrow> None
    | Some pks \<Rightarrow> Some (bls_verify E (aggregate_public_keys E pks) (mn_block_hash m)
                                    (mn_aggregated_signature m)))"

record l_notarization =
  ln_view :: view_no
  ln_block_hash :: hash
  ln_aggregated_signature :: bls_signature
  ln_peer_ids :: "peer_id list"
  ln_height :: nat

definition lnot_verify :: "env \<Rightarrow> nat \<Rightarrow> nat \<Rightarrow> peer_set \<Rightarrow> l_notarization \<Rightarrow> bool" where
  "lnot_verify E N F P l =
     (let pks = List.map_filter (map_of (id_to_public_key P)) (ln_peer_ids l)
      in if length pks < N - F then False
         else bls_verify E (aggregate_public_keys E pks) (ln_block_hash l)
                (ln_aggregated_signature l))"

subsection \<open>Nullify messages and nullifications\<close>

record nullify =
  nf_view :: view_no
  nf_leader_id :: peer_id
  nf_signature :: bls_signature
  nf_peer_id :: peer_id

definition nullify_message :: "env \<Rightarrow> view_no \<Rightarrow> peer_id \<Rightarrow> hash" where
  "nullify_message E view leader_id =
     blake3 E (to_le_bytes (of_nat view) @ to_le_bytes leader_id)"

definition nullify_verify :: "env \<Rightarrow> nullify \<Rightarrow> bls_public_key \<Rightarrow> bool" where
  "nullify_verify E n pk =
     bls_verify E pk (nullify_message E (nf_view n) (nf_leader_id n)) (nf_signature n)"

definition nullify_key :: "nullify \<Rightarrow> view_no \<times> peer_id" where
  "nullify_key n = (nf_view n, nf_peer_id n)"

record nullification =
  nfn_view :: view_no
  nfn_leader_id :: peer_id
  nfn_aggregated_signature :: bls_signature
  nfn_peer_ids :: "peer_id list"

definition nullification_verify :: "env \<Rightarrow> peer_set \<Rightarrow> nullification \<Rightarrow> bool option" where
  "nullification_verify E P n = (case lookup_keys P (nfn_peer_ids n) of
      None \<Rightarrow> None
    | Some pks \<Rightarrow> Some (bls_verify E (aggregate_public_keys E pks)
                          (nullify_message E (nfn_view n) (nfn_leader_id n))
                          (nfn_aggregated_signature n)))"

subsection \<open>Leaders, views, accounts, messages\<close>

record leader =
  l_peer_id :: peer_id
  l_view :: view_no

definition is_leader_for_view :: "leader \<Rightarrow> view_no \<Rightarrow> bool" where
  "is_leader_for_view l view = (l_view l = view)"

record view =
  view_view :: view_no
  view_leader :: bls_public_key
  view_is_current :: bool
  view_nullified :: bool

record account =
  a_public_key :: bytes
  a_balance :: u64
  a_nonce :: u64

definition account_new :: "bytes \<Rightarrow> u64 \<Rightarrow> u64 \<Rightarrow> account" where
  "account_new pk balance nonce = \<lparr>a_public_key = pk, a_balance = balance, a_nonce = nonce\<rparr>"

datatype consensus_message =
    BlockProposal block
  | VoteMsg vote
  | NullifyMsg nullify
  | MNotarizationMsg m_notarization
  | NullificationMsg nullification
  | BlockRecoveryRequest view_no hash
  | BlockRecoveryResponse view_no block

text \<open>The const generics \<open>N\<close>, \<open>F\<close>, \<open>M_SIZE\<close> of the generic types, and the bound of the protocol.\<close>

record cfg =
  cN :: nat
  cF :: nat
  cM :: nat

definition wf_cfg :: "cfg \<Rightarrow> bool" where
  "wf_cfg c = (5 * cF c + 1 \<le> cN c \<and> cM c = 2 * cF c + 1)"

subsection \<open>Transaction signatures\<close>

text \<open>What the Ed25519 library promises: a signature verifies under the public key of the signing
  key, and batch verification accepts exactly the batches whose members verify one by one.\<close>

definition ed_laws :: "env \<Rightarrow> bool" where
  "ed_laws E \<longleftrightarrow>
     (\<forall>sk. ed_valid_key E (ed_public_key E sk)) \<and>
     (\<forall>sk m. ed_verify E (ed_public_key E sk) m (ed_sign E sk m))"

text \<open>The batch check is taken to accept exactly the batches whose signatures all verify one by one.
  This idealises the library: its check is randomized, with a negligible error, and checks the
  cofactored equation.\<close>

definition ed_batch_law :: "env \<Rightarrow> bool" where
  "ed_batch_law E \<longleftrightarrow>
     (\<forall>ms ss ks. length ms = length ss \<longrightarrow> length ks = length ss \<longrightarrow>
        ed_verify_batch E ms ss ks = (\<forall>i < length ss. ed_verify E (ks ! i) (ms ! i) (ss ! i)))"

lemma toy_env_ed_batch_law: "ed_batch_law toy_env"
  by (auto simp: ed_batch_law_def toy_env_def list_all2_conv_all_nth)

definition tx_signature_ok :: "env \<Rightarrow> transaction \<Rightarrow> bool" where
  "tx_signature_ok E tx \<longleftrightarrow>
     ed_valid_key E (tx_sender tx) \<and> ed_verify E (tx_sender tx) (tx_hash tx) (tx_signature tx)"

lemma tx_verify_True: "tx_verify E tx = Some True \<longleftrightarrow> tx_signature_ok E tx"
  by (simp add: tx_verify_def to_public_key_def tx_signature_ok_def)

lemma tx_verify_None: "tx_verify E tx = None \<longleftrightarrow> \<not> ed_valid_key E (tx_sender tx)"
  by (simp add: tx_verify_def to_public_key_def)

lemma tx_verify_False:
  "tx_verify E tx = Some False \<longleftrightarrow> ed_valid_key E (tx_sender tx) \<and> \<not> tx_signature_ok E tx"
  by (auto simp: tx_verify_def to_public_key_def tx_signature_ok_def)

lemma list_all_chunks: "0 < n \<Longrightarrow> list_all (list_all P) (chunks n xs) = list_all P xs"
proof (induction n xs rule: chunks.induct)
  case (1 n xs)
  have "list_all P xs = (list_all P (take n xs) \<and> list_all P (drop n xs))"
    by (metis append_take_drop_id list_all_append)
  with 1 show ?case by (subst chunks.simps) auto
qed

lemma verify_batch_chunk_iff:
  assumes "ed_batch_law E"
  shows "verify_batch_chunk E chunk = list_all (tx_signature_ok E) chunk"
proof -
  have "ed_verify_batch E (map tx_hash chunk) (map tx_signature chunk) (map tx_sender chunk)
      = (\<forall>tx \<in> set chunk. ed_verify E (tx_sender tx) (tx_hash tx) (tx_signature tx))"
    using assms by (simp add: ed_batch_law_def all_set_conv_all_nth)
  then show ?thesis
    by (auto simp: verify_batch_chunk_def to_public_key_def list_all_iff tx_signature_ok_def
        split: if_splits)
qed

lemma verify_block_txs_signatures_eq:
  assumes "ed_batch_law E"
  shows "verify_block_txs_signatures E b = list_all (tx_signature_ok E) (b_transactions b)"
proof -
  have "verify_batch_chunk E = list_all (tx_signature_ok E)"
    by (rule ext) (rule verify_batch_chunk_iff [OF assms])
  then show ?thesis
    by (simp add: verify_block_txs_signatures_def list_all_chunks BATCH_CHUNK_SIZE_def)
qed

lemma filter_enumerate_Nil:
  "map fst (filter (\<lambda>(i, x). P x) (enumerate n xs)) = [] \<longleftrightarrow> list_all (\<lambda>x. \<not> P x) xs"
  by (induction xs arbitrary: n) auto

text \<open>C37: \<open>Block::verify_all_signatures\<close>, with its batches of 128 verified independently, decides
  the per-transaction specification: it accepts exactly the blocks all of whose transactions carry
  a valid key and a valid signature, otherwise it reports exactly the indices of the bad
  signatures; when a rejected block has a sender that is not a public key, it panics instead.\<close>

theorem verify_all_signatures_spec:
  assumes "ed_batch_law E"
  shows "verify_all_signatures E b =
    (if \<forall>tx \<in> set (b_transactions b). tx_signature_ok E tx then Some (Inr ())
     else if \<exists>tx \<in> set (b_transactions b). \<not> ed_valid_key E (tx_sender tx) then None
     else Some (Inl (map fst (filter (\<lambda>(i, tx). \<not> tx_signature_ok E tx)
                                     (enumerate 0 (b_transactions b))))))"
proof -
  let ?txs = "b_transactions b"
  have f: "filter (\<lambda>(i, tx). tx_verify E tx = Some False) (enumerate 0 ?txs)
      = filter (\<lambda>(i, tx). \<not> tx_signature_ok E tx) (enumerate 0 ?txs)"
    if "\<forall>tx \<in> set ?txs. ed_valid_key E (tx_sender tx)"
    using that by (intro filter_cong) (auto simp: tx_verify_False in_set_enumerate_eq)
  have n: "map fst (filter (\<lambda>(i, tx). \<not> tx_signature_ok E tx) (enumerate 0 ?txs)) \<noteq> []"
    if "\<not> list_all (tx_signature_ok E) ?txs"
    using that filter_enumerate_Nil [of "\<lambda>tx. \<not> tx_signature_ok E tx" 0 ?txs] by simp
  show ?thesis
    using f n verify_block_txs_signatures_eq [OF assms, of b]
    by (auto simp: verify_all_signatures_def verify_signatures_find_invalid_def tx_verify_None
        list_all_iff split: list.splits)
qed

definition toy_block :: block where
  "toy_block = block_new toy_env 1 2 [9]
     [create_signed toy_env [1] (Transfer [2] 5) 0 1 [1] 7,
      (create_signed toy_env [1] (Transfer [2] 5) 1 1 [1] 7)\<lparr>tx_signature := []\<rparr>] 7 0 False 1"

theorem verify_all_signatures_spec_witness:
  "ed_batch_law toy_env \<and> verify_all_signatures toy_env toy_block = Some (Inl [1])"
  using toy_env_ed_batch_law
  by (subst verify_all_signatures_spec [OF toy_env_ed_batch_law])
    (simp add: toy_block_def block_new_def create_signed_def tx_signature_ok_def toy_env_def Let_def)

text \<open>The signature check of a transaction does not depend on what the transaction does.
  \<open>Transaction::verify\<close> checks the signature of the hash stored in the transaction and nothing
  recomputes that hash, so a transaction signed by its sender still verifies after its
  instruction, nonce and fee have been replaced.\<close>

theorem tx_signature_does_not_bind_content:
  assumes "ed_laws E"
  shows "tx_verify E ((create_signed E (ed_public_key E sk) instr nonce fee sk now)
      \<lparr>tx_instruction := instr', tx_nonce := nonce', tx_fee := fee'\<rparr>) = Some True"
  using assms by (simp add: create_signed_def Let_def tx_verify_def to_public_key_def ed_laws_def)

text \<open>An instance of the laws in which every byte string is a key.\<close>

definition toy_ed_env :: env where
  "toy_ed_env = toy_env\<lparr>ed_valid_key := (\<lambda>k. True)\<rparr>"

theorem tx_signature_does_not_bind_content_witness:
  "ed_laws toy_ed_env \<and> tx_verify toy_ed_env
     ((create_signed toy_ed_env [1] (Transfer [2] 5) 0 1 [1] 7)
        \<lparr>tx_instruction := Transfer [3] 1000, tx_nonce := 4, tx_fee := 0\<rparr>) = Some True"
proof -
  have l: "ed_laws toy_ed_env" by (simp add: ed_laws_def toy_ed_env_def toy_env_def)
  have "ed_public_key toy_ed_env [1] = [1]" by (simp add: toy_ed_env_def toy_env_def)
  with tx_signature_does_not_bind_content [OF l, where sk = "[1]"] l show ?thesis by simp
qed

subsection \<open>Peer sets\<close>

lemma map_of_fold_update:
  "map_of (fold (\<lambda>x m. AList.update (f x) x m) xs m) =
     (map_of m) ++ map_of (rev (map (\<lambda>x. (f x, x)) xs))"
  by (induction xs arbitrary: m) (auto simp: update_conv' map_add_def fun_eq_iff split: option.splits)

lemma distinct_remdups_adj_sort: "sorted xs \<Longrightarrow> distinct (remdups_adj xs)"
  for xs :: "'a::linorder list"
  by (induction xs rule: remdups_adj.induct) (auto simp: order.antisym)

lemma length_remdups_adj_eq:
  "sorted xs \<Longrightarrow> length (remdups_adj xs) = length xs \<longleftrightarrow> distinct xs"
  for xs :: "'a::linorder list"
  by (metis card_distinct distinct_card distinct_remdups_adj_sort remdups_adj_set
      distinct_remdups_id remdups_adj_distinct)

lemma get_public_key_Inr:
  "get_public_key P p = Inr pk \<longleftrightarrow> map_of (id_to_public_key P) p = Some pk"
  by (simp add: get_public_key_def split: option.splits)

lemma peer_contains_iff: "peer_contains P p \<longleftrightarrow> (\<exists>pk. get_public_key P p = Inr pk)"
  by (auto simp: peer_contains_def get_public_key_Inr)

text \<open>The well-formed peer sets: \<open>sorted_peer_ids\<close> lists the keys of the map in ascending order.\<close>

definition wf_peer_set :: "peer_set \<Rightarrow> bool" where
  "wf_peer_set P \<longleftrightarrow> sorted (sorted_peer_ids P) \<and> distinct (sorted_peer_ids P)
     \<and> set (sorted_peer_ids P) = dom (map_of (id_to_public_key P))"

text \<open>\<open>PeerSet::new\<close> panics exactly when two of the given keys have the same peer id; otherwise
  the set holds exactly the given keys, each under its own id, and lists as many ids, in ascending
  order and without repetition.\<close>

theorem peer_set_new_spec:
  "case peer_set_new E pks of
      None \<Rightarrow> \<not> distinct (map (to_peer_id E) pks)
    | Some P \<Rightarrow> distinct (map (to_peer_id E) pks) \<and> wf_peer_set P
        \<and> length (sorted_peer_ids P) = length pks
        \<and> (\<forall>p pk. get_public_key P p = Inr pk \<longleftrightarrow> pk \<in> set pks \<and> to_peer_id E pk = p)"
proof -
  let ?ids = "map (to_peer_id E) pks"
  let ?m = "fold (\<lambda>pk m. AList.update (to_peer_id E pk) pk m) pks []"
  have len: "length (remdups_adj (sort ?ids)) = length pks \<longleftrightarrow> distinct ?ids"
    using length_remdups_adj_eq [of "sort ?ids"] by simp
  have m: "map_of ?m p = Some pk \<longleftrightarrow> pk \<in> set pks \<and> to_peer_id E pk = p"
    if "distinct ?ids" for p pk
  proof -
    have "distinct (map fst (rev (map (\<lambda>x. (to_peer_id E x, x)) pks)))"
      using that by (simp add: rev_map o_def distinct_map)
    then show ?thesis by (auto simp: map_of_fold_update map_of_eq_Some_iff)
  qed
  have d: "dom (map_of ?m) = set ?ids"
    by (auto simp: map_of_fold_update dom_map_of_conv_image_fst image_image)
  show ?thesis
    using len m d
    by (simp add: peer_set_new_def wf_peer_set_def get_public_key_Inr distinct_remdups_adj_sort
        Let_def)
qed

subsection \<open>Verification of notarizations\<close>

lemma lookup_keys_Some:
  "lookup_keys P ids = Some pks \<longleftrightarrow> list_all2 (\<lambda>i pk. map_of (id_to_public_key P) i = Some pk) ids pks"
  unfolding lookup_keys_def
  by (induction ids arbitrary: pks) (auto simp: list_all2_Cons1 split: option.splits)

lemma map_filter_all_Some:
  "list_all2 (\<lambda>i pk. f i = Some pk) ids pks \<Longrightarrow> List.map_filter f ids = pks"
  by (induction rule: list_all2_induct) (auto simp: map_filter_simps)

lemma list_all2_replicate2: "P x y \<Longrightarrow> list_all2 P (replicate n x) (replicate n y)"
  by (simp add: list_all2_conv_all_nth)

text \<open>An M-notarization put together from votes that verify is itself accepted, by every
  replica that knows the voters.\<close>

lemma mnot_verify_of_votes:
  assumes "ark_laws E r"
    and "\<forall>v \<in> set vs. v_block_hash v = mn_block_hash m
      \<and> (\<exists>pk. get_public_key P (v_peer_id v) = Inr pk \<and> vote_verify E v pk)"
    and "mn_peer_ids m = map v_peer_id vs"
    and "mn_aggregated_signature m = aggregate_signatures E (map v_signature vs)"
  shows "mnot_verify E P m = Some True"
proof -
  let ?key = "\<lambda>v. the (map_of (id_to_public_key P) (v_peer_id v))"
  have k: "map_of (id_to_public_key P) (v_peer_id v) = Some (?key v)
      \<and> bls_verify E (?key v) (mn_block_hash m) (v_signature v)" if "v \<in> set vs" for v
    using assms(2) that by (auto simp: get_public_key_Inr vote_verify_def)
  then have "lookup_keys P (mn_peer_ids m) = Some (map ?key vs)"
    unfolding lookup_keys_Some assms(3) by (auto simp: list_all2_conv_all_nth)
  moreover have "bls_verify E (aggregate_public_keys E (map ?key vs)) (mn_block_hash m)
      (aggregate_signatures E (map v_signature vs))"
    using k by (intro aggregate_verifies [OF assms(1)]) (auto simp: list_all2_conv_all_nth)
  ultimately show ?thesis by (simp add: mnot_verify_def assms(4))
qed

lemma nullification_verify_of_nullifies:
  assumes "ark_laws E r"
    and "\<forall>n \<in> set ns. nf_view n = nfn_view m \<and> nf_leader_id n = nfn_leader_id m
      \<and> (\<exists>pk. get_public_key P (nf_peer_id n) = Inr pk \<and> nullify_verify E n pk)"
    and "nfn_peer_ids m = map nf_peer_id ns"
    and "nfn_aggregated_signature m = aggregate_signatures E (map nf_signature ns)"
  shows "nullification_verify E P m = Some True"
proof -
  let ?key = "\<lambda>n. the (map_of (id_to_public_key P) (nf_peer_id n))"
  let ?msg = "nullify_message E (nfn_view m) (nfn_leader_id m)"
  have k: "map_of (id_to_public_key P) (nf_peer_id n) = Some (?key n)
      \<and> bls_verify E (?key n) ?msg (nf_signature n)" if "n \<in> set ns" for n
    using assms(2) that by (auto simp: get_public_key_Inr nullify_verify_def)
  then have "lookup_keys P (nfn_peer_ids m) = Some (map ?key ns)"
    unfolding lookup_keys_Some assms(3) by (auto simp: list_all2_conv_all_nth)
  moreover have "bls_verify E (aggregate_public_keys E (map ?key ns)) ?msg
      (aggregate_signatures E (map nf_signature ns))"
    using k by (intro aggregate_verifies [OF assms(1)]) (auto simp: list_all2_conv_all_nth)
  ultimately show ?thesis by (simp add: nullification_verify_def assms(4))
qed

definition toy_peers :: peer_set where
  "toy_peers = \<lparr>id_to_public_key = [(1, 3), (2, 5)], sorted_peer_ids = [1, 2]\<rparr>"

definition toy_votes :: "vote list" where
  "toy_votes =
     [\<lparr>v_view = 4, v_block_hash = [2], v_signature = bls_sign toy_env 3 [2], v_peer_id = 1, v_leader_id = 1\<rparr>,
      \<lparr>v_view = 4, v_block_hash = [2], v_signature = bls_sign toy_env 5 [2], v_peer_id = 2, v_leader_id = 1\<rparr>]"

lemmas toy_crypto_simps = bls_verify_def bls_sign_def hash_to_g1_def hash_to_fr_def toy_env_def

lemma toy_votes_valid:
  "\<forall>v \<in> set toy_votes. v_block_hash v = [2]
     \<and> (\<exists>pk. get_public_key toy_peers (v_peer_id v) = Inr pk \<and> vote_verify toy_env v pk)"
  by (simp add: toy_votes_def toy_peers_def get_public_key_def vote_verify_def toy_crypto_simps)

text \<open>The finality proof that light clients check does not require distinct signers. From one
  valid vote of one validator for a block hash, anyone builds an L-notarization of that hash, for
  any view and height, that \<open>LNotarization::verify\<close> accepts: the validator's id is listed
  \<open>N - F\<close> times and its signature aggregated with itself.\<close>

theorem l_notarization_from_one_vote:
  assumes "ark_laws E r"
    and "get_public_key P (v_peer_id v) = Inr pk" and "vote_verify E v pk"
  shows "lnot_verify E N F P
    \<lparr>ln_view = view, ln_block_hash = v_block_hash v,
     ln_aggregated_signature = aggregate_signatures E (replicate (N - F) (v_signature v)),
     ln_peer_ids = replicate (N - F) (v_peer_id v), ln_height = height\<rparr>"
proof -
  let ?n = "N - F"
  have "map_of (id_to_public_key P) (v_peer_id v) = Some pk"
    using assms(2) by (simp add: get_public_key_Inr)
  then have "List.map_filter (map_of (id_to_public_key P)) (replicate ?n (v_peer_id v)) = replicate ?n pk"
    by (intro map_filter_all_Some) (simp add: list_all2_replicate2)
  moreover have "bls_verify E (aggregate_public_keys E (replicate ?n pk)) (v_block_hash v)
      (aggregate_signatures E (replicate ?n (v_signature v)))"
    using assms(3) by (intro aggregate_verifies [OF assms(1)])
      (simp add: list_all2_replicate2 vote_verify_def)
  ultimately show ?thesis by (simp add: lnot_verify_def)
qed

theorem l_notarization_from_one_vote_witness:
  "lnot_verify toy_env 6 1 toy_peers
    \<lparr>ln_view = 9, ln_block_hash = [2],
     ln_aggregated_signature = aggregate_signatures toy_env (replicate 5 (bls_sign toy_env 3 [2])),
     ln_peer_ids = replicate 5 1, ln_height = 8\<rparr>"
  using l_notarization_from_one_vote [OF toy_env_ark_laws, of toy_peers "hd toy_votes" 3 6 1 9 8]
  by (simp add: toy_votes_def toy_peers_def get_public_key_def vote_verify_def
      bls_verify_def bls_sign_def hash_to_g1_def hash_to_fr_def toy_env_def)

text \<open>What the check does guarantee: at least \<open>N - F\<close> listed ids belong to the validator set.\<close>

lemma lnot_verify_quorum:
  assumes "lnot_verify E N F P l"
  shows "N - F \<le> length (filter (peer_contains P) (ln_peer_ids l))"
proof -
  have "length (List.map_filter (map_of (id_to_public_key P)) ids)
      = length (filter (peer_contains P) ids)" for ids
    unfolding List.map_filter_def peer_contains_def [abs_def] by (simp add: o_def)
  then show ?thesis using assms by (auto simp: lnot_verify_def Let_def split: if_splits)
qed

text \<open>The genesis block's stored hash is the hash its contents have.\<close>

lemma genesis_hash_consistent: "get_hash E (genesis E l sg) = block_compute_hash E (genesis E l sg)"
  by (simp add: get_hash_def genesis_def block_compute_hash_def genesis_hash_def enumerate_eq_zip)

lemma block_new_hash:
  "get_hash E (block_new E view leader parent txs timestamp sg fin height)
    = block_compute_hash E (block_new E view leader parent txs timestamp sg fin height)"
  by (simp add: get_hash_def block_new_def block_compute_hash_def Let_def)

end
