(* ===== verification/Validation_Types.thy ===== *)
theory Validation_Types
  imports Chain_Types
begin

text \<open>
  The types of block validation (\<open>validation/types.rs\<close>): the state diff a validated block carries
  and the validation errors. Balance deltas are \<open>i128\<close> in the code; a block's deltas are sums of
  \<open>u64\<close> amounts that stay far below \<open>2 ^ 127\<close>, so they are \<open>int\<close>. \<open>total_fees\<close> wraps at 64 bits.
\<close>

record account_update =
  au_balance_delta :: int
  au_new_nonce :: u64

record new_account =
  na_address :: address
  na_initial_balance :: u64

record state_diff =
  sd_updates :: "(address \<times> account_update) list"
  sd_created_accounts :: "new_account list"
  sd_total_fees :: u64

definition state_diff_new :: state_diff where
  "state_diff_new = \<lparr>sd_updates = [], sd_created_accounts = [], sd_total_fees = 0\<rparr>"

definition add_balance_change :: "address \<Rightarrow> int \<Rightarrow> u64 \<Rightarrow> state_diff \<Rightarrow> state_diff" where
  "add_balance_change addr delta new_nonce d =
     (case map_of (sd_updates d) addr of
        Some u \<Rightarrow> d\<lparr>sd_updates := AList.update addr
           \<lparr>au_balance_delta = au_balance_delta u + delta, au_new_nonce = new_nonce\<rparr> (sd_updates d)\<rparr>
      | None \<Rightarrow> d\<lparr>sd_updates := AList.update addr
           \<lparr>au_balance_delta = delta, au_new_nonce = new_nonce\<rparr> (sd_updates d)\<rparr>)"

definition add_created_account :: "address \<Rightarrow> u64 \<Rightarrow> state_diff \<Rightarrow> state_diff" where
  "add_created_account addr initial_balance d =
     d\<lparr>sd_created_accounts := sd_created_accounts d
         @ [\<lparr>na_address = addr, na_initial_balance = initial_balance\<rparr>]\<rparr>"

definition add_collected_fees :: "u64 \<Rightarrow> state_diff \<Rightarrow> state_diff" where
  "add_collected_fees fees d = d\<lparr>sd_total_fees := sd_total_fees d + fees\<rparr>"

definition num_updates :: "state_diff \<Rightarrow> nat" where
  "num_updates d = length (sd_updates d)"

definition num_created :: "state_diff \<Rightarrow> nat" where
  "num_created d = length (sd_created_accounts d)"

datatype validation_error =
    BlockSignatureVerificationFailed hash nat
  | InvalidSignature nat hash
  | AccountNotFound nat address
  | InsufficientBalance nat address u64 u64
  | InvalidNonce nat address u64 u64
  | DuplicateTransaction nat hash
  | AccountAlreadyExists nat address
  | BalanceOverflow nat address

record validated_block =
  vb_block :: block
  vb_state_diff :: state_diff
  vb_validated_at :: instant

definition delta_of :: "state_diff \<Rightarrow> address \<Rightarrow> int" where
  "delta_of d a = (case map_of (sd_updates d) a of Some u \<Rightarrow> au_balance_delta u | None \<Rightarrow> 0)"

lemma delta_of_new [simp]: "delta_of state_diff_new a = 0"
  by (simp add: delta_of_def state_diff_new_def)

lemma delta_of_add_balance_change:
  "delta_of (add_balance_change addr delta n d) a = (if a = addr then delta_of d a + delta else delta_of d a)"
  by (auto simp: delta_of_def add_balance_change_def update_conv' split: option.splits)

lemma delta_of_add_created [simp]: "delta_of (add_created_account b v d) a = delta_of d a"
  by (simp add: delta_of_def add_created_account_def)

lemma delta_of_add_fees [simp]: "delta_of (add_collected_fees v d) a = delta_of d a"
  by (simp add: delta_of_def add_collected_fees_def)

lemma distinct_add_balance_change:
  "hm_invar (sd_updates d) \<Longrightarrow> hm_invar (sd_updates (add_balance_change addr delta n d))"
  by (auto simp: add_balance_change_def hm.invar_put split: option.splits)

end
