(* ===== verification/View_Context.thy ===== *)
theory View_Context
  imports Validation_Types
begin

text \<open>
  The state of one view (\<open>consensus_manager/view_context.rs\<close>) with the aggregation helpers of
  \<open>consensus_manager/utils.rs\<close>. Every operation takes the context and returns its \<open>Result\<close> together
  with the context as it is afterwards, because some operations change it before they fail.
  \<open>cfg\<close> carries the const generics, \<open>now\<close> the reading of the clock.
\<close>

subsection \<open>Aggregation of votes and nullify messages\<close>

definition create_notarization_data ::
    "env \<Rightarrow> nat \<Rightarrow> vote list \<Rightarrow> (peer_id list \<times> bls_signature) result" where
  "create_notarization_data E n votes =
     (if length votes < n then Inl NotEnoughVotes
      else Inr (map v_peer_id (take n votes), aggregate_signatures E (map v_signature (take n votes))))"

definition create_nullification_data ::
    "env \<Rightarrow> nat \<Rightarrow> nullify list \<Rightarrow> (peer_id list \<times> bls_signature) result" where
  "create_nullification_data E n ns =
     (if length ns < n then Inl NotEnoughNullifies
      else Inr (map nf_peer_id (take n ns), aggregate_signatures E (map nf_signature (take n ns))))"

subsection \<open>State and results\<close>

record view_context =
  vc_view_number :: view_no
  vc_entered_at :: instant
  vc_has_voted :: bool
  vc_block_hash :: "hash option"
  vc_parent_block_hash :: hash
  vc_has_nullified :: bool
  vc_has_proposed :: bool
  vc_leader_id :: peer_id
  vc_replica_id :: peer_id
  vc_block :: "block option"
  vc_state_diff :: "state_diff option"
  vc_num_invalid_votes :: nat
  vc_votes :: "vote list"
  vc_non_verified_votes :: "vote list"
  vc_m_notarization :: "m_notarization option"
  vc_nullify_messages :: "nullify list"
  vc_nullification :: "nullification option"
  vc_pending_block :: "block option"

record leader_proposal_result =
  lp_block_hash :: hash
  lp_should_vote :: bool
  lp_is_enough_to_m_notarize :: bool
  lp_is_enough_to_finalize :: bool
  lp_should_await :: bool
  lp_should_nullify :: bool

record collected_votes_result =
  cv_should_await :: bool
  cv_is_enough_to_m_notarize :: bool
  cv_is_enough_to_finalize :: bool
  cv_should_nullify :: bool
  cv_should_vote :: bool

record should_m_notarize =
  sm_should_notarize :: bool
  sm_should_await :: bool
  sm_should_vote :: bool
  sm_should_nullify :: bool
  sm_should_forward :: bool

record collected_nullifications_result =
  cn_should_broadcast_nullification :: bool

definition view_context_new ::
    "instant \<Rightarrow> view_no \<Rightarrow> peer_id \<Rightarrow> peer_id \<Rightarrow> hash \<Rightarrow> view_context" where
  "view_context_new now view_number leader_id replica_id parent_block_hash =
     \<lparr>vc_view_number = view_number, vc_entered_at = now, vc_has_voted = False,
      vc_block_hash = None, vc_parent_block_hash = parent_block_hash, vc_has_nullified = False,
      vc_has_proposed = False, vc_leader_id = leader_id, vc_replica_id = replica_id,
      vc_block = None, vc_state_diff = None, vc_num_invalid_votes = 0, vc_votes = [],
      vc_non_verified_votes = [], vc_m_notarization = None, vc_nullify_messages = [],
      vc_nullification = None, vc_pending_block = None\<rparr>"

subsection \<open>Operations\<close>

definition should_nullify_after_receiving_new_vote :: "cfg \<Rightarrow> view_context \<Rightarrow> bool" where
  "should_nullify_after_receiving_new_vote c s =
     (if vc_has_nullified s then False
      else if vc_num_invalid_votes s > cF c then True
      else length (vc_nullify_messages s) + vc_num_invalid_votes s > 2 * cF c)"

text \<open>The loop that three operations share: once the block hash is known, the non-verified votes
  for it join the votes and the others are counted as invalid.\<close>

definition promote_votes :: "hash \<Rightarrow> view_context \<Rightarrow> view_context" where
  "promote_votes h s =
     (if vc_non_verified_votes s = [] then s
      else let matching = filter (\<lambda>v. v_block_hash v = h) (vc_non_verified_votes s)
           in s\<lparr>vc_votes := fold (hs_insert vote_key) matching (vc_votes s),
                vc_num_invalid_votes := vc_num_invalid_votes s
                  + (length (vc_non_verified_votes s) - length matching),
                vc_non_verified_votes := []\<rparr>)"

text \<open>\<open>block.is_finalized = true\<close>, where there is a block.\<close>

definition finalize_flag :: "view_context \<Rightarrow> view_context" where
  "finalize_flag s = s\<lparr>vc_block := map_option (b_is_finalized_update (\<lambda>_. True)) (vc_block s)\<rparr>"

definition adopt_block :: "env \<Rightarrow> block \<Rightarrow> state_diff \<Rightarrow> view_context \<Rightarrow> view_context" where
  "adopt_block E b diff s =
     (let h = get_hash E b
      in s\<lparr>vc_block_hash := Some h, vc_block := Some b, vc_state_diff := Some diff,
           vc_votes := hs_insert vote_key
             \<lparr>v_view = vc_view_number s, v_block_hash = h, v_signature = b_leader_signature b,
              v_peer_id = vc_leader_id s, v_leader_id = vc_leader_id s\<rparr> (vc_votes s)\<rparr>)"

definition add_new_view_block ::
    "env \<Rightarrow> cfg \<Rightarrow> block \<Rightarrow> state_diff \<Rightarrow> peer_set \<Rightarrow> view_context
      \<Rightarrow> leader_proposal_result result \<times> view_context" where
  "add_new_view_block E c b diff P s =
     (if b_view b \<noteq> vc_view_number s then (Inl BlockNotForView, s)
      else if vc_block s \<noteq> None then (Inl BlockExists, s)
      else if b_leader b \<noteq> vc_leader_id s then (Inl WrongBlockLeader, s)
      else if b_parent b \<noteq> vc_parent_block_hash s then (Inl WrongParent, s)
      else case get_public_key P (vc_leader_id s) of
        Inl e \<Rightarrow> (Inl e, s)
      | Inr pk \<Rightarrow>
        let h = get_hash E b in
        if \<not> bls_verify E pk h (b_leader_signature b) then (Inl BadBlockSignature, s)
        else if (case vc_m_notarization s of Some m \<Rightarrow> mn_block_hash m \<noteq> h | None \<Rightarrow> False)
        then (Inr \<lparr>lp_block_hash = h, lp_should_vote = False, lp_is_enough_to_m_notarize = False,
                   lp_is_enough_to_finalize = False, lp_should_await = False,
                   lp_should_nullify = True\<rparr>, s)
        else
          let s2 = promote_votes h (adopt_block E b diff s)
          in if should_nullify_after_receiving_new_vote c s2
             then (Inr \<lparr>lp_block_hash = h, lp_should_vote = False, lp_is_enough_to_m_notarize = False,
                        lp_is_enough_to_finalize = False, lp_should_await = False,
                        lp_should_nullify = True\<rparr>, s2)
             else
               let m = (length (vc_votes s2) > 2 * cF c \<or> vc_m_notarization s2 \<noteq> None);
                   fin = (length (vc_votes s2) \<ge> cN c - cF c);
                   s3 = (if fin then finalize_flag s2 else s2)
               in (Inr \<lparr>lp_block_hash = h,
                        lp_should_vote = (\<not> vc_has_voted s3 \<and> \<not> vc_has_nullified s3),
                        lp_is_enough_to_m_notarize = m, lp_is_enough_to_finalize = fin,
                        lp_should_await = False, lp_should_nullify = False\<rparr>, s3))"

definition set_state_diff :: "state_diff \<Rightarrow> view_context \<Rightarrow> view_context" where
  "set_state_diff d s = s\<lparr>vc_state_diff := Some d\<rparr>"

definition take_state_diff :: "view_context \<Rightarrow> state_diff option \<times> view_context" where
  "take_state_diff s = (vc_state_diff s, s\<lparr>vc_state_diff := None\<rparr>)"

definition add_vote ::
    "env \<Rightarrow> cfg \<Rightarrow> vote \<Rightarrow> peer_set \<Rightarrow> view_context \<Rightarrow> collected_votes_result result \<times> view_context" where
  "add_vote E c v P s =
     (if \<not> peer_contains P (v_peer_id v) then (Inl VoterNotAPeer, s)
      else if v_view v \<noteq> vc_view_number s then (Inl VoteNotForView, s)
      else if v_peer_id v \<in> v_peer_id ` set (vc_votes s) then (Inl VoteExists, s)
      else if v_peer_id v \<in> v_peer_id ` set (vc_non_verified_votes s) then (Inl VoteExistsNonVerified, s)
      else case get_public_key P (v_peer_id v) of
        Inl e \<Rightarrow> (Inl e, s)
      | Inr pk \<Rightarrow>
        if \<not> vote_verify E v pk then (Inl BadVoteSignature, s)
        else case vc_block_hash s of
          None \<Rightarrow>
            let sv = (\<not> vc_has_voted s \<and> \<not> vc_has_nullified s \<and>
                      length (filter (\<lambda>w. v_block_hash w = v_block_hash v) (vc_non_verified_votes s)) + 1
                        > 2 * cF c);
                s1 = s\<lparr>vc_non_verified_votes := hs_insert vote_key v (vc_non_verified_votes s)\<rparr>
            in (Inr \<lparr>cv_should_await = True, cv_is_enough_to_m_notarize = False,
                     cv_is_enough_to_finalize = False,
                     cv_should_nullify = should_nullify_after_receiving_new_vote c s1,
                     cv_should_vote = sv\<rparr>, s1)
        | Some h \<Rightarrow>
            if v_block_hash v \<noteq> h
            then let s1 = s\<lparr>vc_num_invalid_votes := vc_num_invalid_votes s + 1\<rparr>
                 in (Inr \<lparr>cv_should_await = False, cv_is_enough_to_m_notarize = False,
                          cv_is_enough_to_finalize = False,
                          cv_should_nullify = should_nullify_after_receiving_new_vote c s1,
                          cv_should_vote = False\<rparr>, s1)
            else
              let s1 = s\<lparr>vc_votes := hs_insert vote_key v (vc_votes s)\<rparr>;
                  sn = should_nullify_after_receiving_new_vote c s1;
                  m = (length (vc_votes s1) > 2 * cF c \<and> vc_m_notarization s1 = None);
                  fin = (length (vc_votes s1) \<ge> cN c - cF c);
                  r = \<lparr>cv_should_await = False, cv_is_enough_to_m_notarize = m,
                       cv_is_enough_to_finalize = fin, cv_should_nullify = sn, cv_should_vote = False\<rparr>
              in if m then (case create_notarization_data E (cM c) (vc_votes s1) of
                     Inl e \<Rightarrow> (Inl e, s1)
                   | Inr (ids, agg) \<Rightarrow> (Inr r, s1\<lparr>vc_m_notarization := Some
                       \<lparr>mn_view = vc_view_number s, mn_block_hash = h, mn_aggregated_signature = agg,
                        mn_peer_ids = ids, mn_leader_id = vc_leader_id s\<rparr>\<rparr>))
                 else (Inr r, s1))"

definition add_own_vote :: "hash \<Rightarrow> bls_signature \<Rightarrow> view_context \<Rightarrow> unit result \<times> view_context" where
  "add_own_vote h sig s =
     (if vc_has_voted s then (Inl AlreadyVoted, s)
      else if (case vc_block_hash s of Some h' \<Rightarrow> h' \<noteq> h | None \<Rightarrow> False) then (Inl OwnVoteConflict, s)
      else (Inr (), promote_votes h
              (s\<lparr>vc_block_hash := Some h, vc_has_voted := True,
                 vc_votes := hs_insert vote_key
                   \<lparr>v_view = vc_view_number s, v_block_hash = h, v_signature = sig,
                    v_peer_id = vc_replica_id s, v_leader_id = vc_leader_id s\<rparr> (vc_votes s)\<rparr>)))"

definition add_leader_vote_for_block_proposal ::
    "env \<Rightarrow> block \<Rightarrow> bls_signature \<Rightarrow> view_context \<Rightarrow> unit result \<times> view_context" where
  "add_leader_vote_for_block_proposal E b sig s =
     (if b_view b \<noteq> vc_view_number s then (Inl BlockNotForView, s)
      else if b_leader b \<noteq> vc_leader_id s then (Inl WrongBlockLeader, s)
      else if b_parent b \<noteq> vc_parent_block_hash s then (Inl WrongParent, s)
      else (Inr (), s\<lparr>vc_votes := hs_insert vote_key
              \<lparr>v_view = vc_view_number s, v_block_hash = get_hash E b, v_signature = sig,
               v_peer_id = vc_leader_id s, v_leader_id = vc_leader_id s\<rparr> (vc_votes s)\<rparr>))"

definition add_nullify ::
    "env \<Rightarrow> cfg \<Rightarrow> nullify \<Rightarrow> peer_set \<Rightarrow> view_context \<Rightarrow> unit result \<times> view_context" where
  "add_nullify E c n P s =
     (if \<not> peer_contains P (nf_peer_id n) then (Inl NullifierNotAPeer, s)
      else if nf_view n \<noteq> vc_view_number s then (Inl NullifyNotForView, s)
      else if nf_leader_id n \<noteq> vc_leader_id s then (Inl NullifyWrongLeader, s)
      else if nf_peer_id n \<in> nf_peer_id ` set (vc_nullify_messages s) then (Inl NullifyExists, s)
      else case get_public_key P (nf_peer_id n) of
        Inl e \<Rightarrow> (Inl e, s)
      | Inr pk \<Rightarrow>
        if \<not> nullify_verify E n pk then (Inl BadNullifySignature, s)
        else
          let s1 = s\<lparr>vc_nullify_messages := hs_insert nullify_key n (vc_nullify_messages s)\<rparr>
          in if length (vc_nullify_messages s1) > 2 * cF c
             then (case create_nullification_data E (cM c) (vc_nullify_messages s1) of
                 Inl e \<Rightarrow> (Inl e, s1)
               | Inr (ids, agg) \<Rightarrow> (Inr (), (finalize_flag s1)
                   \<lparr>vc_nullification := Some
                      \<lparr>nfn_view = vc_view_number s, nfn_leader_id = vc_leader_id s,
                       nfn_aggregated_signature = agg, nfn_peer_ids = ids\<rparr>,
                    vc_has_nullified := True\<rparr>))
             else (Inr (), s1))"

definition add_m_notarization ::
    "env \<Rightarrow> cfg \<Rightarrow> m_notarization \<Rightarrow> peer_set \<Rightarrow> view_context
      \<Rightarrow> should_m_notarize result \<times> view_context" where
  "add_m_notarization E c m P s =
     (if mn_view m \<noteq> vc_view_number s then (Inl MNotNotForView, s)
      else if mn_leader_id m \<noteq> vc_leader_id s then (Inl MNotWrongLeader, s)
      else case mnot_verify E P m of
        None \<Rightarrow> (Inl (Panic PeerIdNotInPeerSet), s)
      | Some False \<Rightarrow> (Inl BadMNotSignature, s)
      | Some True \<Rightarrow>
        let sv = (\<not> vc_has_voted s \<and> \<not> vc_has_nullified s);
            conflict = \<lparr>sm_should_notarize = False, sm_should_await = False, sm_should_vote = False,
                        sm_should_nullify = True, sm_should_forward = False\<rparr>
        in case vc_block_hash s of
          None \<Rightarrow>
            let s1 = promote_votes (mn_block_hash m) (s\<lparr>vc_block_hash := Some (mn_block_hash m)\<rparr>)
            in if should_nullify_after_receiving_new_vote c s1 then (Inr conflict, s1)
               else let fwd = (vc_m_notarization s1 = None);
                        s2 = (if fwd then s1\<lparr>vc_m_notarization := Some m\<rparr> else s1)
                    in (Inr \<lparr>sm_should_notarize = False, sm_should_await = False, sm_should_vote = sv,
                             sm_should_nullify = False, sm_should_forward = fwd\<rparr>, s2)
        | Some h \<Rightarrow>
            if mn_block_hash m \<noteq> h then (Inr conflict, s)
            else case vc_m_notarization s of
              Some m' \<Rightarrow>
                if mn_block_hash m' = mn_block_hash m
                then (Inr \<lparr>sm_should_notarize = False, sm_should_await = False, sm_should_vote = sv,
                           sm_should_nullify = False, sm_should_forward = False\<rparr>, s)
                else (Inr conflict, s)
            | None \<Rightarrow>
                (Inr \<lparr>sm_should_notarize = (vc_nullification s = None), sm_should_await = False,
                      sm_should_vote = sv, sm_should_nullify = False, sm_should_forward = True\<rparr>,
                 s\<lparr>vc_m_notarization := Some m\<rparr>))"

definition add_nullification ::
    "env \<Rightarrow> nullification \<Rightarrow> peer_set \<Rightarrow> view_context
      \<Rightarrow> collected_nullifications_result result \<times> view_context" where
  "add_nullification E n P s =
     (if nfn_view n \<noteq> vc_view_number s then (Inl NullificationNotForView, s)
      else if nfn_leader_id n \<noteq> vc_leader_id s then (Inl NullificationWrongLeader, s)
      else case nullification_verify E P n of
        None \<Rightarrow> (Inl (Panic PeerIdNotInPeerSet), s)
      | Some False \<Rightarrow> (Inl BadNullificationSignature, s)
      | Some True \<Rightarrow>
        let s1 = finalize_flag s
        in if vc_nullification s1 \<noteq> None
           then (Inr \<lparr>cn_should_broadcast_nullification = False\<rparr>, s1)
           else (Inr \<lparr>cn_should_broadcast_nullification = True\<rparr>,
                 s1\<lparr>vc_nullification := Some n, vc_has_nullified := True\<rparr>))"

definition is_leader :: "view_context \<Rightarrow> bool" where
  "is_leader s = (vc_leader_id s = vc_replica_id s)"

definition should_timeout_nullify :: "instant \<Rightarrow> nat \<Rightarrow> view_context \<Rightarrow> bool" where
  "should_timeout_nullify now timeout_duration s =
     (\<not> vc_has_nullified s \<and> \<not> vc_has_voted s \<and> now - vc_entered_at s \<ge> timeout_duration)"

definition create_nullify_message ::
    "env \<Rightarrow> bls_secret_key \<Rightarrow> view_context \<Rightarrow> nullify result \<times> view_context" where
  "create_nullify_message E sk s =
     (Inr \<lparr>nf_view = vc_view_number s, nf_leader_id = vc_leader_id s,
           nf_signature = bls_sign E sk (nullify_message E (vc_view_number s) (vc_leader_id s)),
           nf_peer_id = vc_replica_id s\<rparr>,
      s\<lparr>vc_has_nullified := True\<rparr>)"

definition create_nullify_for_timeout ::
    "env \<Rightarrow> bls_secret_key \<Rightarrow> view_context \<Rightarrow> nullify result \<times> view_context" where
  "create_nullify_for_timeout E sk s =
     (if vc_has_nullified s then (Inl AlreadyNullified, s)
      else if vc_has_voted s then (Inl TimeoutAfterVote, s)
      else create_nullify_message E sk s)"

definition create_nullify_for_byzantine ::
    "env \<Rightarrow> bls_secret_key \<Rightarrow> view_context \<Rightarrow> nullify result \<times> view_context" where
  "create_nullify_for_byzantine E sk s =
     (if vc_has_nullified s then (Inl AlreadyNullified, s) else create_nullify_message E sk s)"

definition create_nullify_for_cascade ::
    "env \<Rightarrow> bls_secret_key \<Rightarrow> view_context \<Rightarrow> nullify result \<times> view_context" where
  "create_nullify_for_cascade E sk s =
     (if vc_has_nullified s then (Inl AlreadyNullified, s) else create_nullify_message E sk s)"

definition has_view_progressed_without_m_notarization :: "view_context \<Rightarrow> unit result" where
  "has_view_progressed_without_m_notarization s =
     (if vc_m_notarization s = None \<and> vc_nullification s = None then Inl ProgressedWithoutProof
      else Inr ())"

subsection \<open>The branches of \<open>add_vote\<close>\<close>

text \<open>A vote that passes all checks of \<open>add_vote\<close>.\<close>

definition vote_admissible :: "env \<Rightarrow> peer_set \<Rightarrow> vote \<Rightarrow> view_context \<Rightarrow> bool" where
  "vote_admissible E P v s \<longleftrightarrow> v_view v = vc_view_number s
     \<and> (\<exists>pk. get_public_key P (v_peer_id v) = Inr pk \<and> vote_verify E v pk)
     \<and> v_peer_id v \<notin> v_peer_id ` set (vc_votes s)
     \<and> v_peer_id v \<notin> v_peer_id ` set (vc_non_verified_votes s)"

lemma add_vote_inadmissible:
  "\<not> vote_admissible E P v s \<Longrightarrow> \<exists>e. add_vote E c v P s = (Inl e, s)"
  by (cases "get_public_key P (v_peer_id v)")
    (auto simp: vote_admissible_def add_vote_def peer_contains_iff)

lemma hs_insert_admissible:
  "vote_admissible E P v s \<Longrightarrow> hs_insert vote_key v (vc_votes s) = vc_votes s @ [v]"
  "vote_admissible E P v s \<Longrightarrow>
     hs_insert vote_key v (vc_non_verified_votes s) = vc_non_verified_votes s @ [v]"
  by (auto simp: vote_admissible_def hs_insert_def vote_key_def)

definition own_m_notarization :: "env \<Rightarrow> cfg \<Rightarrow> hash \<Rightarrow> view_context \<Rightarrow> m_notarization" where
  "own_m_notarization E c h s =
     \<lparr>mn_view = vc_view_number s, mn_block_hash = h,
      mn_aggregated_signature = aggregate_signatures E (map v_signature (take (cM c) (vc_votes s))),
      mn_peer_ids = map v_peer_id (take (cM c) (vc_votes s)), mn_leader_id = vc_leader_id s\<rparr>"

text \<open>The behaviour of \<open>add_vote\<close> on an admissible vote.\<close>

definition add_vote_admissible ::
    "env \<Rightarrow> cfg \<Rightarrow> vote \<Rightarrow> view_context \<Rightarrow> collected_votes_result result \<times> view_context" where
  "add_vote_admissible E c v s =
     (let res = (\<lambda>await m fin t sv. Inr \<lparr>cv_should_await = await, cv_is_enough_to_m_notarize = m,
             cv_is_enough_to_finalize = fin,
             cv_should_nullify = should_nullify_after_receiving_new_vote c t, cv_should_vote = sv\<rparr>);
          t = s\<lparr>vc_votes := vc_votes s @ [v]\<rparr>;
          fin = (cN c - cF c \<le> length (vc_votes t))
      in case vc_block_hash s of
        None \<Rightarrow>
          let p = s\<lparr>vc_non_verified_votes := vc_non_verified_votes s @ [v]\<rparr>
          in (res True False False p (\<not> vc_has_voted s \<and> \<not> vc_has_nullified s \<and>
                length (filter (\<lambda>w. v_block_hash w = v_block_hash v) (vc_non_verified_votes s)) + 1
                  > 2 * cF c), p)
      | Some h \<Rightarrow>
          if v_block_hash v \<noteq> h
          then let i = s\<lparr>vc_num_invalid_votes := vc_num_invalid_votes s + 1\<rparr>
               in (res False False False i False, i)
          else if length (vc_votes t) \<le> 2 * cF c \<or> vc_m_notarization s \<noteq> None
          then (res False False fin t False, t)
          else if length (vc_votes t) < cM c then (Inl NotEnoughVotes, t)
          else (res False True fin t False, t\<lparr>vc_m_notarization := Some (own_m_notarization E c h t)\<rparr>))"

lemma add_vote_eq:
  assumes "vote_admissible E P v s"
  shows "add_vote E c v P s = add_vote_admissible E c v s"
proof -
  obtain pk where pk: "get_public_key P (v_peer_id v) = Inr pk" "vote_verify E v pk"
    using assms by (auto simp: vote_admissible_def)
  have "peer_contains P (v_peer_id v)" using pk by (auto simp: peer_contains_iff)
  then show ?thesis
    using assms pk hs_insert_admissible [OF assms]
    by (auto simp: add_vote_def add_vote_admissible_def vote_admissible_def Let_def
        create_notarization_data_def own_m_notarization_def split: option.splits)
qed

subsection \<open>The invariant of a view\<close>

definition vote_ok :: "env \<Rightarrow> peer_set \<Rightarrow> view_no \<Rightarrow> vote \<Rightarrow> bool" where
  "vote_ok E P view v \<longleftrightarrow> v_view v = view
     \<and> (\<exists>pk. get_public_key P (v_peer_id v) = Inr pk \<and> vote_verify E v pk)"

definition nullify_ok :: "env \<Rightarrow> peer_set \<Rightarrow> view_no \<Rightarrow> peer_id \<Rightarrow> nullify \<Rightarrow> bool" where
  "nullify_ok E P view leader n \<longleftrightarrow> nf_view n = view \<and> nf_leader_id n = leader
     \<and> (\<exists>pk. get_public_key P (nf_peer_id n) = Inr pk \<and> nullify_verify E n pk)"

text \<open>Votes: distinct as set elements, for this view and signed by the peers they name; votes wait
  unverified only while no block hash is known.\<close>

definition votes_inv :: "env \<Rightarrow> peer_set \<Rightarrow> view_context \<Rightarrow> bool" where
  "votes_inv E P s \<longleftrightarrow> hs_invar vote_key (vc_votes s)
     \<and> (\<forall>v \<in> set (vc_votes s) \<union> set (vc_non_verified_votes s). vote_ok E P (vc_view_number s) v)
     \<and> distinct (map v_peer_id (vc_non_verified_votes s))
     \<and> (vc_block_hash s \<noteq> None \<longrightarrow> vc_non_verified_votes s = [])"

text \<open>Block, block hash and M-notarization agree.\<close>

definition hash_inv :: "env \<Rightarrow> view_context \<Rightarrow> bool" where
  "hash_inv E s \<longleftrightarrow>
     pred_option (\<lambda>m. vc_block_hash s = Some (mn_block_hash m)
        \<and> mn_view m = vc_view_number s \<and> mn_leader_id m = vc_leader_id s) (vc_m_notarization s) \<and>
     pred_option (\<lambda>b. vc_block_hash s = Some (get_hash E b)) (vc_block s)"

text \<open>Nullify messages come from distinct peers and are signed by them; a stored nullification
  verifies and the replica then counts as having nullified.\<close>

definition nullify_inv :: "env \<Rightarrow> peer_set \<Rightarrow> view_context \<Rightarrow> bool" where
  "nullify_inv E P s \<longleftrightarrow> distinct (map nf_peer_id (vc_nullify_messages s))
     \<and> (\<forall>n \<in> set (vc_nullify_messages s). nullify_ok E P (vc_view_number s) (vc_leader_id s) n)
     \<and> pred_option (\<lambda>n. vc_has_nullified s \<and> nullification_verify E P n = Some True
          \<and> nfn_view n = vc_view_number s \<and> nfn_leader_id n = vc_leader_id s) (vc_nullification s)"

definition vc_inv :: "env \<Rightarrow> peer_set \<Rightarrow> view_context \<Rightarrow> bool" where
  "vc_inv E P s \<longleftrightarrow> votes_inv E P s \<and> hash_inv E s \<and> nullify_inv E P s"

lemmas vc_inv_defs = vc_inv_def votes_inv_def hash_inv_def nullify_inv_def

lemma vc_inv_new: "vc_inv E P (view_context_new now view l r parent)"
  by (simp add: vc_inv_defs view_context_new_def)

lemma get_hash_finalized [simp]: "get_hash E (b\<lparr>b_is_finalized := f\<rparr>) = get_hash E b"
  by (cases "b_hash b") (simp_all add: get_hash_def block_compute_hash_def)

lemma b_view_finalized [simp]: "b_view (b\<lparr>b_is_finalized := f\<rparr>) = b_view b"
  and b_parent_finalized [simp]: "b_parent (b\<lparr>b_is_finalized := f\<rparr>) = b_parent b"
  by (simp_all add: b_view_def b_parent_def)

lemma vc_inv_finalize_flag [simp]: "vc_inv E P (finalize_flag s) = vc_inv E P s"
  by (cases "vc_block s") (simp_all add: vc_inv_defs finalize_flag_def)

text \<open>Adopting the hash \<open>h\<close> and promoting the votes for it.\<close>

lemma promote_votes_inv:
  assumes "votes_inv E P (s\<lparr>vc_block_hash := None\<rparr>)" and "hash_inv E s" and "nullify_inv E P s"
    and "vc_block_hash s \<noteq> None"
  shows "vc_inv E P (promote_votes h s)"
proof (cases "vc_non_verified_votes s = []")
  case True
  then show ?thesis using assms by (simp add: promote_votes_def vc_inv_defs)
next
  case False
  let ?m = "filter (\<lambda>v. v_block_hash v = h) (vc_non_verified_votes s)"
  have "hs_invar vote_key (fold (hs_insert vote_key) ?m (vc_votes s))"
    using assms(1) by (intro hs_invar_fold_insert) (simp add: votes_inv_def)
  moreover have "set (fold (hs_insert vote_key) ?m (vc_votes s))
      \<subseteq> set (vc_votes s) \<union> set (vc_non_verified_votes s)"
    using set_fold_hs_insert_subset [of vote_key ?m "vc_votes s"] by auto
  ultimately show ?thesis
    using assms False by (auto simp: promote_votes_def Let_def vc_inv_defs)
qed

lemma add_vote_inv:
  assumes "vc_inv E P s"
  shows "vc_inv E P (snd (add_vote E c v P s))"
proof (cases "vote_admissible E P v s")
  case True
  then have ok: "vote_ok E P (vc_view_number s) v" by (simp add: vote_admissible_def vote_ok_def)
  have new: "v_peer_id v \<notin> v_peer_id ` set (vc_non_verified_votes s)"
    using True by (simp add: vote_admissible_def)
  have "hs_invar vote_key (vc_votes s @ [v])"
    using assms True hs_invar_insert [of vote_key "vc_votes s" v] hs_insert_admissible(1) [OF True]
    by (simp add: vc_inv_defs)
  then show ?thesis
    using assms ok new
    by (cases "vc_block_hash s")
      (simp_all add: add_vote_eq [OF True] add_vote_admissible_def Let_def vc_inv_defs
        own_m_notarization_def)
next
  case False
  then show ?thesis using add_vote_inadmissible [OF False, of c] assms by auto
qed

lemma hash_inv_adopt:
  "hash_inv E s \<Longrightarrow> \<forall>h'. vc_block_hash s = Some h' \<longrightarrow> h' = h \<Longrightarrow> hash_inv E (s\<lparr>vc_block_hash := Some h\<rparr>)"
  by (cases "vc_m_notarization s"; cases "vc_block s") (auto simp: hash_inv_def)

lemma add_own_vote_inv:
  assumes "vc_inv E P s" and "get_public_key P (vc_replica_id s) = Inr pk" and "bls_verify E pk h sig"
  shows "vc_inv E P (snd (add_own_vote h sig s))"
proof (cases "vc_has_voted s \<or> (\<exists>h'. vc_block_hash s = Some h' \<and> h' \<noteq> h)")
  case True
  then show ?thesis using assms(1) by (auto simp: add_own_vote_def split: option.splits)
next
  case False
  let ?v = "\<lparr>v_view = vc_view_number s, v_block_hash = h, v_signature = sig,
    v_peer_id = vc_replica_id s, v_leader_id = vc_leader_id s\<rparr>"
  let ?t = "s\<lparr>vc_block_hash := Some h, vc_has_voted := True, vc_votes := hs_insert vote_key ?v (vc_votes s)\<rparr>"
  have "vote_ok E P (vc_view_number s) ?v" using assms(2,3) by (simp add: vote_ok_def vote_verify_def)
  then have "votes_inv E P (?t\<lparr>vc_block_hash := None\<rparr>)"
    using assms(1) hs_invar_insert [of vote_key "vc_votes s" ?v] set_hs_insert_subset [of vote_key ?v "vc_votes s"]
    by (auto simp: vc_inv_def votes_inv_def)
  moreover have "hash_inv E ?t"
    using hash_inv_adopt [of E s h] assms(1) False by (simp add: vc_inv_def hash_inv_def)
  moreover have "nullify_inv E P ?t" using assms(1) by (simp add: vc_inv_def nullify_inv_def)
  ultimately have "vc_inv E P (promote_votes h ?t)" by (intro promote_votes_inv) simp_all
  then show ?thesis using False by (auto simp: add_own_vote_def split: option.splits)
qed

text \<open>A proposal that passes all checks of \<open>add_new_view_block\<close> and does not contradict an
  M-notarization.\<close>

definition block_admissible :: "env \<Rightarrow> peer_set \<Rightarrow> block \<Rightarrow> view_context \<Rightarrow> bool" where
  "block_admissible E P b s \<longleftrightarrow> b_view b = vc_view_number s \<and> vc_block s = None
     \<and> b_leader b = vc_leader_id s \<and> b_parent b = vc_parent_block_hash s
     \<and> (\<exists>pk. get_public_key P (vc_leader_id s) = Inr pk
          \<and> bls_verify E pk (get_hash E b) (b_leader_signature b))
     \<and> (case vc_m_notarization s of Some m \<Rightarrow> mn_block_hash m = get_hash E b | None \<Rightarrow> True)"

lemma add_new_view_block_inadmissible:
  assumes "\<not> block_admissible E P b s"
  shows "snd (add_new_view_block E c b d P s) = s \<and>
    (\<forall>r. fst (add_new_view_block E c b d P s) = Inr r \<longrightarrow>
       lp_should_nullify r \<and> \<not> lp_should_vote r \<and> \<not> lp_is_enough_to_finalize r \<and> \<not> lp_is_enough_to_m_notarize r)"
  using assms
  by (cases "get_public_key P (vc_leader_id s)"; cases "vc_m_notarization s")
    (auto simp: block_admissible_def add_new_view_block_def Let_def)

lemma add_new_view_block_admissible:
  fixes d :: state_diff
  assumes "block_admissible E P b s"
  defines "t \<equiv> promote_votes (get_hash E b) (adopt_block E b d s)"
  shows "add_new_view_block E c b d P s =
    (let n = should_nullify_after_receiving_new_vote c t;
         fin = (\<not> n \<and> cN c - cF c \<le> length (vc_votes t))
     in (Inr \<lparr>lp_block_hash = get_hash E b,
              lp_should_vote = (\<not> n \<and> \<not> vc_has_voted t \<and> \<not> vc_has_nullified t),
              lp_is_enough_to_m_notarize = (\<not> n \<and> (2 * cF c < length (vc_votes t) \<or> vc_m_notarization t \<noteq> None)),
              lp_is_enough_to_finalize = fin, lp_should_await = False, lp_should_nullify = n\<rparr>,
         if fin then finalize_flag t else t))"
proof -
  obtain pk where pk: "get_public_key P (vc_leader_id s) = Inr pk"
      "bls_verify E pk (get_hash E b) (b_leader_signature b)"
    using assms(1) by (auto simp: block_admissible_def)
  have g: "b_view b = vc_view_number s" "vc_block s = None" "b_leader b = vc_leader_id s"
      "b_parent b = vc_parent_block_hash s"
      "\<not> (case vc_m_notarization s of Some m \<Rightarrow> mn_block_hash m \<noteq> get_hash E b | None \<Rightarrow> False)"
    using assms(1) by (auto simp: block_admissible_def split: option.splits)
  show ?thesis
    unfolding add_new_view_block_def t_def [symmetric] Let_def
    using pk g by (simp add: finalize_flag_def)
qed

lemma add_new_view_block_inv:
  assumes "vc_inv E P s"
  shows "vc_inv E P (snd (add_new_view_block E c b d P s))"
proof (cases "block_admissible E P b s")
  case True
  let ?v = "\<lparr>v_view = vc_view_number s, v_block_hash = get_hash E b, v_signature = b_leader_signature b,
              v_peer_id = vc_leader_id s, v_leader_id = vc_leader_id s\<rparr>"
  have ok: "vote_ok E P (vc_view_number s) ?v"
    using True by (auto simp: block_admissible_def vote_ok_def vote_verify_def)
  have "votes_inv E P ((adopt_block E b d s)\<lparr>vc_block_hash := None\<rparr>)"
    using assms ok hs_invar_insert [of vote_key "vc_votes s" ?v] set_hs_insert_subset [of vote_key ?v "vc_votes s"]
    by (auto simp: vc_inv_defs adopt_block_def Let_def)
  moreover have "hash_inv E (adopt_block E b d s)"
    using assms True by (cases "vc_m_notarization s")
      (simp_all add: vc_inv_defs adopt_block_def Let_def block_admissible_def)
  moreover have "nullify_inv E P (adopt_block E b d s)"
    using assms by (simp add: vc_inv_defs adopt_block_def Let_def)
  ultimately have "vc_inv E P (promote_votes (get_hash E b) (adopt_block E b d s))"
    by (intro promote_votes_inv) (simp_all add: adopt_block_def Let_def)
  then show ?thesis by (simp add: add_new_view_block_admissible [OF True] Let_def)
next
  case False
  then show ?thesis using assms add_new_view_block_inadmissible [OF False] by simp
qed

lemma vc_inv_frame [simp]:
  "vc_inv E P (s\<lparr>vc_state_diff := x1\<rparr>) = vc_inv E P s"
  "vc_inv E P (s\<lparr>vc_has_proposed := x2\<rparr>) = vc_inv E P s"
  "vc_inv E P (s\<lparr>vc_pending_block := x3\<rparr>) = vc_inv E P s"
  "vc_inv E P (s\<lparr>vc_num_invalid_votes := x4\<rparr>) = vc_inv E P s"
  by (simp_all add: vc_inv_defs)

lemma vc_inv_set_nullified: "vc_inv E P s \<Longrightarrow> vc_inv E P (s\<lparr>vc_has_nullified := True\<rparr>)"
  by (cases "vc_nullification s") (simp_all add: vc_inv_defs)

lemma vc_inv_set_m_notarization:
  "vc_inv E P s \<Longrightarrow> vc_block_hash s = Some (mn_block_hash m) \<Longrightarrow> mn_view m = vc_view_number s \<Longrightarrow>
   mn_leader_id m = vc_leader_id s \<Longrightarrow> vc_inv E P (s\<lparr>vc_m_notarization := Some m\<rparr>)"
  by (simp add: vc_inv_defs)

lemma promote_votes_frame [simp]:
  "vc_block_hash (promote_votes h s) = vc_block_hash s"
  "vc_view_number (promote_votes h s) = vc_view_number s"
  "vc_leader_id (promote_votes h s) = vc_leader_id s"
  "vc_replica_id (promote_votes h s) = vc_replica_id s"
  "vc_m_notarization (promote_votes h s) = vc_m_notarization s"
  "vc_block (promote_votes h s) = vc_block s"
  "vc_has_voted (promote_votes h s) = vc_has_voted s"
  "vc_has_nullified (promote_votes h s) = vc_has_nullified s"
  "vc_nullification (promote_votes h s) = vc_nullification s"
  "vc_nullify_messages (promote_votes h s) = vc_nullify_messages s"
  by (simp_all add: promote_votes_def Let_def)

lemma add_m_notarization_inv:
  assumes "vc_inv E P s"
  shows "vc_inv E P (snd (add_m_notarization E c m P s))"
proof (cases "mn_view m = vc_view_number s \<and> mn_leader_id m = vc_leader_id s \<and> mnot_verify E P m = Some True")
  case True
  let ?t = "promote_votes (mn_block_hash m) (s\<lparr>vc_block_hash := Some (mn_block_hash m)\<rparr>)"
  have "vc_inv E P ?t" if "vc_block_hash s = None"
  proof -
    from that assms have "vc_m_notarization s = None" "vc_block s = None"
      by (auto simp: vc_inv_defs pred_option_def)
    with assms that show ?thesis by (intro promote_votes_inv) (simp_all add: vc_inv_defs)
  qed
  moreover from this True have "vc_inv E P (?t\<lparr>vc_m_notarization := Some m\<rparr>)" if "vc_block_hash s = None"
    using that by (intro vc_inv_set_m_notarization) simp_all
  moreover from True assms have "vc_inv E P (s\<lparr>vc_m_notarization := Some m\<rparr>)"
    if "vc_block_hash s = Some (mn_block_hash m)"
    using that by (intro vc_inv_set_m_notarization) simp_all
  ultimately show ?thesis
    using assms True
    by (cases "vc_block_hash s"; cases "vc_m_notarization s") (simp_all add: add_m_notarization_def Let_def)
next
  case False
  then show ?thesis
    using assms by (auto simp: add_m_notarization_def split: option.splits bool.splits)
qed

lemma add_nullification_inv:
  "vc_inv E P s \<Longrightarrow> vc_inv E P (snd (add_nullification E n P s))"
proof -
  assume a: "vc_inv E P s"
  let ?t = "finalize_flag s"
  have t: "vc_inv E P ?t" using a by simp
  have f: "vc_view_number ?t = vc_view_number s" "vc_leader_id ?t = vc_leader_id s"
    by (simp_all add: finalize_flag_def)
  have "vc_inv E P (?t\<lparr>vc_nullification := Some n, vc_has_nullified := True\<rparr>)"
    if "nullification_verify E P n = Some True" "nfn_view n = vc_view_number s"
      "nfn_leader_id n = vc_leader_id s"
    using t f that by (simp add: vc_inv_defs)
  then show ?thesis
    using a t by (auto simp: add_nullification_def Let_def split: option.splits bool.splits)
qed

lemma add_nullify_inv:
  assumes "vc_inv E P s" and laws: "ark_laws E r"
  shows "vc_inv E P (snd (add_nullify E c n P s))"
proof (cases "peer_contains P (nf_peer_id n) \<and> nf_view n = vc_view_number s \<and> nf_leader_id n = vc_leader_id s
    \<and> nf_peer_id n \<notin> nf_peer_id ` set (vc_nullify_messages s)
    \<and> (\<exists>pk. get_public_key P (nf_peer_id n) = Inr pk \<and> nullify_verify E n pk)")
  case True
  let ?ns = "vc_nullify_messages s @ [n]"
  let ?t = "s\<lparr>vc_nullify_messages := ?ns\<rparr>"
  let ?m = "\<lparr>nfn_view = vc_view_number s, nfn_leader_id = vc_leader_id s,
      nfn_aggregated_signature = aggregate_signatures E (map nf_signature (take (cM c) ?ns)),
      nfn_peer_ids = map nf_peer_id (take (cM c) ?ns)\<rparr>"
  have ok: "\<forall>n \<in> set ?ns. nullify_ok E P (vc_view_number s) (vc_leader_id s) n"
    using True assms(1) by (auto simp: vc_inv_defs nullify_ok_def)
  have ins: "hs_insert nullify_key n (vc_nullify_messages s) = ?ns"
    using True by (auto simp: hs_insert_def nullify_key_def)
  have "distinct (map nf_peer_id ?ns)" using True assms(1) by (simp add: vc_inv_def nullify_inv_def)
  with assms(1) ok have t: "vc_inv E P ?t" by (simp add: vc_inv_defs)
  have "nullification_verify E P ?m = Some True"
    using ok by (intro nullification_verify_of_nullifies [OF laws, where ns = "take (cM c) ?ns"])
      (auto simp: nullify_ok_def dest: in_set_takeD)
  then have "vc_inv E P ((finalize_flag ?t)\<lparr>vc_nullification := Some ?m, vc_has_nullified := True\<rparr>)"
    using t vc_inv_finalize_flag [of E P ?t] by (simp add: vc_inv_defs finalize_flag_def)
  with True t ins show ?thesis
    by (auto simp: add_nullify_def Let_def create_nullification_data_def)
next
  case False
  then have "\<exists>e. add_nullify E c n P s = (Inl e, s)"
    by (cases "get_public_key P (nf_peer_id n)") (auto simp: add_nullify_def)
  with assms(1) show ?thesis by auto
qed

lemma create_nullify_inv:
  "vc_inv E P s \<Longrightarrow> vc_inv E P (snd (create_nullify_for_timeout E sk s))"
  "vc_inv E P s \<Longrightarrow> vc_inv E P (snd (create_nullify_for_byzantine E sk s))"
  "vc_inv E P s \<Longrightarrow> vc_inv E P (snd (create_nullify_for_cascade E sk s))"
  by (auto simp: create_nullify_for_timeout_def create_nullify_for_byzantine_def
      create_nullify_for_cascade_def create_nullify_message_def vc_inv_set_nullified)

subsection \<open>Runs of a view\<close>

text \<open>Every way the rest of the code changes a context: the operations above with arbitrary
  arguments (the replica's own vote is signed with its key), the flags and fields that
  \<open>view_manager.rs\<close> and \<open>view_chain.rs\<close> write directly, and the block that \<open>add_recovered_block\<close>
  stores.\<close>

inductive vc_step :: "env \<Rightarrow> cfg \<Rightarrow> peer_set \<Rightarrow> view_context \<Rightarrow> view_context \<Rightarrow> bool"
  for E c P where
  propose: "vc_step E c P s (snd (add_new_view_block E c b d P s))"
| vote: "vc_step E c P s (snd (add_vote E c v P s))"
| own_vote: "get_public_key P (vc_replica_id s) = Inr pk \<Longrightarrow> bls_verify E pk h sig \<Longrightarrow>
    vc_step E c P s (snd (add_own_vote h sig s))"
| nullify: "vc_step E c P s (snd (add_nullify E c n P s))"
| m_notarization: "vc_step E c P s (snd (add_m_notarization E c m P s))"
| nullification: "vc_step E c P s (snd (add_nullification E nn P s))"
| timeout: "vc_step E c P s (snd (create_nullify_for_timeout E sk s))"
| byzantine: "vc_step E c P s (snd (create_nullify_for_byzantine E sk s))"
| cascade: "vc_step E c P s (snd (create_nullify_for_cascade E sk s))"
| recover: "vc_block s = None \<Longrightarrow> vc_block_hash s = Some (get_hash E b) \<Longrightarrow>
    vc_step E c P s (s\<lparr>vc_block := Some b\<rparr>)"
| state_diff: "vc_step E c P s (s\<lparr>vc_state_diff := sd\<rparr>)"
| proposed: "vc_step E c P s (s\<lparr>vc_has_proposed := True\<rparr>)"
| nullified: "vc_step E c P s (s\<lparr>vc_has_nullified := True\<rparr>)"
| pending: "vc_step E c P s (s\<lparr>vc_pending_block := pb\<rparr>)"

definition vc_init :: "env \<Rightarrow> view_context \<Rightarrow> bool" where
  "vc_init E s \<longleftrightarrow> (\<exists>r. ark_laws E r) \<and> (\<exists>now view l me parent. s = view_context_new now view l me parent)"

definition vc_machine_inv :: "env \<Rightarrow> peer_set \<Rightarrow> view_context \<Rightarrow> bool" where
  "vc_machine_inv E P s \<longleftrightarrow> (\<exists>r. ark_laws E r) \<and> vc_inv E P s"

lemma vc_inv_recover:
  "vc_inv E P s \<Longrightarrow> vc_block_hash s = Some (get_hash E b) \<Longrightarrow> vc_inv E P (s\<lparr>vc_block := Some b\<rparr>)"
  by (simp add: vc_inv_defs)

lemma vc_step_inv:
  assumes "vc_step E c P s t" and "ark_laws E r" and "vc_inv E P s"
  shows "vc_inv E P t"
  using assms
  by (induction rule: vc_step.induct)
    (auto intro: add_new_view_block_inv add_vote_inv add_own_vote_inv add_nullify_inv add_m_notarization_inv
      add_nullification_inv create_nullify_inv vc_inv_recover vc_inv_set_nullified)

interpretation vcm: invariant_machine "vc_init E" "vc_step E c P" "vc_machine_inv E P" for E c P
  by unfold_locales (auto simp: vc_init_def vc_machine_inv_def vc_inv_new intro: vc_step_inv)

text \<open>Flags are never reset and the identity of the view never changes.\<close>

lemma finalize_flag_frame [simp]:
  "vc_view_number (finalize_flag s) = vc_view_number s"
  "vc_leader_id (finalize_flag s) = vc_leader_id s"
  "vc_replica_id (finalize_flag s) = vc_replica_id s"
  "vc_has_voted (finalize_flag s) = vc_has_voted s"
  "vc_has_nullified (finalize_flag s) = vc_has_nullified s"
  "vc_block_hash (finalize_flag s) = vc_block_hash s"
  "vc_votes (finalize_flag s) = vc_votes s"
  "vc_m_notarization (finalize_flag s) = vc_m_notarization s"
  "vc_nullification (finalize_flag s) = vc_nullification s"
  "vc_nullify_messages (finalize_flag s) = vc_nullify_messages s"
  by (simp_all add: finalize_flag_def)

lemma adopt_block_frame [simp]:
  "vc_view_number (adopt_block E b d s) = vc_view_number s"
  "vc_leader_id (adopt_block E b d s) = vc_leader_id s"
  "vc_replica_id (adopt_block E b d s) = vc_replica_id s"
  "vc_has_voted (adopt_block E b d s) = vc_has_voted s"
  "vc_has_nullified (adopt_block E b d s) = vc_has_nullified s"
  "vc_block_hash (adopt_block E b d s) = Some (get_hash E b)"
  "vc_m_notarization (adopt_block E b d s) = vc_m_notarization s"
  "vc_nullification (adopt_block E b d s) = vc_nullification s"
  by (simp_all add: adopt_block_def Let_def)

definition vc_le :: "view_context \<Rightarrow> view_context \<Rightarrow> bool" where
  "vc_le s t \<longleftrightarrow> vc_view_number t = vc_view_number s \<and> vc_leader_id t = vc_leader_id s
     \<and> vc_replica_id t = vc_replica_id s
     \<and> (vc_has_voted s \<longrightarrow> vc_has_voted t) \<and> (vc_has_nullified s \<longrightarrow> vc_has_nullified t)
     \<and> (vc_nullification s \<noteq> None \<longrightarrow> vc_nullification t \<noteq> None)
     \<and> (vc_m_notarization s \<noteq> None \<longrightarrow> vc_m_notarization t \<noteq> None)"

lemma vc_le_refl [simp]: "vc_le s s"
  by (simp add: vc_le_def)

lemma add_new_view_block_le: "vc_le s (snd (add_new_view_block E c b d P s))"
proof (cases "block_admissible E P b s")
  case True
  then show ?thesis by (simp add: add_new_view_block_admissible [OF True] vc_le_def Let_def)
next
  case False
  then show ?thesis by (simp add: add_new_view_block_inadmissible)
qed

lemma add_vote_le: "vc_le s (snd (add_vote E c v P s))"
proof (cases "vote_admissible E P v s")
  case True
  then show ?thesis
    by (auto simp: add_vote_eq add_vote_admissible_def vc_le_def Let_def split: option.splits)
next
  case False
  then show ?thesis using add_vote_inadmissible [OF False, of c] by auto
qed

lemma add_m_notarization_le: "vc_le s (snd (add_m_notarization E c m P s))"
  by (auto simp: add_m_notarization_def vc_le_def Let_def split: option.splits bool.splits)

lemma add_nullify_le: "vc_le s (snd (add_nullify E c n P s))"
  by (auto simp: add_nullify_def vc_le_def Let_def split: sum.splits)

lemma vc_step_le: "vc_step E c P s t \<Longrightarrow> vc_le s t"
proof (induction rule: vc_step.induct)
  case (nullification s nn)
  then show ?case
    by (auto simp: add_nullification_def vc_le_def Let_def split: option.splits bool.splits)
qed (auto simp: add_new_view_block_le add_vote_le add_m_notarization_le add_nullify_le,
    auto simp: vc_le_def add_own_vote_def create_nullify_for_timeout_def create_nullify_for_byzantine_def
      create_nullify_for_cascade_def create_nullify_message_def)

lemma vc_steps_le: "(vc_step E c P)\<^sup>*\<^sup>* s t \<Longrightarrow> vc_le s t"
  by (induction rule: rtranclp_induct) (auto dest!: vc_step_le simp: vc_le_def)

subsection \<open>Votes that agree\<close>

text \<open>In runs that never replace an adopted block hash by another one, all counted votes are for
  that hash, hence from distinct peers, and every M-notarization held verifies.\<close>

definition votes_agree :: "view_context \<Rightarrow> bool" where
  "votes_agree s \<longleftrightarrow> (\<forall>v \<in> set (vc_votes s). vc_block_hash s = Some (v_block_hash v))"

definition mnot_valid :: "env \<Rightarrow> peer_set \<Rightarrow> view_context \<Rightarrow> bool" where
  "mnot_valid E P s \<longleftrightarrow> pred_option (\<lambda>m. mnot_verify E P m = Some True) (vc_m_notarization s)"

definition vc_keep :: "env \<Rightarrow> cfg \<Rightarrow> peer_set \<Rightarrow> view_context \<Rightarrow> view_context \<Rightarrow> bool" where
  "vc_keep E c P s t \<longleftrightarrow> vc_step E c P s t
     \<and> (\<forall>h. vc_block_hash s = Some h \<longrightarrow> vc_block_hash t = Some h)"

definition vc_agree_inv :: "env \<Rightarrow> peer_set \<Rightarrow> view_context \<Rightarrow> bool" where
  "vc_agree_inv E P s \<longleftrightarrow> vc_machine_inv E P s \<and> votes_agree s \<and> mnot_valid E P s"

lemma promote_votes_agree:
  assumes "votes_agree s" and "vc_block_hash s = Some h"
  shows "votes_agree (promote_votes h s)"
  using assms set_fold_hs_insert_subset [of vote_key "filter (\<lambda>v. v_block_hash v = h) (vc_non_verified_votes s)"
      "vc_votes s"]
  by (fastforce simp: votes_agree_def promote_votes_def Let_def)

lemma votes_agree_no_hash: "votes_agree s \<Longrightarrow> vc_block_hash s = None \<Longrightarrow> vc_votes s = []"
  by (cases "vc_votes s") (auto simp: votes_agree_def)

lemma add_new_view_block_agree:
  assumes "votes_agree s" and "\<forall>h. vc_block_hash s = Some h \<longrightarrow> vc_block_hash (snd (add_new_view_block E c b d P s)) = Some h"
  shows "votes_agree (snd (add_new_view_block E c b d P s))"
proof (cases "block_admissible E P b s")
  case True
  have h: "vc_block_hash s = None \<or> vc_block_hash s = Some (get_hash E b)"
    using assms(2) by (cases "vc_block_hash s")
      (auto simp: add_new_view_block_admissible [OF True] Let_def split: if_splits)
  then have "votes_agree (adopt_block E b d s)"
    using assms(1) votes_agree_no_hash [OF assms(1)]
      set_hs_insert_subset [of vote_key "\<lparr>v_view = vc_view_number s, v_block_hash = get_hash E b,
        v_signature = b_leader_signature b, v_peer_id = vc_leader_id s, v_leader_id = vc_leader_id s\<rparr>" "vc_votes s"]
    by (fastforce simp: votes_agree_def adopt_block_def Let_def hs_insert_def)
  from promote_votes_agree [OF this] have "votes_agree (promote_votes (get_hash E b) (adopt_block E b d s))"
    by simp
  then show ?thesis by (simp add: add_new_view_block_admissible [OF True] Let_def votes_agree_def)
next
  case False
  then show ?thesis using assms(1) by (simp add: add_new_view_block_inadmissible)
qed

lemma add_own_vote_agree:
  assumes "votes_agree s"
  shows "votes_agree (snd (add_own_vote h sig s))"
proof (cases "vc_has_voted s \<or> (\<exists>h'. vc_block_hash s = Some h' \<and> h' \<noteq> h)")
  case True
  then show ?thesis using assms by (auto simp: add_own_vote_def split: option.splits)
next
  case False
  let ?v = "\<lparr>v_view = vc_view_number s, v_block_hash = h, v_signature = sig,
    v_peer_id = vc_replica_id s, v_leader_id = vc_leader_id s\<rparr>"
  let ?t = "s\<lparr>vc_block_hash := Some h, vc_has_voted := True, vc_votes := hs_insert vote_key ?v (vc_votes s)\<rparr>"
  have "vc_votes s = [] \<or> vc_block_hash s = Some h"
    using False votes_agree_no_hash [OF assms] by (cases "vc_block_hash s") auto
  then have "votes_agree ?t"
    using assms set_hs_insert_subset [of vote_key ?v "vc_votes s"] by (fastforce simp: votes_agree_def hs_insert_def)
  then have "votes_agree (promote_votes h ?t)" by (rule promote_votes_agree) simp
  then show ?thesis using False by (auto simp: add_own_vote_def split: option.splits)
qed

lemma add_m_notarization_agree:
  assumes "votes_agree s"
  shows "votes_agree (snd (add_m_notarization E c m P s))"
proof -
  let ?t = "promote_votes (mn_block_hash m) (s\<lparr>vc_block_hash := Some (mn_block_hash m)\<rparr>)"
  have "votes_agree ?t" if "vc_block_hash s = None"
    using votes_agree_no_hash [OF assms that] by (intro promote_votes_agree) (simp_all add: votes_agree_def)
  then show ?thesis
    using assms
    by (auto simp: add_m_notarization_def Let_def votes_agree_def split: option.splits bool.splits)
qed

lemma add_vote_agree: "votes_agree s \<Longrightarrow> votes_agree (snd (add_vote E c v P s))"
proof (cases "vote_admissible E P v s")
  case True
  then show "votes_agree s \<Longrightarrow> ?thesis"
    by (auto simp: add_vote_eq add_vote_admissible_def Let_def votes_agree_def split: option.splits)
next
  case False
  then show "votes_agree s \<Longrightarrow> ?thesis" using add_vote_inadmissible [OF False, of c] by auto
qed

lemma own_m_notarization_verifies:
  assumes "ark_laws E r" and "\<forall>v \<in> set (vc_votes t). vote_ok E P (vc_view_number t) v \<and> v_block_hash v = h"
  shows "mnot_verify E P (own_m_notarization E c h t) = Some True"
  by (rule mnot_verify_of_votes [OF assms(1), where vs = "take (cM c) (vc_votes t)"])
    (use assms(2) in \<open>auto simp: own_m_notarization_def vote_ok_def dest: in_set_takeD\<close>)

lemma add_vote_mnot_valid:
  assumes "ark_laws E r" and "vc_inv E P s" and "votes_agree s" and "mnot_valid E P s"
  shows "mnot_valid E P (snd (add_vote E c v P s))"
proof (cases "vote_admissible E P v s")
  case True
  let ?t = "s\<lparr>vc_votes := vc_votes s @ [v]\<rparr>"
  have "mnot_verify E P (own_m_notarization E c (v_block_hash v) ?t) = Some True"
    if "vc_block_hash s = Some (v_block_hash v)"
    using assms(2,3) True that
    by (intro own_m_notarization_verifies [OF assms(1)])
      (auto simp: vc_inv_def votes_inv_def votes_agree_def vote_admissible_def vote_ok_def)
  then show ?thesis
    using assms(4)
    by (auto simp: add_vote_eq [OF True] add_vote_admissible_def Let_def mnot_valid_def split: option.splits)
next
  case False
  then show ?thesis using add_vote_inadmissible [OF False, of c] assms(4) by auto
qed

lemma add_m_notarization_mnot_valid:
  "mnot_valid E P s \<Longrightarrow> mnot_valid E P (snd (add_m_notarization E c m P s))"
  by (auto simp: add_m_notarization_def Let_def mnot_valid_def split: option.splits bool.splits)

lemma add_new_view_block_mnot_valid:
  "mnot_valid E P s \<Longrightarrow> mnot_valid E P (snd (add_new_view_block E c b d P s))"
  by (cases "block_admissible E P b s")
    (simp_all add: add_new_view_block_admissible add_new_view_block_inadmissible Let_def mnot_valid_def)

lemma other_ops_keep_votes:
  "vc_votes (snd (add_nullify E c n P s)) = vc_votes s"
  "vc_block_hash (snd (add_nullify E c n P s)) = vc_block_hash s"
  "vc_m_notarization (snd (add_nullify E c n P s)) = vc_m_notarization s"
  "vc_votes (snd (add_nullification E nn P s)) = vc_votes s"
  "vc_block_hash (snd (add_nullification E nn P s)) = vc_block_hash s"
  "vc_m_notarization (snd (add_nullification E nn P s)) = vc_m_notarization s"
  "vc_votes (snd (create_nullify_for_timeout E sk s)) = vc_votes s"
  "vc_block_hash (snd (create_nullify_for_timeout E sk s)) = vc_block_hash s"
  "vc_m_notarization (snd (create_nullify_for_timeout E sk s)) = vc_m_notarization s"
  "vc_votes (snd (create_nullify_for_byzantine E sk s)) = vc_votes s"
  "vc_block_hash (snd (create_nullify_for_byzantine E sk s)) = vc_block_hash s"
  "vc_m_notarization (snd (create_nullify_for_byzantine E sk s)) = vc_m_notarization s"
  "vc_votes (snd (create_nullify_for_cascade E sk s)) = vc_votes s"
  "vc_block_hash (snd (create_nullify_for_cascade E sk s)) = vc_block_hash s"
  "vc_m_notarization (snd (create_nullify_for_cascade E sk s)) = vc_m_notarization s"
  by (auto simp: add_nullify_def add_nullification_def create_nullify_for_timeout_def
      create_nullify_for_byzantine_def create_nullify_for_cascade_def create_nullify_message_def Let_def
      split: sum.splits option.splits bool.splits)

lemma vc_keep_agree:
  assumes "vc_step E c P s t" and "\<forall>h. vc_block_hash s = Some h \<longrightarrow> vc_block_hash t = Some h"
    and "votes_agree s"
  shows "votes_agree t"
  using assms
  by (cases rule: vc_step.cases)
    (auto simp: add_new_view_block_agree add_vote_agree add_own_vote_agree add_m_notarization_agree,
      auto simp: votes_agree_def other_ops_keep_votes)

lemma vc_step_mnot_valid:
  assumes "vc_step E c P s t" and "ark_laws E r" and "vc_inv E P s" and "votes_agree s" and "mnot_valid E P s"
  shows "mnot_valid E P t"
  using assms
  by (cases rule: vc_step.cases)
    (auto simp: add_new_view_block_mnot_valid add_m_notarization_mnot_valid add_vote_mnot_valid,
      auto simp: mnot_valid_def other_ops_keep_votes add_own_vote_def split: option.splits)

lemma vc_agree_inv_step: "vc_keep E c P s t \<Longrightarrow> vc_agree_inv E P s \<Longrightarrow> vc_agree_inv E P t"
  unfolding vc_keep_def vc_agree_inv_def vc_machine_inv_def
  by (metis vc_keep_agree vc_step_inv vc_step_mnot_valid)

lemma vc_init_new: "ark_laws E r \<Longrightarrow> vc_init E (view_context_new now view l me parent)"
  unfolding vc_init_def by blast

lemma vc_agree_inv_init: "vc_init E s \<Longrightarrow> vc_agree_inv E P s"
  unfolding vc_agree_inv_def
  using vcm.inv_init [of E s P] by (auto simp: vc_init_def votes_agree_def mnot_valid_def view_context_new_def)

interpretation vka: invariant_machine "vc_init E" "vc_keep E c P" "vc_agree_inv E P" for E c P
  by unfold_locales (auto intro: vc_agree_inv_init vc_agree_inv_step)

lemma agree_distinct_peers:
  assumes "vc_inv E P s" and "votes_agree s"
  shows "distinct (map v_peer_id (vc_votes s))"
proof -
  have "inj_on v_peer_id (set (vc_votes s))"
  proof (rule inj_onI)
    fix v w assume vw: "v \<in> set (vc_votes s)" "w \<in> set (vc_votes s)" "v_peer_id v = v_peer_id w"
    then have "Some (v_block_hash v) = Some (v_block_hash w)" using assms(2) by (metis votes_agree_def)
    then have "vote_key v = vote_key w"
      using assms(1) vw by (auto simp: vote_key_def vc_inv_def votes_inv_def vote_ok_def)
    then show "v = w"
      using assms(1) vw by (auto simp: vc_inv_def votes_inv_def hs_invar_def distinct_map inj_on_def)
  qed
  moreover have "distinct (vc_votes s)"
    using assms(1) by (auto simp: vc_inv_def votes_inv_def hs_invar_def distinct_map)
  ultimately show ?thesis by (simp add: distinct_map)
qed

definition signers :: "env \<Rightarrow> peer_set \<Rightarrow> view_context \<Rightarrow> hash \<Rightarrow> peer_id set" where
  "signers E P s h = v_peer_id ` {v \<in> set (vc_votes s). v_block_hash v = h \<and> vote_ok E P (vc_view_number s) v}"

lemma agree_signers:
  assumes "vc_inv E P s" and "votes_agree s" and "vc_block_hash s = Some h"
  shows "card (signers E P s h) = length (vc_votes s)"
proof -
  have "signers E P s h = v_peer_id ` set (vc_votes s)"
    using assms by (auto simp: signers_def votes_agree_def vc_inv_def votes_inv_def)
  also have "card \<dots> = length (vc_votes s)"
    using agree_distinct_peers [OF assms(1,2)] by (metis distinct_card length_map list.set_map)
  finally show ?thesis .
qed

subsection \<open>Properties of a view\<close>

text \<open>C11: in every run of a view, whatever messages arrive and in whatever order, the context stays
  well formed: counted and waiting votes are signed by the peers they name and are for this view,
  nullify messages come from distinct peers and are signed by them, the block and the M-notarization
  have the recorded block hash, a stored nullification verifies and marks the view as nullified.\<close>

theorem view_context_invariant:
  assumes "ark_laws E r" and "(vc_step E c P)\<^sup>*\<^sup>* (view_context_new now view l me parent) s"
  shows "vc_inv E P s"
  using vcm.inv_reachable [OF vc_init_new [OF assms(1)] assms(2)] by (simp add: vc_machine_inv_def)

text \<open>C12: when \<open>add_vote\<close> reports that there are enough votes to finalize, at least \<open>N - F\<close>
  different peers have each signed the block hash of the view (in every run that does not replace
  the adopted hash).\<close>

theorem finalize_report_is_quorum:
  assumes "ark_laws E r" and "(vc_keep E c P)\<^sup>*\<^sup>* (view_context_new now view l me parent) s"
    and "add_vote E c v P s = (Inr res, t)" and "cv_is_enough_to_finalize res"
  shows "\<exists>h. vc_block_hash t = Some h \<and> cN c - cF c \<le> card (signers E P t h)"
proof -
  have s: "vc_agree_inv E P s"
    by (rule vka.inv_reachable [OF vc_init_new [OF assms(1)] assms(2)])
  have t: "t = snd (add_vote E c v P s)" using assms(3) by simp
  have "vote_admissible E P v s"
    using add_vote_inadmissible [of E P v s c] assms(3) by auto
  from add_vote_eq [OF this, of c] assms(3,4) obtain h where
    h: "vc_block_hash t = Some h" "cN c - cF c \<le> length (vc_votes t)"
    by (auto simp: add_vote_admissible_def Let_def split: option.splits if_splits)
  have "vc_inv E P t" "votes_agree t"
    unfolding t using s by (auto simp: vc_agree_inv_def vc_machine_inv_def intro: add_vote_inv add_vote_agree)
  from agree_signers [OF this h(1)] h show ?thesis by auto
qed

lemma own_m_notarization_peers:
  "mn_peer_ids (own_m_notarization E c h s) = take (cM c) (map v_peer_id (vc_votes s))"
  by (simp add: own_m_notarization_def take_map)

text \<open>C13: in every run of a view context in which no step replaces the block hash the context has
  adopted (\<open>vc_keep\<close>), when \<open>add_vote\<close> reports an M-notarization, the one it has assembled from the
  counted votes passes \<open>MNotarization::verify\<close>, names \<open>M_SIZE\<close> different peers and is for the block
  hash of the view.\<close>

theorem m_notarization_verifies:
  assumes "ark_laws E r" and "(vc_keep E c P)\<^sup>*\<^sup>* (view_context_new now view l me parent) s"
    and "add_vote E c v P s = (Inr res, t)" and "cv_is_enough_to_m_notarize res"
  shows "\<exists>m. vc_m_notarization t = Some m \<and> mnot_verify E P m = Some True
    \<and> distinct (mn_peer_ids m) \<and> length (mn_peer_ids m) = cM c \<and> vc_block_hash t = Some (mn_block_hash m)"
proof -
  have s: "vc_agree_inv E P s"
    by (rule vka.inv_reachable [OF vc_init_new [OF assms(1)] assms(2)])
  then have inv: "vc_inv E P s" "votes_agree s" "mnot_valid E P s"
    by (auto simp: vc_agree_inv_def vc_machine_inv_def)
  have adm: "vote_admissible E P v s"
    using add_vote_inadmissible [of E P v s c] assms(3) by auto
  let ?u = "s\<lparr>vc_votes := vc_votes s @ [v]\<rparr>"
  from add_vote_eq [OF adm, of c] assms(3,4) obtain h where
    t: "t = ?u\<lparr>vc_m_notarization := Some (own_m_notarization E c h ?u)\<rparr>" and h: "vc_block_hash s = Some h"
    and len: "cM c \<le> length (vc_votes ?u)"
    by (auto simp: add_vote_admissible_def Let_def split: option.splits if_splits)
  have "vc_inv E P t" "votes_agree t" "mnot_valid E P t"
    using add_vote_inv [OF inv(1), of c v] add_vote_agree [OF inv(2), of E c v P]
      add_vote_mnot_valid [OF assms(1) inv, of c v] assms(3) by simp_all
  moreover from this have "distinct (map v_peer_id (vc_votes ?u))"
    using agree_distinct_peers [of E P t] t by simp
  then have "distinct (mn_peer_ids (own_m_notarization E c h ?u))"
    "length (mn_peer_ids (own_m_notarization E c h ?u)) = cM c"
    unfolding own_m_notarization_peers by (rule distinct_take) (use len in simp)
  ultimately show ?thesis using t h by (simp add: mnot_valid_def) (simp add: own_m_notarization_def)
qed

text \<open>A concrete view for the witnesses: six peers (\<open>N = 6\<close>, \<open>F = 1\<close>) whose ids are also their
  keys; peer 1 leads view 1 and replica 6 keeps the context.\<close>

definition toy_cfg :: cfg where
  "toy_cfg = \<lparr>cN = 6, cF = 1, cM = 3\<rparr>"

definition toy_six :: peer_set where
  "toy_six = \<lparr>id_to_public_key = map (\<lambda>i. (of_nat i, int i)) [1..<7],
              sorted_peer_ids = map of_nat [1..<7]\<rparr>"

definition toy_vote :: "nat \<Rightarrow> hash \<Rightarrow> vote" where
  "toy_vote i h = \<lparr>v_view = 1, v_block_hash = h, v_signature = bls_sign toy_env (int i) h,
                   v_peer_id = of_nat i, v_leader_id = 1\<rparr>"

definition toy_proposal :: "hash \<Rightarrow> block" where
  "toy_proposal h = \<lparr>b_leader = 1,
     b_header = \<lparr>h_view = 1, h_parent_block_hash = [9], h_timestamp = 0\<rparr>,
     b_leader_signature = bls_sign toy_env 1 h, b_transactions = [], b_hash = Some h,
     b_is_finalized = False, b_height = 1\<rparr>"

definition toy_start :: view_context where
  "toy_start = view_context_new 0 1 1 6 [9]"

definition collect_votes :: "env \<Rightarrow> cfg \<Rightarrow> peer_set \<Rightarrow> vote list \<Rightarrow> view_context \<Rightarrow> view_context" where
  "collect_votes E c P vs s = fold (\<lambda>v s. snd (add_vote E c v P s)) vs s"

definition toy_view :: "nat list \<Rightarrow> view_context" where
  "toy_view is = collect_votes toy_env toy_cfg toy_six (map (\<lambda>i. toy_vote i [2]) is)
     (snd (add_new_view_block toy_env toy_cfg (toy_proposal [2]) state_diff_new toy_six toy_start))"

lemma add_vote_block_hash [simp]: "vc_block_hash (snd (add_vote E c v P s)) = vc_block_hash s"
proof (cases "vote_admissible E P v s")
  case True
  then show ?thesis by (auto simp: add_vote_eq add_vote_admissible_def Let_def split: option.splits)
next
  case False
  then show ?thesis using add_vote_inadmissible [OF False, of c] by auto
qed

lemma collect_votes_keep: "(vc_keep E c P)\<^sup>*\<^sup>* s (collect_votes E c P vs s)"
proof (induction vs arbitrary: s)
  case (Cons v vs)
  have "vc_keep E c P s (snd (add_vote E c v P s))" by (simp add: vc_keep_def vc_step.vote)
  then show ?case using Cons [of "snd (add_vote E c v P s)"]
    by (simp add: collect_votes_def converse_rtranclp_into_rtranclp)
qed (simp add: collect_votes_def)

lemma toy_view_keep: "(vc_keep toy_env toy_cfg toy_six)\<^sup>*\<^sup>* (view_context_new 0 1 1 6 [9]) (toy_view is)"
proof -
  have "vc_keep toy_env toy_cfg toy_six toy_start
      (snd (add_new_view_block toy_env toy_cfg (toy_proposal [2]) state_diff_new toy_six toy_start))"
    by (simp add: vc_keep_def vc_step.propose) (simp add: toy_start_def view_context_new_def)
  with collect_votes_keep show ?thesis
    unfolding toy_view_def toy_start_def by (rule converse_rtranclp_into_rtranclp [rotated])
qed

lemma vc_keep_steps: "(vc_keep E c P)\<^sup>*\<^sup>* s t \<Longrightarrow> (vc_step E c P)\<^sup>*\<^sup>* s t"
  by (erule rtranclp_mono [THEN predicate2D, rotated]) (auto simp: vc_keep_def)

theorem view_context_invariant_witness:
  "(vc_step toy_env toy_cfg toy_six)\<^sup>*\<^sup>* (view_context_new 0 1 1 6 [9]) (toy_view [2, 3])
    \<and> vc_inv toy_env toy_six (toy_view [2, 3]) \<and> length (vc_votes (toy_view [2, 3])) = 3"
proof (intro conjI)
  show r: "(vc_step toy_env toy_cfg toy_six)\<^sup>*\<^sup>* (view_context_new 0 1 1 6 [9]) (toy_view [2, 3])"
    by (rule vc_keep_steps [OF toy_view_keep])
  show "vc_inv toy_env toy_six (toy_view [2, 3])" by (rule view_context_invariant [OF toy_env_ark_laws r])
  show "length (vc_votes (toy_view [2, 3])) = 3" by code_simp
qed

lemma map_sum_InrE:
  assumes "map_sum id f (fst p) = Inr True"
  obtains r t where "p = (Inr r, t)" "f r"
  using assms by (cases p; cases "fst p") auto

lemma toy_view_finalizes:
  "map_sum id cv_is_enough_to_finalize (fst (add_vote toy_env toy_cfg (toy_vote 5 [2]) toy_six (toy_view [2, 3, 4])))
     = Inr True"
  by code_simp

lemma toy_view_notarizes:
  "map_sum id cv_is_enough_to_m_notarize (fst (add_vote toy_env toy_cfg (toy_vote 3 [2]) toy_six (toy_view [2])))
     = Inr True"
  by code_simp

theorem finalize_report_is_quorum_witness:
  "\<exists>res t h. add_vote toy_env toy_cfg (toy_vote 5 [2]) toy_six (toy_view [2, 3, 4]) = (Inr res, t)
    \<and> cv_is_enough_to_finalize res \<and> vc_block_hash t = Some h \<and> 5 \<le> card (signers toy_env toy_six t h)"
proof -
  obtain res t where r: "add_vote toy_env toy_cfg (toy_vote 5 [2]) toy_six (toy_view [2, 3, 4]) = (Inr res, t)"
      "cv_is_enough_to_finalize res"
    using toy_view_finalizes by (rule map_sum_InrE) auto
  from finalize_report_is_quorum [OF toy_env_ark_laws toy_view_keep r] r show ?thesis
    by (auto simp: toy_cfg_def)
qed

theorem m_notarization_verifies_witness:
  "\<exists>res t m. add_vote toy_env toy_cfg (toy_vote 3 [2]) toy_six (toy_view [2]) = (Inr res, t)
    \<and> cv_is_enough_to_m_notarize res \<and> vc_m_notarization t = Some m \<and> mnot_verify toy_env toy_six m = Some True"
proof -
  obtain res t where r: "add_vote toy_env toy_cfg (toy_vote 3 [2]) toy_six (toy_view [2]) = (Inr res, t)"
      "cv_is_enough_to_m_notarize res"
    using toy_view_notarizes by (rule map_sum_InrE) auto
  from m_notarization_verifies [OF toy_env_ark_laws toy_view_keep r] r show ?thesis by auto
qed

text \<open>A replica votes and nullifies at most once per view. From the moment it has voted, every
  later \<open>add_own_vote\<close> is refused, and \<open>create_nullify_for_timeout\<close> too; from the moment it has
  nullified, all three ways of creating a nullify message are refused; none of the refused calls
  changes the context.\<close>

theorem vote_and_nullify_once:
  assumes "(vc_step E c P)\<^sup>*\<^sup>* s t"
  shows "(vc_has_voted s \<longrightarrow> add_own_vote h sig t = (Inl AlreadyVoted, t)
      \<and> (\<exists>e. create_nullify_for_timeout E sk t = (Inl e, t)))
    \<and> (vc_has_nullified s \<longrightarrow> create_nullify_for_timeout E sk t = (Inl AlreadyNullified, t)
      \<and> create_nullify_for_byzantine E sk t = (Inl AlreadyNullified, t)
      \<and> create_nullify_for_cascade E sk t = (Inl AlreadyNullified, t))"
  using vc_steps_le [OF assms]
  by (auto simp: vc_le_def add_own_vote_def create_nullify_for_timeout_def
      create_nullify_for_byzantine_def create_nullify_for_cascade_def)

definition toy_voted :: view_context where
  "toy_voted = snd (add_own_vote [2] (bls_sign toy_env 6 [2]) (toy_view []))"

theorem vote_and_nullify_once_witness:
  "vc_has_voted toy_voted
    \<and> add_own_vote [3] 0 (collect_votes toy_env toy_cfg toy_six [toy_vote 2 [2]] toy_voted)
        = (Inl AlreadyVoted, collect_votes toy_env toy_cfg toy_six [toy_vote 2 [2]] toy_voted)"
proof -
  have "vc_has_voted toy_voted" by code_simp
  with vote_and_nullify_once [OF vc_keep_steps [OF collect_votes_keep]] show ?thesis by blast
qed

text \<open>C14: the nullification that \<open>add_nullify\<close> assembles when the threshold is crossed passes
  \<open>Nullification::verify\<close>, names \<open>M_SIZE\<close> different peers, and the view counts as nullified.\<close>

theorem assembled_nullification_verifies:
  assumes "ark_laws E r" and "wf_cfg c"
    and "(vc_step E c P)\<^sup>*\<^sup>* (view_context_new now view l me parent) s"
    and "add_nullify E c n P s = (Inr (), t)" and "2 * cF c < length (vc_nullify_messages t)"
  shows "\<exists>m. vc_nullification t = Some m \<and> nullification_verify E P m = Some True
    \<and> distinct (nfn_peer_ids m) \<and> length (nfn_peer_ids m) = cM c \<and> vc_has_nullified t"
proof -
  have s: "vc_inv E P s"
    using vcm.inv_reachable [OF vc_init_new [OF assms(1)] assms(3)] by (simp add: vc_machine_inv_def)
  let ?ns = "vc_nullify_messages t"
  have t: "vc_inv E P t" using add_nullify_inv [OF s assms(1), of c n] assms(4) by simp
  have d: "distinct (map nf_peer_id ?ns)" using t by (simp add: vc_inv_def nullify_inv_def)
  have M: "cM c \<le> length ?ns" using assms(2,5) by (simp add: wf_cfg_def)
  obtain m where m: "vc_nullification t = Some m" "nfn_peer_ids m = take (cM c) (map nf_peer_id ?ns)"
    using assms(4,5)
    by (auto simp: add_nullify_def create_nullification_data_def Let_def take_map split: if_splits sum.splits)
  show ?thesis
    using m t d M by (auto simp: vc_inv_def nullify_inv_def)
qed

definition toy_nullify :: "nat \<Rightarrow> nullify" where
  "toy_nullify i = \<lparr>nf_view = 1, nf_leader_id = 1,
     nf_signature = bls_sign toy_env (int i) (nullify_message toy_env 1 1), nf_peer_id = of_nat i\<rparr>"

definition collect_nullifies :: "env \<Rightarrow> cfg \<Rightarrow> peer_set \<Rightarrow> nullify list \<Rightarrow> view_context \<Rightarrow> view_context" where
  "collect_nullifies E c P ns s = fold (\<lambda>n s. snd (add_nullify E c n P s)) ns s"

lemma collect_nullifies_steps: "(vc_step E c P)\<^sup>*\<^sup>* s (collect_nullifies E c P ns s)"
proof (induction ns arbitrary: s)
  case (Cons n ns)
  have "vc_step E c P s (snd (add_nullify E c n P s))" by (rule vc_step.nullify)
  then show ?case using Cons [of "snd (add_nullify E c n P s)"]
    by (simp add: collect_nullifies_def converse_rtranclp_into_rtranclp)
qed (simp add: collect_nullifies_def)

lemma toy_nullify_third:
  "map_prod (\<lambda>r. r = Inr ()) (\<lambda>t. length (vc_nullify_messages t))
     (add_nullify toy_env toy_cfg (toy_nullify 4) toy_six
       (collect_nullifies toy_env toy_cfg toy_six [toy_nullify 2, toy_nullify 3] toy_start)) = (True, 3)"
  by code_simp

theorem assembled_nullification_verifies_witness:
  "\<exists>t m. add_nullify toy_env toy_cfg (toy_nullify 4) toy_six
       (collect_nullifies toy_env toy_cfg toy_six [toy_nullify 2, toy_nullify 3] toy_start) = (Inr (), t)
     \<and> vc_nullification t = Some m \<and> nullification_verify toy_env toy_six m = Some True"
proof -
  let ?s = "collect_nullifies toy_env toy_cfg toy_six [toy_nullify 2, toy_nullify 3] toy_start"
  obtain t where t: "add_nullify toy_env toy_cfg (toy_nullify 4) toy_six ?s = (Inr (), t)"
      "length (vc_nullify_messages t) = 3"
    using toy_nullify_third by (cases "add_nullify toy_env toy_cfg (toy_nullify 4) toy_six ?s") auto
  have c: "wf_cfg toy_cfg" by (simp add: wf_cfg_def toy_cfg_def)
  have r: "(vc_step toy_env toy_cfg toy_six)\<^sup>*\<^sup>* (view_context_new 0 1 1 6 [9]) ?s"
    unfolding toy_start_def by (rule collect_nullifies_steps)
  from assembled_nullification_verifies [OF toy_env_ark_laws c r t(1)] t show ?thesis by (auto simp: toy_cfg_def)
qed

text \<open>An operation that fails leaves the context alone, stated for an arbitrary predicate \<open>Q\<close> of it.\<close>

lemma add_vote_atomic:
  assumes "wf_cfg c" and "fst (add_vote E c v P s) = Inl e"
    and "Q s"
  shows "Q (snd (add_vote E c v P s))"
proof (cases "vote_admissible E P v s")
  case True
  then show ?thesis
    using assms
    by (cases "vc_block_hash s")
      (auto simp: add_vote_eq [OF True] add_vote_admissible_def Let_def wf_cfg_def split: if_splits)
next
  case False
  then show ?thesis using add_vote_inadmissible [OF False, of c] assms(3) by auto
qed

lemma add_new_view_block_atomic:
  assumes "fst (add_new_view_block E c b d P s) = Inl e"
  shows "snd (add_new_view_block E c b d P s) = s"
proof (cases "block_admissible E P b s")
  case True
  then show ?thesis using assms by (simp add: add_new_view_block_admissible [OF True] Let_def)
next
  case False
  then show ?thesis by (simp add: add_new_view_block_inadmissible)
qed

lemma add_own_vote_atomic: "fst (add_own_vote h sig s) = Inl e \<Longrightarrow> snd (add_own_vote h sig s) = s"
  by (simp add: add_own_vote_def split: if_splits)

lemma add_nullification_atomic:
  "fst (add_nullification E nn P s) = Inl e \<Longrightarrow> snd (add_nullification E nn P s) = s"
  by (cases "nullification_verify E P nn"; cases "the (nullification_verify E P nn)")
    (simp_all add: add_nullification_def Let_def split: if_splits)

lemma add_nullify_atomic:
  assumes "wf_cfg c" and "fst (add_nullify E c n P s) = Inl e"
    and "Q s"
  shows "Q (snd (add_nullify E c n P s))"
proof -
  have M: "cM c = 2 * cF c + 1" using assms(1) by (simp add: wf_cfg_def)
  show ?thesis
    using assms(2,3) M by (cases "get_public_key P (nf_peer_id n)")
      (simp_all add: add_nullify_def create_nullification_data_def Let_def split: if_splits)
qed

lemma add_m_notarization_atomic:
  assumes "fst (add_m_notarization E c m P s) = Inl e"
    and "Q s"
  shows "Q (snd (add_m_notarization E c m P s))"
proof (cases "mn_view m = vc_view_number s \<and> mn_leader_id m = vc_leader_id s \<and> mnot_verify E P m = Some True")
  case True
  then show ?thesis
    using assms by (cases "vc_block_hash s"; cases "vc_m_notarization s")
      (simp_all add: add_m_notarization_def Let_def split: if_splits)
next
  case False
  then show ?thesis using assms by (auto simp: add_m_notarization_def split: option.splits bool.splits)
qed

text \<open>The error paths of a view are atomic. Under the protocol's parameters an operation that
  returns an error leaves the context exactly as it was.\<close>

theorem view_errors_leave_context:
  assumes "wf_cfg c"
  shows "(\<forall>e. fst (add_vote E c v P s) = Inl e \<longrightarrow> snd (add_vote E c v P s) = s)
    \<and> (\<forall>e. fst (add_new_view_block E c b d P s) = Inl e \<longrightarrow> snd (add_new_view_block E c b d P s) = s)
    \<and> (\<forall>e. fst (add_own_vote h sig s) = Inl e \<longrightarrow> snd (add_own_vote h sig s) = s)
    \<and> (\<forall>e. fst (add_nullify E c n P s) = Inl e \<longrightarrow> snd (add_nullify E c n P s) = s)
    \<and> (\<forall>e. fst (add_m_notarization E c m P s) = Inl e \<longrightarrow> snd (add_m_notarization E c m P s) = s)
    \<and> (\<forall>e. fst (add_nullification E nn P s) = Inl e \<longrightarrow> snd (add_nullification E nn P s) = s)"
  by (intro conjI allI impI)
    (rule add_vote_atomic [OF assms, where Q = "\<lambda>t. t = s"] add_new_view_block_atomic add_own_vote_atomic
      add_nullify_atomic [OF assms, where Q = "\<lambda>t. t = s"] add_nullification_atomic
      add_m_notarization_atomic [where Q = "\<lambda>t. t = s"], assumption, (rule refl)?)+

theorem view_errors_leave_context_witness:
  "add_vote toy_env toy_cfg (toy_vote 1 [2]) toy_six (toy_view []) = (Inl VoteExists, toy_view [])"
proof -
  have c: "wf_cfg toy_cfg" by (simp add: wf_cfg_def toy_cfg_def)
  have "fst (add_vote toy_env toy_cfg (toy_vote 1 [2]) toy_six (toy_view [])) = Inl VoteExists" by code_simp
  with view_errors_leave_context [OF c, of toy_env "toy_vote 1 [2]" toy_six "toy_view []"] show ?thesis
    by (metis prod.collapse)
qed

subsection \<open>Weaknesses of the vote bookkeeping\<close>

lemma conflicting_vote_counts:
  assumes "vote_admissible E P v s" and "vc_block_hash s = Some h" and "v_block_hash v \<noteq> h"
  shows "snd (add_vote E c v P s) = s\<lparr>vc_num_invalid_votes := vc_num_invalid_votes s + 1\<rparr>"
  using assms by (simp add: add_vote_eq add_vote_admissible_def Let_def)

lemma conflicting_vote_repeats:
  assumes "vote_admissible E P v s" and "vc_block_hash s = Some h" and "v_block_hash v \<noteq> h"
  shows "collect_votes E c P (replicate k v) s = s\<lparr>vc_num_invalid_votes := vc_num_invalid_votes s + k\<rparr>"
  using assms
proof (induction k arbitrary: s)
  case (Suc k)
  let ?s = "s\<lparr>vc_num_invalid_votes := vc_num_invalid_votes s + 1\<rparr>"
  have "vote_admissible E P v ?s" using Suc.prems(1) by (simp add: vote_admissible_def)
  from Suc.IH [OF this] Suc.prems show ?case
    by (simp add: collect_votes_def conflicting_vote_counts)
qed (simp add: collect_votes_def)

text \<open>A single peer can make a replica nullify a view. A vote that conflicts with the adopted
  hash is counted but its sender is not recorded, so the same message delivered \<open>F + 1\<close> times makes
  \<open>add_vote\<close> report evidence for nullification, although \<open>should_nullify_after_receiving_new_vote\<close>
  takes more than \<open>F\<close> invalid votes to prove that an honest replica voted for another block.\<close>

theorem one_peer_forces_nullify:
  assumes "vote_admissible E P v s" and "vc_block_hash s = Some h" and "v_block_hash v \<noteq> h"
    and "\<not> vc_has_nullified s"
  shows "\<exists>res t. add_vote E c v P (collect_votes E c P (replicate (cF c) v) s) = (Inr res, t)
    \<and> cv_should_nullify res"
proof -
  let ?s = "s\<lparr>vc_num_invalid_votes := vc_num_invalid_votes s + cF c\<rparr>"
  have "vote_admissible E P v ?s" using assms(1) by (simp add: vote_admissible_def)
  then show ?thesis
    unfolding conflicting_vote_repeats [OF assms(1-3)]
    using assms(2-4)
    by (simp add: add_vote_eq add_vote_admissible_def Let_def should_nullify_after_receiving_new_vote_def)
qed

theorem one_peer_forces_nullify_witness:
  "\<exists>res t. add_vote toy_env toy_cfg (toy_vote 2 [3]) toy_six
      (collect_votes toy_env toy_cfg toy_six (replicate 1 (toy_vote 2 [3])) (toy_view [])) = (Inr res, t)
    \<and> cv_should_nullify res"
proof -
  have a: "vote_admissible toy_env toy_six (toy_vote 2 [3]) (toy_view [])"
    unfolding vote_admissible_def get_public_key_Inr
    by (intro conjI exI [of _ 2]; code_simp)
  have "vc_block_hash (toy_view []) = Some [2]" "v_block_hash (toy_vote 2 [3]) \<noteq> [2]"
    "\<not> vc_has_nullified (toy_view [])" by code_simp+
  from one_peer_forces_nullify [OF a this, of toy_cfg] show ?thesis by (simp add: toy_cfg_def)
qed

text \<open>The context after an equivocating leader's two blocks: votes of peers 2, 3, 4 for one hash
  arrive before any proposal, together with votes of 5 and 6 for the other; the M-notarization of
  the first hash makes the replica adopt it (and nullify), the leader's proposal of the second hash
  then replaces it.\<close>

definition toy_mixed :: view_context where
  "toy_mixed =
     (let s1 = collect_votes toy_env toy_cfg toy_six
            [toy_vote 2 [2], toy_vote 3 [2], toy_vote 4 [2], toy_vote 5 [3], toy_vote 6 [3]]
            (view_context_new 0 1 1 6 [9]);
          m = \<lparr>mn_view = 1, mn_block_hash = [2],
               mn_aggregated_signature =
                 aggregate_signatures toy_env (map (\<lambda>i. v_signature (toy_vote i [2])) [2, 3, 4]),
               mn_peer_ids = [2, 3, 4], mn_leader_id = 1\<rparr>;
          s2 = snd (add_m_notarization toy_env toy_cfg m toy_six s1);
          s3 = snd (create_nullify_for_byzantine toy_env 6 s2)
      in snd (add_new_view_block toy_env toy_cfg (toy_proposal [3]) state_diff_new toy_six s3))"

text \<open>Counted votes can be for different blocks. In a run with \<open>N = 6\<close>, \<open>F = 1\<close>, one more vote
  for the second hash makes \<open>add_vote\<close> report enough votes to finalize, although of the five counted
  votes three are for the first hash and only two for the hash the view then has.\<close>

theorem finalize_from_mixed_votes:
  "\<exists>res t. (vc_step toy_env toy_cfg toy_six)\<^sup>*\<^sup>* (view_context_new 0 1 1 6 [9]) toy_mixed
    \<and> add_vote toy_env toy_cfg (toy_vote 5 [3]) toy_six toy_mixed = (Inr res, t)
    \<and> cv_is_enough_to_finalize res \<and> vc_block_hash t = Some [3]
    \<and> map v_block_hash (vc_votes t) = [[2], [2], [2], [3], [3]]"
proof -
  let ?R = "(vc_step toy_env toy_cfg toy_six)\<^sup>*\<^sup>*"
  have step: "?R a t" if "?R a s" "vc_step toy_env toy_cfg toy_six s t" for a s t
    using that by (rule rtranclp.rtrancl_into_rtrancl)
  have "?R (view_context_new 0 1 1 6 [9]) toy_mixed"
    unfolding toy_mixed_def Let_def
    by (rule step [rotated], rule vc_step.propose, rule step [rotated], rule vc_step.byzantine,
        rule step [rotated], rule vc_step.m_notarization, rule vc_keep_steps, rule collect_votes_keep)
  moreover have "map_prod (map_sum id cv_is_enough_to_finalize)
      (\<lambda>t. (vc_block_hash t, map v_block_hash (vc_votes t)))
      (add_vote toy_env toy_cfg (toy_vote 5 [3]) toy_six toy_mixed)
    = (Inr True, Some [3], [[2], [2], [2], [3], [3]])"
    by code_simp
  ultimately show ?thesis
    by (cases "add_vote toy_env toy_cfg (toy_vote 5 [3]) toy_six toy_mixed";
        cases "fst (add_vote toy_env toy_cfg (toy_vote 5 [3]) toy_six toy_mixed)") auto
qed

end
