(* ===== verification/Storage.thy ===== *)
theory Storage
  imports Validation_Types
begin

text \<open>
  The database (\<open>storage/store.rs\<close>, with the keys of \<open>storage/conversions.rs\<close> and the tables of
  \<open>storage/tables.rs\<close>). A \<open>redb\<close> table is an association list sorted by key, which is its iteration
  order; a write transaction on it commits or fails as the parameter \<open>redb_write_ok\<close> says, by table and
  key, so that within a run a write to a key either always or never succeeds. Values
  are stored by \<open>rkyv\<close>, of which the code relies on reading back what was written. The tables
  \<open>ACCOUNTS\<close> and \<open>NULLIFIES\<close> are missing from \<open>init_tables\<close>: they do not exist (\<open>None\<close>) until the
  first write creates them, and reading them before that is an error.
\<close>

subsection \<open>Keys\<close>

definition vote_db_key :: "env \<Rightarrow> vote \<Rightarrow> bytes" where
  "vote_db_key E v =
     blake3 E (to_le_bytes (of_nat (v_view v)) @ v_block_hash v @ to_le_bytes (v_peer_id v))"

definition view_db_key :: "view_no \<Rightarrow> bytes" where
  "view_db_key v = to_le_bytes (of_nat v)"

subsection \<open>Tables\<close>

record store =
  st_accounts :: "(bytes \<times> account) list option"
  st_finalized_blocks :: "(bytes \<times> block) list"
  st_non_finalized_blocks :: "(bytes \<times> block) list"
  st_nullified_blocks :: "(bytes \<times> block) list"
  st_votes :: "(bytes \<times> vote) list"
  st_notarizations :: "(bytes \<times> m_notarization) list"
  st_nullifies :: "(bytes \<times> nullify) list option"
  st_nullifications :: "(bytes \<times> nullification) list"
  st_views :: "(bytes \<times> view) list"
  st_leaders :: "(bytes \<times> leader) list"
  st_mempool :: "(bytes \<times> transaction) list"
  st_l_notarizations :: "(bytes \<times> l_notarization) list"
  st_l_notarizations_by_height :: "(nat \<times> hash) list"

definition init_tables :: store where
  "init_tables =
     \<lparr>st_accounts = None, st_finalized_blocks = [], st_non_finalized_blocks = [],
      st_nullified_blocks = [], st_votes = [], st_notarizations = [], st_nullifies = None,
      st_nullifications = [], st_views = [], st_leaders = [], st_mempool = [],
      st_l_notarizations = [], st_l_notarizations_by_height = []\<rparr>"

definition put_value ::
    "env \<Rightarrow> string \<Rightarrow> bytes \<Rightarrow> 'v \<Rightarrow> (bytes \<times> 'v) list \<Rightarrow> (bytes \<times> 'v) list result" where
  "put_value E table key v t =
     (if redb_write_ok E table key then Inr (bt_insert key v t) else Inl StorageFailed)"

definition get_blob_value :: "(bytes \<times> 'v) list \<Rightarrow> bytes \<Rightarrow> 'v option result" where
  "get_blob_value t key = Inr (map_of t key)"

subsection \<open>Blocks\<close>

definition put_finalized_block :: "env \<Rightarrow> block \<Rightarrow> store \<Rightarrow> store result" where
  "put_finalized_block E b st =
     map_sum id (\<lambda>t. st\<lparr>st_finalized_blocks := t\<rparr>)
       (put_value E ''finalized_blocks'' (get_hash E b) b (st_finalized_blocks st))"

definition get_finalized_block :: "hash \<Rightarrow> store \<Rightarrow> block option result" where
  "get_finalized_block h st = get_blob_value (st_finalized_blocks st) h"

definition get_all_finalized_blocks :: "store \<Rightarrow> block list" where
  "get_all_finalized_blocks st = sort_key b_view (map snd (st_finalized_blocks st))"

definition has_finalized_blocks :: "store \<Rightarrow> bool" where
  "has_finalized_blocks st = (st_finalized_blocks st \<noteq> [])"

definition count_finalized_blocks :: "store \<Rightarrow> nat" where
  "count_finalized_blocks st = length (st_finalized_blocks st)"

fun latest_step :: "block \<Rightarrow> block option \<times> view_no \<Rightarrow> block option \<times> view_no" where
  "latest_step b (latest, highest) =
     (if b_view b \<ge> highest then (Some b, b_view b) else (latest, highest))"

definition get_latest_finalized_block :: "store \<Rightarrow> block option" where
  "get_latest_finalized_block st = fst (fold latest_step (map snd (st_finalized_blocks st)) (None, 0))"

definition get_finalized_block_by_height :: "nat \<Rightarrow> store \<Rightarrow> block option" where
  "get_finalized_block_by_height height st =
     List.find (\<lambda>b. b_height b = height) (map snd (st_finalized_blocks st))"

definition get_finalized_blocks_in_range :: "nat \<Rightarrow> nat \<Rightarrow> nat \<Rightarrow> store \<Rightarrow> block list \<times> bool" where
  "get_finalized_blocks_in_range from_height to_height limit st =
     (let blocks = sort_key b_height
            (filter (\<lambda>b. from_height \<le> b_height b \<and> b_height b \<le> to_height)
                    (map snd (st_finalized_blocks st)))
      in (take limit blocks, length blocks > limit))"

definition put_non_finalized_block :: "env \<Rightarrow> block \<Rightarrow> store \<Rightarrow> store result" where
  "put_non_finalized_block E b st =
     map_sum id (\<lambda>t. st\<lparr>st_non_finalized_blocks := t\<rparr>)
       (put_value E ''non_finalized_blocks'' (get_hash E b) b (st_non_finalized_blocks st))"

definition get_non_finalized_block :: "hash \<Rightarrow> store \<Rightarrow> block option result" where
  "get_non_finalized_block h st = get_blob_value (st_non_finalized_blocks st) h"

definition put_nullified_block :: "env \<Rightarrow> block \<Rightarrow> store \<Rightarrow> store result" where
  "put_nullified_block E b st =
     map_sum id (\<lambda>t. st\<lparr>st_nullified_blocks := t\<rparr>)
       (put_value E ''nullified_blocks'' (get_hash E b) b (st_nullified_blocks st))"

definition get_nullified_block :: "hash \<Rightarrow> store \<Rightarrow> block option result" where
  "get_nullified_block h st = get_blob_value (st_nullified_blocks st) h"

subsection \<open>Votes, notarizations, nullifications, views, leaders, transactions\<close>

definition put_vote :: "env \<Rightarrow> vote \<Rightarrow> store \<Rightarrow> store result" where
  "put_vote E v st = map_sum id (\<lambda>t. st\<lparr>st_votes := t\<rparr>)
     (put_value E ''votes'' (vote_db_key E v) v (st_votes st))"

definition get_vote :: "bytes \<Rightarrow> store \<Rightarrow> vote option result" where
  "get_vote k st = get_blob_value (st_votes st) k"

definition put_leader :: "env \<Rightarrow> leader \<Rightarrow> store \<Rightarrow> store result" where
  "put_leader E l st = map_sum id (\<lambda>t. st\<lparr>st_leaders := t\<rparr>)
     (put_value E ''leaders'' (view_db_key (l_view l)) l (st_leaders st))"

definition get_leader :: "view_no \<Rightarrow> store \<Rightarrow> leader option result" where
  "get_leader v st = get_blob_value (st_leaders st) (view_db_key v)"

definition put_view :: "env \<Rightarrow> view \<Rightarrow> store \<Rightarrow> store result" where
  "put_view E v st = map_sum id (\<lambda>t. st\<lparr>st_views := t\<rparr>)
     (put_value E ''views'' (view_db_key (view_view v)) v (st_views st))"

definition get_view :: "view_no \<Rightarrow> store \<Rightarrow> view option result" where
  "get_view v st = get_blob_value (st_views st) (view_db_key v)"

definition put_transaction :: "env \<Rightarrow> transaction \<Rightarrow> store \<Rightarrow> store result" where
  "put_transaction E tx st = map_sum id (\<lambda>t. st\<lparr>st_mempool := t\<rparr>)
     (put_value E ''mempool'' (tx_hash tx) tx (st_mempool st))"

definition get_transaction :: "hash \<Rightarrow> store \<Rightarrow> transaction option result" where
  "get_transaction h st = get_blob_value (st_mempool st) h"

definition put_notarization :: "env \<Rightarrow> m_notarization \<Rightarrow> store \<Rightarrow> store result" where
  "put_notarization E m st = map_sum id (\<lambda>t. st\<lparr>st_notarizations := t\<rparr>)
     (put_value E ''notarizations'' (mn_block_hash m) m (st_notarizations st))"

definition get_notarization :: "hash \<Rightarrow> store \<Rightarrow> m_notarization option result" where
  "get_notarization h st = get_blob_value (st_notarizations st) h"

text \<open>Two transactions: the first stays committed when the second fails.\<close>

definition put_l_notarization :: "env \<Rightarrow> l_notarization \<Rightarrow> store \<Rightarrow> error option \<times> store" where
  "put_l_notarization E l st = run_writes
     [\<lambda>st. map_sum id (\<lambda>t. st\<lparr>st_l_notarizations := t\<rparr>)
         (put_value E ''l_notarizations'' (ln_block_hash l) l (st_l_notarizations st)),
      \<lambda>st. if redb_write_ok E ''l_notarizations_by_height'' (view_db_key (ln_height l))
           then Inr (st\<lparr>st_l_notarizations_by_height :=
                  bt_insert (ln_height l) (ln_block_hash l) (st_l_notarizations_by_height st)\<rparr>)
           else Inl StorageFailed] st"

definition get_l_notarization :: "hash \<Rightarrow> store \<Rightarrow> l_notarization option result" where
  "get_l_notarization h st = get_blob_value (st_l_notarizations st) h"

definition get_l_notarization_by_height :: "nat \<Rightarrow> store \<Rightarrow> l_notarization option result" where
  "get_l_notarization_by_height height st =
     (case map_of (st_l_notarizations_by_height st) height of
        None \<Rightarrow> Inr None
      | Some h \<Rightarrow> get_l_notarization h st)"

definition opt_table :: "(bytes \<times> 'v) list option \<Rightarrow> (bytes \<times> 'v) list" where
  "opt_table t = (case t of Some t \<Rightarrow> t | None \<Rightarrow> [])"

definition put_nullify :: "env \<Rightarrow> nullify \<Rightarrow> store \<Rightarrow> store result" where
  "put_nullify E n st = map_sum id (\<lambda>t. st\<lparr>st_nullifies := Some t\<rparr>)
     (put_value E ''nullifies'' (view_db_key (nf_view n)) n (opt_table (st_nullifies st)))"

definition get_nullify :: "view_no \<Rightarrow> store \<Rightarrow> nullify option result" where
  "get_nullify v st = (case st_nullifies st of
      None \<Rightarrow> Inl StorageFailed | Some t \<Rightarrow> get_blob_value t (view_db_key v))"

definition put_nullification :: "env \<Rightarrow> nullification \<Rightarrow> store \<Rightarrow> store result" where
  "put_nullification E n st = map_sum id (\<lambda>t. st\<lparr>st_nullifications := t\<rparr>)
     (put_value E ''nullifications'' (view_db_key (nfn_view n)) n (st_nullifications st))"

definition get_nullification :: "view_no \<Rightarrow> store \<Rightarrow> nullification option result" where
  "get_nullification v st = get_blob_value (st_nullifications st) (view_db_key v)"

definition put_account :: "env \<Rightarrow> account \<Rightarrow> store \<Rightarrow> store result" where
  "put_account E a st = map_sum id (\<lambda>t. st\<lparr>st_accounts := Some t\<rparr>)
     (put_value E ''accounts'' (a_public_key a) a (opt_table (st_accounts st)))"

definition get_account :: "bytes \<Rightarrow> store \<Rightarrow> account option result" where
  "get_account pk st = (case st_accounts st of
      None \<Rightarrow> Inl StorageFailed | Some t \<Rightarrow> get_blob_value t pk)"

text \<open>One transaction: it commits all accounts or none.\<close>

definition batch_put_accounts :: "env \<Rightarrow> account list \<Rightarrow> store \<Rightarrow> store result" where
  "batch_put_accounts E accounts st =
     (if list_all (\<lambda>a. redb_write_ok E ''accounts'' (a_public_key a)) accounts
      then Inr (st\<lparr>st_accounts := Some (fold (\<lambda>a t. bt_insert (a_public_key a) a t) accounts
                                            (opt_table (st_accounts st)))\<rparr>)
      else Inl StorageFailed)"

subsection \<open>Reading back what was written\<close>

text \<open>The type invariant: every table is sorted by its key.\<close>

definition store_inv :: "store \<Rightarrow> bool" where
  "store_inv st \<longleftrightarrow> bt_invar (opt_table (st_accounts st)) \<and> bt_invar (st_finalized_blocks st)
     \<and> bt_invar (st_non_finalized_blocks st) \<and> bt_invar (st_nullified_blocks st)
     \<and> bt_invar (st_votes st) \<and> bt_invar (st_notarizations st) \<and> bt_invar (opt_table (st_nullifies st))
     \<and> bt_invar (st_nullifications st) \<and> bt_invar (st_views st) \<and> bt_invar (st_leaders st)
     \<and> bt_invar (st_mempool st) \<and> bt_invar (st_l_notarizations st)
     \<and> bt_invar (st_l_notarizations_by_height st)"

lemma store_inv_init: "store_inv init_tables"
  by (simp add: store_inv_def init_tables_def opt_table_def bt.invar_empty)

lemmas put_defs = put_finalized_block_def put_non_finalized_block_def put_nullified_block_def
  put_vote_def put_leader_def put_view_def put_transaction_def put_notarization_def
  put_nullify_def put_nullification_def put_account_def put_value_def

lemma opt_table_Some [simp]: "opt_table (Some t) = t"
  by (simp add: opt_table_def)

lemma put_store_inv:
  assumes "store_inv st"
  shows "put_finalized_block E b st = Inr st' \<Longrightarrow> store_inv st'"
    and "put_non_finalized_block E b st = Inr st' \<Longrightarrow> store_inv st'"
    and "put_nullified_block E b st = Inr st' \<Longrightarrow> store_inv st'"
    and "put_vote E v st = Inr st' \<Longrightarrow> store_inv st'"
    and "put_leader E l st = Inr st' \<Longrightarrow> store_inv st'"
    and "put_view E vw st = Inr st' \<Longrightarrow> store_inv st'"
    and "put_transaction E tx st = Inr st' \<Longrightarrow> store_inv st'"
    and "put_notarization E m st = Inr st' \<Longrightarrow> store_inv st'"
    and "put_nullify E n st = Inr st' \<Longrightarrow> store_inv st'"
    and "put_nullification E nn st = Inr st' \<Longrightarrow> store_inv st'"
    and "put_account E a st = Inr st' \<Longrightarrow> store_inv st'"
  using assms by (auto simp: put_defs store_inv_def bt_invar_insert split: if_splits)

lemma get_account_put_account:
  "put_account E a st = Inr st' \<Longrightarrow>
   get_account k st' = Inr (if k = a_public_key a then Some a
     else map_of (opt_table (st_accounts st)) k)"
  by (auto simp: put_account_def put_value_def get_account_def get_blob_value_def map_of_bt_insert
      split: if_splits)

text \<open>Every table of the store returns the last value written under a key, in particular a
  block under its hash in the table it was put into, a vote under the hash of its view, block and
  voter, an M-notarization under its block, a nullification under its view and an account under
  its public key.\<close>

theorem store_roundtrip:
  "(\<forall>st'. put_finalized_block E b st = Inr st' \<longrightarrow> get_finalized_block (get_hash E b) st' = Inr (Some b))
   \<and> (\<forall>st'. put_non_finalized_block E b st = Inr st' \<longrightarrow> get_non_finalized_block (get_hash E b) st' = Inr (Some b))
   \<and> (\<forall>st'. put_nullified_block E b st = Inr st' \<longrightarrow> get_nullified_block (get_hash E b) st' = Inr (Some b))
   \<and> (\<forall>st'. put_vote E v st = Inr st' \<longrightarrow> get_vote (vote_db_key E v) st' = Inr (Some v))
   \<and> (\<forall>st'. put_notarization E m st = Inr st' \<longrightarrow> get_notarization (mn_block_hash m) st' = Inr (Some m))
   \<and> (\<forall>st'. put_nullify E n st = Inr st' \<longrightarrow> get_nullify (nf_view n) st' = Inr (Some n))
   \<and> (\<forall>st'. put_nullification E nn st = Inr st' \<longrightarrow> get_nullification (nfn_view nn) st' = Inr (Some nn))
   \<and> (\<forall>st'. put_account E a st = Inr st' \<longrightarrow> get_account (a_public_key a) st' = Inr (Some a))"
  by (auto simp: put_defs get_finalized_block_def get_non_finalized_block_def get_nullified_block_def
      get_vote_def get_notarization_def get_nullify_def get_nullification_def get_account_def
      get_blob_value_def map_of_bt_insert split: if_splits)

theorem store_roundtrip_witness:
  "\<exists>st'. put_account toy_env \<lparr>a_public_key = [1], a_balance = 5, a_nonce = 0\<rparr> init_tables = Inr st'
    \<and> get_account [1] st' = Inr (Some \<lparr>a_public_key = [1], a_balance = 5, a_nonce = 0\<rparr>)"
proof -
  let ?a = "\<lparr>a_public_key = [1], a_balance = 5, a_nonce = 0\<rparr> :: account"
  obtain st' where "put_account toy_env ?a init_tables = Inr st'"
    by (simp add: put_account_def put_value_def toy_env_def)
  with store_roundtrip [of toy_env undefined init_tables undefined undefined undefined undefined ?a] show ?thesis
    by auto
qed

text \<open>The finality proof of a block is found by its height as soon as \<open>put_l_notarization\<close> has
  succeeded, unless another proof was stored for the same block hash.\<close>

theorem l_notarization_by_height_roundtrip:
  assumes "put_l_notarization E l st = (None, st')"
  shows "get_l_notarization_by_height (ln_height l) st' = Inr (Some l)
    \<and> (\<forall>h. h \<noteq> ln_height l \<and> map_of (st_l_notarizations_by_height st) h \<noteq> Some (ln_block_hash l) \<longrightarrow>
         get_l_notarization_by_height h st' = get_l_notarization_by_height h st)"
  using assms
  by (auto simp: put_l_notarization_def put_value_def get_l_notarization_by_height_def
      get_l_notarization_def get_blob_value_def map_of_bt_insert split: if_splits option.splits)

theorem l_notarization_by_height_roundtrip_witness:
  "\<exists>st'. put_l_notarization toy_env
      \<lparr>ln_view = 4, ln_block_hash = [2], ln_aggregated_signature = 1, ln_peer_ids = [1], ln_height = 3\<rparr> init_tables
        = (None, st')
    \<and> get_l_notarization_by_height 3 st' = Inr (Some
      \<lparr>ln_view = 4, ln_block_hash = [2], ln_aggregated_signature = 1, ln_peer_ids = [1], ln_height = 3\<rparr>)"
proof -
  let ?l = "\<lparr>ln_view = 4, ln_block_hash = [2], ln_aggregated_signature = 1, ln_peer_ids = [1], ln_height = 3\<rparr>"
  obtain st' where "put_l_notarization toy_env ?l init_tables = (None, st')"
    by (simp add: put_l_notarization_def put_value_def toy_env_def)
  with l_notarization_by_height_roundtrip [OF this] show ?thesis by auto
qed

subsection \<open>Queries\<close>

lemma latest_fold:
  "(case r of None \<Rightarrow> hi = 0 | Some b \<Rightarrow> b_view b = hi) \<Longrightarrow>
   case fold latest_step bs (r, hi) of (r', hi') \<Rightarrow> hi \<le> hi' \<and> list_all (\<lambda>b. b_view b \<le> hi') bs
     \<and> (case r' of None \<Rightarrow> r = None \<and> bs = [] | Some b \<Rightarrow> b_view b = hi' \<and> (b \<in> set bs \<or> r = Some b))"
proof (induction bs arbitrary: r hi)
  case (Cons b bs)
  show ?case
  proof (cases "hi \<le> b_view b")
    case True
    then show ?thesis using Cons.IH [where r = "Some b" and hi = "b_view b"] by (auto split: option.splits prod.splits)
  next
    case False
    then have "r \<noteq> None" using Cons.prems by (cases r) auto
    with False show ?thesis using Cons.IH [OF Cons.prems] by (auto split: option.splits prod.splits)
  qed
qed (simp split: option.splits)

text \<open>\<open>get_latest_finalized_block\<close> returns a stored finalized block of the highest view, and
  nothing exactly when the table is empty.\<close>

theorem latest_finalized_block_spec:
  "case get_latest_finalized_block st of
      None \<Rightarrow> \<not> has_finalized_blocks st
    | Some b \<Rightarrow> b \<in> set (map snd (st_finalized_blocks st))
        \<and> list_all (\<lambda>b'. b_view b' \<le> b_view b) (map snd (st_finalized_blocks st))"
  using latest_fold [where r = None and hi = 0 and bs = "map snd (st_finalized_blocks st)"]
  by (simp add: get_latest_finalized_block_def has_finalized_blocks_def split: prod.splits option.splits)

text \<open>The paginated range query returns the stored blocks of that range, in order of height, at
  most \<open>limit\<close> of them; the flag tells exactly whether some were left out.\<close>

theorem blocks_in_range_spec:
  "let (bs, more) = get_finalized_blocks_in_range lo hi limit st;
       all = filter (\<lambda>b. lo \<le> b_height b \<and> b_height b \<le> hi) (map snd (st_finalized_blocks st))
   in sorted (map b_height bs) \<and> length bs = min limit (length all) \<and> set bs \<subseteq> set all
      \<and> (more \<longleftrightarrow> length bs < length all) \<and> (more \<or> set bs = set all)"
proof -
  let ?all = "filter (\<lambda>b. lo \<le> b_height b \<and> b_height b \<le> hi) (map snd (st_finalized_blocks st))"
  let ?s = "sort_key b_height ?all"
  have res: "get_finalized_blocks_in_range lo hi limit st = (take limit ?s, length ?s > limit)"
    by (simp add: get_finalized_blocks_in_range_def Let_def)
  have "sorted (map b_height (take limit ?s))"
    by (simp add: take_map [symmetric] sorted_wrt_take)
  moreover have "set (take limit ?s) \<subseteq> set ?all" using set_take_subset [of limit ?s] by simp
  moreover have "limit < length ?s \<or> set (take limit ?s) = set ?all" by (cases "limit < length ?s") simp_all
  moreover have "length (take limit ?s) = min limit (length ?all)" "limit < length ?s \<longleftrightarrow> length (take limit ?s) < length ?all"
    by auto
  ultimately show ?thesis unfolding res Let_def prod.case by blast
qed

end
