(* ===== verification/Pending_State.thy ===== *)
theory Pending_State
  imports Storage
begin

text \<open>
  Pending state (\<open>validation/pending_state.rs\<close>): the diffs of M-notarized blocks that are not yet
  final, kept by a single writer that publishes immutable snapshots to readers. A snapshot holds
  the diffs but only a reference to the database, so what a reader computes depends on the store at
  the time of the read: readers take the store as an argument.
\<close>

subsection \<open>Effective account state\<close>

record account_state =
  as_balance :: u64
  as_nonce :: u64
  as_exists :: bool

definition apply_update :: "account_update \<Rightarrow> account_state \<Rightarrow> account_state" where
  "apply_update u s =
     s\<lparr>as_balance := (if au_balance_delta u \<ge> 0
          then saturating_add (as_balance s) (word_of_int (au_balance_delta u))
          else saturating_sub (as_balance s) (word_of_int (- au_balance_delta u))),
       as_nonce := au_new_nonce u\<rparr>"

text \<open>One iteration of the loop of \<open>PendingStateSnapshot::get_account\<close>: an explicit creation resets
  the account; an update applies to an existing account, or creates it when it receives funds.\<close>

definition update_state :: "account_update \<Rightarrow> account_state option \<Rightarrow> account_state option" where
  "update_state u state = (case state of
      Some s \<Rightarrow> Some (apply_update u s)
    | None \<Rightarrow> if au_balance_delta u > 0
        then Some \<lparr>as_balance = word_of_int (au_balance_delta u), as_nonce = au_new_nonce u,
                   as_exists = True\<rparr>
        else None)"

definition overlay_diff :: "address \<Rightarrow> state_diff \<Rightarrow> account_state option \<Rightarrow> account_state option" where
  "overlay_diff addr d state =
     (let state1 = (case List.find (\<lambda>c. na_address c = addr) (sd_created_accounts d) of
            Some c \<Rightarrow> Some \<lparr>as_balance = na_initial_balance c, as_nonce = 0, as_exists = True\<rparr>
          | None \<Rightarrow> state)
      in case map_of (sd_updates d) addr of
           None \<Rightarrow> state1
         | Some u \<Rightarrow> update_state u state1)"

subsection \<open>Snapshots\<close>

record snapshot =
  sn_pending_diffs :: "(view_no \<times> state_diff) list"
  sn_last_finalized_view :: view_no
  sn_has_store :: bool

definition snapshot_new :: "view_no \<Rightarrow> snapshot" where
  "snapshot_new last_finalized_view =
     \<lparr>sn_pending_diffs = [], sn_last_finalized_view = last_finalized_view, sn_has_store = True\<rparr>"

definition snapshot_empty :: snapshot where
  "snapshot_empty = \<lparr>sn_pending_diffs = [], sn_last_finalized_view = 0, sn_has_store = False\<rparr>"

definition fetch_from_db :: "env \<Rightarrow> snapshot \<Rightarrow> store \<Rightarrow> address \<Rightarrow> account_state option" where
  "fetch_from_db E sn st addr =
     (if \<not> sn_has_store sn then None
      else case to_public_key E addr of
        None \<Rightarrow> None
      | Some pk \<Rightarrow> (case get_account pk st of
            Inr (Some a) \<Rightarrow> Some \<lparr>as_balance = a_balance a, as_nonce = a_nonce a, as_exists = True\<rparr>
          | _ \<Rightarrow> None))"

definition snapshot_get_account :: "env \<Rightarrow> snapshot \<Rightarrow> store \<Rightarrow> address \<Rightarrow> account_state option" where
  "snapshot_get_account E sn st addr =
     fold (overlay_diff addr) (map snd (sn_pending_diffs sn)) (fetch_from_db E sn st addr)"

definition pending_count :: "snapshot \<Rightarrow> nat" where
  "pending_count sn = length (sn_pending_diffs sn)"

subsection \<open>The writer\<close>

record writer =
  pw_shared :: snapshot
  pw_pending_diffs :: "(view_no \<times> state_diff) list"
  pw_last_finalized_view :: view_no
  pw_store :: store

definition writer_new :: "store \<Rightarrow> view_no \<Rightarrow> writer" where
  "writer_new st last_finalized_view =
     \<lparr>pw_shared = snapshot_new last_finalized_view, pw_pending_diffs = [],
      pw_last_finalized_view = last_finalized_view, pw_store = st\<rparr>"

definition publish_snapshot :: "writer \<Rightarrow> writer" where
  "publish_snapshot w =
     w\<lparr>pw_shared := \<lparr>sn_pending_diffs = pw_pending_diffs w,
                     sn_last_finalized_view = pw_last_finalized_view w, sn_has_store = True\<rparr>\<rparr>"

definition add_m_notarized_diff :: "view_no \<Rightarrow> state_diff \<Rightarrow> writer \<Rightarrow> writer" where
  "add_m_notarized_diff view d w =
     (if view > pw_last_finalized_view w
      then publish_snapshot (w\<lparr>pw_pending_diffs := bt_insert view d (pw_pending_diffs w)\<rparr>)
      else w)"

definition create_account_write :: "env \<Rightarrow> new_account \<Rightarrow> store \<Rightarrow> store result" where
  "create_account_write E c st = (case to_public_key E (na_address c) of
      None \<Rightarrow> Inr st
    | Some pk \<Rightarrow> put_account E (account_new pk (na_initial_balance c) 0) st)"

definition update_account_write :: "env \<Rightarrow> address \<times> account_update \<Rightarrow> store \<Rightarrow> store result" where
  "update_account_write E au st = (case au of (addr, u) \<Rightarrow>
     (case to_public_key E addr of
        None \<Rightarrow> Inr st
      | Some pk \<Rightarrow> (case get_account pk st of
            Inr (Some a) \<Rightarrow>
              put_account E (a\<lparr>a_balance := (if au_balance_delta u \<ge> 0
                  then saturating_add (a_balance a) (word_of_int (au_balance_delta u))
                  else saturating_sub (a_balance a) (word_of_int (- au_balance_delta u))),
                a_nonce := au_new_nonce u\<rparr>) st
          | _ \<Rightarrow> if au_balance_delta u > 0
              then put_account E (account_new pk (word_of_int (au_balance_delta u)) (au_new_nonce u)) st
              else Inr st)))"

definition apply_diff_to_db :: "env \<Rightarrow> state_diff \<Rightarrow> store \<Rightarrow> error option \<times> store" where
  "apply_diff_to_db E d st =
     run_writes (map (create_account_write E) (sd_created_accounts d)
                 @ map (update_account_write E) (sd_updates d)) st"

text \<open>The loop of \<open>finalize_up_to\<close>: a diff whose write fails has already been popped.\<close>

fun finalize_loop ::
    "env \<Rightarrow> view_no \<Rightarrow> (view_no \<times> state_diff) list \<Rightarrow> store
      \<Rightarrow> error option \<times> (view_no \<times> state_diff) list \<times> store" where
  "finalize_loop E view [] st = (None, [], st)"
| "finalize_loop E view ((v, d) # ds) st =
     (if v > view then (None, (v, d) # ds, st)
      else case apply_diff_to_db E d st of
             (Some e, st') \<Rightarrow> (Some e, ds, st')
           | (None, st') \<Rightarrow> finalize_loop E view ds st')"

definition finalize_up_to :: "env \<Rightarrow> view_no \<Rightarrow> writer \<Rightarrow> unit result \<times> writer" where
  "finalize_up_to E view w =
     (case finalize_loop E view (pw_pending_diffs w) (pw_store w) of
        (Some e, ds, st) \<Rightarrow> (Inl e, w\<lparr>pw_pending_diffs := ds, pw_store := st\<rparr>)
      | (None, ds, st) \<Rightarrow>
          (Inr (), publish_snapshot (w\<lparr>pw_pending_diffs := ds, pw_store := st,
             pw_last_finalized_view := (if view > pw_last_finalized_view w then view
                                        else pw_last_finalized_view w)\<rparr>)))"

definition remove_nullified_view :: "view_no \<Rightarrow> writer \<Rightarrow> writer" where
  "remove_nullified_view view w =
     (if map_of (pw_pending_diffs w) view \<noteq> None
      then publish_snapshot (w\<lparr>pw_pending_diffs := AList.delete view (pw_pending_diffs w)\<rparr>)
      else w)"

definition rollback_after :: "view_no \<Rightarrow> writer \<Rightarrow> writer" where
  "rollback_after view w =
     (let ds = filter (\<lambda>e. fst e \<le> view) (pw_pending_diffs w)
      in if length ds \<noteq> length (pw_pending_diffs w)
         then publish_snapshot (w\<lparr>pw_pending_diffs := ds\<rparr>) else w\<lparr>pw_pending_diffs := ds\<rparr>)"

definition reader_get_account :: "env \<Rightarrow> writer \<Rightarrow> address \<Rightarrow> account_state option" where
  "reader_get_account E w addr = snapshot_get_account E (pw_shared w) (pw_store w) addr"

subsection \<open>Genesis accounts\<close>

record genesis_account =
  ga_public_key :: string
  ga_balance :: u64

definition pk_from_str :: "env \<Rightarrow> string \<Rightarrow> bytes option" where
  "pk_from_str E s = (case hex_decode E s of
      None \<Rightarrow> None
    | Some bs \<Rightarrow> if length bs = 32 \<and> ed_valid_key E bs then Some bs else None)"

definition initialize_genesis_accounts :: "env \<Rightarrow> genesis_account list \<Rightarrow> store \<Rightarrow> store result" where
  "initialize_genesis_accounts E gas st =
     (case those (map (\<lambda>ga. pk_from_str E (ga_public_key ga)) gas) of
        None \<Rightarrow> Inl (Panic UnwrapOnNone)
      | Some pks \<Rightarrow> batch_put_accounts E
          (map (\<lambda>(pk, ga). account_new pk (ga_balance ga) 0) (zip pks gas)) st)"

subsection \<open>What a state diff does to an account\<close>

text \<open>The contract shared by everything that absorbs state diffs (the database and the published
  snapshots): an account is afterwards what the overlay of the diff makes of it.\<close>

locale account_store =
  fixes lookup :: "'s \<Rightarrow> address \<Rightarrow> account_state option"
    and absorb :: "state_diff \<Rightarrow> 's \<Rightarrow> 's"
    and good :: "'s \<Rightarrow> bool"
    and good_diff :: "state_diff \<Rightarrow> bool"
    and addr_ok :: "address \<Rightarrow> bool"
  assumes lookup_absorb:
      "good s \<Longrightarrow> good_diff d \<Longrightarrow> addr_ok a \<Longrightarrow> lookup (absorb d s) a = overlay_diff a d (lookup s a)"
    and good_absorb: "good s \<Longrightarrow> good_diff d \<Longrightarrow> good (absorb d s)"
begin

lemma good_absorbs: "good s \<Longrightarrow> list_all good_diff ds \<Longrightarrow> good (fold absorb ds s)"
  by (induction ds arbitrary: s) (auto simp: good_absorb)

lemma lookup_absorbs:
  "good s \<Longrightarrow> list_all good_diff ds \<Longrightarrow> addr_ok a \<Longrightarrow>
   lookup (fold absorb ds s) a = fold (overlay_diff a) ds (lookup s a)"
  by (induction ds arbitrary: s) (auto simp: lookup_absorb good_absorb)

end

text \<open>Diffs as the validator builds them name each account at most once per list.\<close>

definition wf_diff :: "state_diff \<Rightarrow> bool" where
  "wf_diff d \<longleftrightarrow> hm_invar (sd_updates d) \<and> distinct (map na_address (sd_created_accounts d))"

definition writes_ok :: "env \<Rightarrow> bool" where
  "writes_ok E \<longleftrightarrow> (\<forall>t k. redb_write_ok E t k)"

definition accounts_keyed :: "store \<Rightarrow> bool" where
  "accounts_keyed st \<longleftrightarrow> (\<forall>k a. map_of (opt_table (st_accounts st)) k = Some a \<longrightarrow> a_public_key a = k)"

definition db_account :: "env \<Rightarrow> store \<Rightarrow> address \<Rightarrow> account_state option" where
  "db_account E st addr = fetch_from_db E (snapshot_new 0) st addr"

lemma db_account_eq:
  "db_account E st a = (if ed_valid_key E a then map_option
     (\<lambda>x. \<lparr>as_balance = a_balance x, as_nonce = a_nonce x, as_exists = True\<rparr>)
     (map_of (opt_table (st_accounts st)) a) else None)"
  by (auto simp: db_account_def fetch_from_db_def snapshot_new_def to_public_key_def get_account_def
      get_blob_value_def opt_table_def split: option.splits)

lemma get_account_eq:
  "get_account k st = Inr (Some x) \<longleftrightarrow> map_of (opt_table (st_accounts st)) k = Some x"
  by (auto simp: get_account_def get_blob_value_def opt_table_def split: option.splits)

lemma put_account_ok:
  assumes "writes_ok E" and "accounts_keyed st"
  shows "\<exists>st'. put_account E x st = Inr st' \<and> accounts_keyed st'
    \<and> map_of (opt_table (st_accounts st')) = (map_of (opt_table (st_accounts st)))(a_public_key x \<mapsto> x)"
  using assms by (auto simp: put_account_def put_value_def writes_ok_def accounts_keyed_def map_of_bt_insert)

lemma create_account_write_spec:
  assumes "writes_ok E" and "accounts_keyed st" and "ed_valid_key E a"
  shows "\<exists>st'. create_account_write E c st = Inr st' \<and> accounts_keyed st' \<and> db_account E st' a
    = (if a = na_address c
       then Some \<lparr>as_balance = na_initial_balance c, as_nonce = 0, as_exists = True\<rparr>
       else db_account E st a)"
  using put_account_ok [OF assms(1,2), of "account_new (na_address c) (na_initial_balance c) 0"] assms(2,3)
  by (auto simp: create_account_write_def to_public_key_def db_account_eq account_new_def)

lemma update_account_write_spec:
  assumes "writes_ok E" and "accounts_keyed st" and "ed_valid_key E a"
  shows "\<exists>st'. update_account_write E (b, u) st = Inr st' \<and> accounts_keyed st'
    \<and> db_account E st' a = (if a = b then update_state u (db_account E st a) else db_account E st a)"
proof (cases "ed_valid_key E b")
  case True
  show ?thesis
  proof (cases "map_of (opt_table (st_accounts st)) b")
    case None
    then have "\<nexists>x. get_account b st = Inr (Some x)" by (simp add: get_account_eq)
    with None True assms show ?thesis
      using put_account_ok [OF assms(1,2), of "account_new b (word_of_int (au_balance_delta u)) (au_new_nonce u)"]
      by (auto simp: update_account_write_def to_public_key_def db_account_eq account_new_def update_state_def
          split: sum.splits option.splits)
  next
    case (Some x)
    then have x: "get_account b st = Inr (Some x)" "a_public_key x = b"
      using assms(2) by (auto simp: get_account_eq accounts_keyed_def)
    let ?x = "x\<lparr>a_balance := (if au_balance_delta u \<ge> 0
        then saturating_add (a_balance x) (word_of_int (au_balance_delta u))
        else saturating_sub (a_balance x) (word_of_int (- au_balance_delta u))), a_nonce := au_new_nonce u\<rparr>"
    from put_account_ok [OF assms(1,2), of ?x] x Some True assms(3) show ?thesis
      by (auto simp: update_account_write_def to_public_key_def db_account_eq update_state_def apply_update_def)
  qed
next
  case False
  with assms show ?thesis by (auto simp: update_account_write_def to_public_key_def)
qed

lemma run_writes_fold:
  assumes "\<And>x s. x \<in> set xs \<Longrightarrow> I s \<Longrightarrow> \<exists>s'. w x s = Inr s' \<and> I s' \<and> L s' = f x (L s)" and "I s"
  shows "\<exists>s'. run_writes (map w xs) s = (None, s') \<and> I s' \<and> L s' = fold f xs (L s)"
  using assms
proof (induction xs arbitrary: s)
  case (Cons x xs)
  obtain s' where s': "w x s = Inr s'" "I s'" "L s' = f x (L s)"
    using Cons.prems(1) [of x s] Cons.prems(2) by auto
  obtain s'' where "run_writes (map w xs) s' = (None, s'')" "I s''" "L s'' = fold f xs (L s')"
    using Cons.IH [of s'] Cons.prems(1) s'(2) by auto
  with s' show ?case by auto
qed simp

lemma fold_find:
  "distinct (map k cs) \<Longrightarrow>
   fold (\<lambda>c x. if a = k c then g c else x) cs x = (case List.find (\<lambda>c. k c = a) cs of Some c \<Rightarrow> g c | None \<Rightarrow> x)"
proof (induction cs arbitrary: x)
  case (Cons c cs)
  have "List.find (\<lambda>c'. k c' = a) cs = None" if "k c = a"
    using Cons.prems that by (auto simp: find_None_iff intro: rev_image_eqI)
  with Cons show ?case by auto
qed simp

lemma fold_map_of:
  "distinct (map fst us) \<Longrightarrow>
   fold (\<lambda>au x. if a = fst au then g (snd au) x else x) us x = (case map_of us a of Some u \<Rightarrow> g u x | None \<Rightarrow> x)"
proof (induction us arbitrary: x)
  case (Cons au us)
  have "map_of us a = None" if "fst au = a"
    using Cons.prems that by (auto simp: map_of_eq_None_iff)
  with Cons show ?case by auto
qed simp

lemma apply_diff_to_db_spec:
  assumes "writes_ok E" and "wf_diff d" and "accounts_keyed st" and "ed_valid_key E a"
  shows "\<exists>st'. apply_diff_to_db E d st = (None, st') \<and> accounts_keyed st'
    \<and> db_account E st' a = overlay_diff a d (db_account E st a)"
proof -
  let ?new = "\<lambda>c. Some \<lparr>as_balance = na_initial_balance c, as_nonce = 0, as_exists = True\<rparr>"
  obtain s1 where s1: "run_writes (map (create_account_write E) (sd_created_accounts d)) st = (None, s1)"
      "accounts_keyed s1"
      "db_account E s1 a = fold (\<lambda>c x. if a = na_address c then ?new c else x) (sd_created_accounts d) (db_account E st a)"
    using run_writes_fold [of "sd_created_accounts d" accounts_keyed "create_account_write E"
        "\<lambda>s. db_account E s a" "\<lambda>c x. if a = na_address c then ?new c else x" st]
      create_account_write_spec [OF assms(1) _ assms(4)] assms(3) by blast
  obtain s2 where s2: "run_writes (map (update_account_write E) (sd_updates d)) s1 = (None, s2)"
      "accounts_keyed s2"
      "db_account E s2 a = fold (\<lambda>au x. if a = fst au then update_state (snd au) x else x) (sd_updates d) (db_account E s1 a)"
    using run_writes_fold [of "sd_updates d" accounts_keyed "update_account_write E"
        "\<lambda>s. db_account E s a" "\<lambda>au x. if a = fst au then update_state (snd au) x else x" s1]
      update_account_write_spec [OF assms(1) _ assms(4)] s1(2) by force
  have d: "distinct (map na_address (sd_created_accounts d))" "distinct (map fst (sd_updates d))"
    using assms(2) by (auto simp: wf_diff_def hm_invar_def)
  have "db_account E s2 a = overlay_diff a d (db_account E st a)"
    unfolding s2(3) s1(3) fold_find [OF d(1)] fold_map_of [OF d(2)] overlay_diff_def
    by (simp add: Let_def split: option.splits)
  moreover have "apply_diff_to_db E d st = (None, s2)"
    by (simp add: apply_diff_to_db_def run_writes_append s1(1) s2(1))
  ultimately show ?thesis using s2(2) by blast
qed

interpretation db: account_store "db_account E" "\<lambda>d st. snd (apply_diff_to_db E d st)" accounts_keyed
    "\<lambda>d. wf_diff d \<and> writes_ok E \<and> (\<exists>a. ed_valid_key E a)" "ed_valid_key E" for E
  by unfold_locales (use apply_diff_to_db_spec in fastforce)+

subsection \<open>Published snapshots\<close>

text \<open>The representation invariant of a writer: diffs sorted by view, all later than the last
  finalized view, and the published snapshot up to date.\<close>

definition writer_inv :: "writer \<Rightarrow> bool" where
  "writer_inv w \<longleftrightarrow> bt_invar (pw_pending_diffs w)
     \<and> (\<forall>v \<in> fst ` set (pw_pending_diffs w). pw_last_finalized_view w < v)
     \<and> pw_shared w = \<lparr>sn_pending_diffs = pw_pending_diffs w,
         sn_last_finalized_view = pw_last_finalized_view w, sn_has_store = True\<rparr>"

lemma writer_inv_new: "writer_inv (writer_new st v)"
  by (simp add: writer_inv_def writer_new_def snapshot_new_def bt.invar_empty)

lemma writer_inv_add: "writer_inv w \<Longrightarrow> writer_inv (add_m_notarized_diff view d w)"
  by (auto simp: writer_inv_def add_m_notarized_diff_def publish_snapshot_def bt_invar_insert
      dest!: in_bt_insertD)

lemma writer_inv_remove: "writer_inv w \<Longrightarrow> writer_inv (remove_nullified_view view w)"
  by (auto simp: writer_inv_def remove_nullified_view_def publish_snapshot_def bt_invar_filter
      AList.delete_eq)

lemma writer_inv_rollback: "writer_inv w \<Longrightarrow> writer_inv (rollback_after view w)"
  by (auto simp: writer_inv_def rollback_after_def publish_snapshot_def bt_invar_filter Let_def
      filter_same_length)

lemma reader_get_account_eq:
  "writer_inv w \<Longrightarrow> reader_get_account E w a
     = fold (overlay_diff a) (map snd (pw_pending_diffs w)) (db_account E (pw_store w) a)"
  by (simp add: reader_get_account_def snapshot_get_account_def writer_inv_def db_account_def
      fetch_from_db_def snapshot_new_def)

lemma bt_insert_last:
  "\<forall>k' \<in> fst ` set m. k' < k \<Longrightarrow> bt_insert k v m = m @ [(k, v)]"
  by (induction m) (auto dest: less_imp_neq simp: not_less_iff_gr_or_eq)

text \<open>A fresh view for the next diff.\<close>

definition next_view :: "writer \<Rightarrow> view_no" where
  "next_view w = Suc (Max (insert (pw_last_finalized_view w) (fst ` set (pw_pending_diffs w))))"

lemma next_view_fresh:
  "pw_last_finalized_view w < next_view w" "\<forall>v \<in> fst ` set (pw_pending_diffs w). v < next_view w"
  unfolding next_view_def by (auto simp: less_Suc_eq_le)

text \<open>Readers of the published snapshot see every new diff exactly as the database would after
  absorbing it.\<close>

interpretation sn: account_store "reader_get_account E" "\<lambda>d w. add_m_notarized_diff (next_view w) d w"
    writer_inv "\<lambda>d. True" "\<lambda>a. True" for E
proof unfold_locales
  fix w d a assume w: "writer_inv w"
  then show "writer_inv (add_m_notarized_diff (next_view w) d w)" by (rule writer_inv_add)
  then have "reader_get_account E (add_m_notarized_diff (next_view w) d w) a
      = fold (overlay_diff a) (map snd (pw_pending_diffs (add_m_notarized_diff (next_view w) d w)))
          (db_account E (pw_store w) a)"
    by (subst reader_get_account_eq) (auto simp: add_m_notarized_diff_def publish_snapshot_def)
  then show "reader_get_account E (add_m_notarized_diff (next_view w) d w) a
      = overlay_diff a d (reader_get_account E w a)"
    using next_view_fresh [of w] w
    by (simp add: reader_get_account_eq add_m_notarized_diff_def publish_snapshot_def bt_insert_last)
qed

subsection \<open>Finalization\<close>

lemma finalize_loop_spec:
  assumes "writes_ok E" and "\<exists>a. ed_valid_key E a" and "accounts_keyed st" and "bt_invar ds"
    and "list_all (\<lambda>e. wf_diff (snd e)) ds"
  shows "finalize_loop E view ds st =
    (None, filter (\<lambda>e. fst e > view) ds,
     fold (\<lambda>d st. snd (apply_diff_to_db E d st)) (map snd (filter (\<lambda>e. fst e \<le> view) ds)) st)"
  using assms(3-5)
proof (induction ds arbitrary: st)
  case (Cons e ds)
  obtain v d where e: "e = (v, d)" by (cases e)
  have sub: "bt_invar ds" "\<forall>v' \<in> fst ` set ds. v < v'"
    using Cons.prems(2) e by (auto simp: bt_invar_def)
  show ?case
  proof (cases "v > view")
    case True
    then have "filter (\<lambda>e. fst e > view) ds = ds" "filter (\<lambda>e. fst e \<le> view) ds = []"
      using sub(2) by (fastforce simp: filter_id_conv filter_empty_conv)+
    with True e show ?thesis by simp
  next
    case False
    obtain a where "ed_valid_key E a" using assms(2) by blast
    from apply_diff_to_db_spec [OF assms(1) _ Cons.prems(1) this, of d] Cons.prems(3) e
    obtain st' where st': "apply_diff_to_db E d st = (None, st')" "accounts_keyed st'" by auto
    from Cons.IH [OF st'(2) sub(1)] Cons.prems(3) False e st'(1) show ?thesis by simp
  qed
qed simp

lemma bt_split:
  "bt_invar ds \<Longrightarrow> ds = filter (\<lambda>e. fst e \<le> view) ds @ filter (\<lambda>e. view < fst e) ds" for view :: nat
proof (induction ds)
  case (Cons e ds)
  then have sub: "bt_invar ds" "\<forall>v' \<in> fst ` set ds. fst e < v'" by (auto simp: bt_invar_def)
  show ?case
  proof (cases "fst e \<le> view")
    case True
    with Cons.IH [OF sub(1)] show ?thesis by simp
  next
    case False
    with sub(2) have "filter (\<lambda>e. fst e \<le> view) ds = []" "filter (\<lambda>e. view < fst e) ds = ds"
      by (fastforce simp: filter_id_conv filter_empty_conv)+
    with False show ?thesis by simp
  qed
qed simp

text \<open>C19: finalization does not change what readers see. When the database accepts the writes,
  \<open>finalize_up_to\<close> succeeds, moves the diffs of all views up to the given one into the database,
  keeps the later ones pending, raises the finalized view, and every account that has a public key
  has the same effective balance and nonce as before.\<close>

theorem finalize_up_to_preserves_accounts:
  assumes "writer_inv w" and "writes_ok E" and "accounts_keyed (pw_store w)"
    and "list_all (\<lambda>e. wf_diff (snd e)) (pw_pending_diffs w)" and "ed_valid_key E a"
  shows "\<exists>w'. finalize_up_to E view w = (Inr (), w') \<and> writer_inv w'
    \<and> pw_pending_diffs w' = filter (\<lambda>e. view < fst e) (pw_pending_diffs w)
    \<and> pw_last_finalized_view w' = max view (pw_last_finalized_view w)
    \<and> reader_get_account E w' a = reader_get_account E w a"
proof -
  let ?ds = "pw_pending_diffs w"
  let ?old = "filter (\<lambda>e. fst e \<le> view) ?ds" and ?new = "filter (\<lambda>e. view < fst e) ?ds"
  let ?st = "fold (\<lambda>d st. snd (apply_diff_to_db E d st)) (map snd ?old) (pw_store w)"
  have s: "bt_invar ?ds" using assms(1) by (simp add: writer_inv_def)
  have loop: "finalize_loop E view ?ds (pw_store w) = (None, ?new, ?st)"
    using finalize_loop_spec [OF assms(2) _ assms(3) s assms(4), of view] assms(5) by auto
  define w' where "w' = snd (finalize_up_to E view w)"
  have w': "finalize_up_to E view w = (Inr (), w')" "pw_pending_diffs w' = ?new" "pw_store w' = ?st"
    "pw_last_finalized_view w' = max view (pw_last_finalized_view w)"
    by (auto simp: w'_def finalize_up_to_def loop publish_snapshot_def max_def)
  have inv: "writer_inv w'"
    using s w'(2,4) assms(1) bt_invar_filter [OF s]
    by (auto simp: writer_inv_def w'_def finalize_up_to_def loop publish_snapshot_def)
  have split: "?ds = ?old @ ?new"
    using s by (rule bt_split)
  have "db_account E ?st a = fold (overlay_diff a) (map snd ?old) (db_account E (pw_store w) a)"
    using assms by (intro db.lookup_absorbs) (auto simp: list_all_iff)
  then have "reader_get_account E w' a = reader_get_account E w a"
    unfolding reader_get_account_eq [OF inv] reader_get_account_eq [OF assms(1)] w'(2,3)
    by (subst (2) split) simp
  with w' inv show ?thesis by blast
qed

text \<open>A writer for the witnesses: account \<open>[1]\<close> holds 50 in the database; the pending diff of view 3
  moves 5 of it to \<open>[2]\<close> and 1 to \<open>[7, 7]\<close>, which is not a public key.\<close>

definition toy_diff :: state_diff where
  "toy_diff = add_balance_change [7, 7] 1 0 (add_balance_change [2] 5 0 (add_balance_change [1] (- 6) 1 state_diff_new))"

definition toy_store :: store where
  "toy_store = init_tables\<lparr>st_accounts := Some [([1], \<lparr>a_public_key = [1], a_balance = 50, a_nonce = 0\<rparr>)]\<rparr>"

definition toy_writer :: writer where
  "toy_writer = add_m_notarized_diff 3 toy_diff (writer_new toy_store 0)"

lemma toy_writer_ok:
  "writer_inv toy_writer" "writes_ok toy_env" "accounts_keyed (pw_store toy_writer)"
  "list_all (\<lambda>e. wf_diff (snd e)) (pw_pending_diffs toy_writer)"
proof -
  show "writer_inv toy_writer" unfolding toy_writer_def by (intro writer_inv_add writer_inv_new)
  show "writes_ok toy_env" by (simp add: writes_ok_def toy_env_def)
  show "accounts_keyed (pw_store toy_writer)"
    by (simp add: accounts_keyed_def toy_writer_def add_m_notarized_diff_def publish_snapshot_def writer_new_def
        toy_store_def)
  have "hm_invar (sd_updates toy_diff)"
    unfolding toy_diff_def by (intro distinct_add_balance_change) (simp add: state_diff_new_def hm.invar_empty)
  moreover have "sd_created_accounts toy_diff = []"
    by (simp add: toy_diff_def add_balance_change_def state_diff_new_def)
  ultimately show "list_all (\<lambda>e. wf_diff (snd e)) (pw_pending_diffs toy_writer)"
    by (simp add: wf_diff_def toy_writer_def add_m_notarized_diff_def publish_snapshot_def writer_new_def)
qed

theorem finalize_up_to_preserves_accounts_witness:
  "\<exists>w'. finalize_up_to toy_env 3 toy_writer = (Inr (), w') \<and> pw_pending_diffs w' = []
    \<and> reader_get_account toy_env w' [1] = reader_get_account toy_env toy_writer [1]
    \<and> reader_get_account toy_env toy_writer [1] = Some \<lparr>as_balance = 44, as_nonce = 1, as_exists = True\<rparr>"
proof -
  have k: "ed_valid_key toy_env [1]" by (simp add: toy_env_def)
  have "filter (\<lambda>e. 3 < fst e) (pw_pending_diffs toy_writer) = []" by code_simp
  moreover have "reader_get_account toy_env toy_writer [1] = Some \<lparr>as_balance = 44, as_nonce = 1, as_exists = True\<rparr>"
    by code_simp
  ultimately show ?thesis using finalize_up_to_preserves_accounts [OF toy_writer_ok k, of 3] by auto
qed

lemma db_account_no_key: "\<not> ed_valid_key E a \<Longrightarrow> db_account E st a = None"
  by (simp add: db_account_eq)

text \<open>An address that is not a public key loses its funds when the block that paid it becomes
  final. Validation credits any 32 bytes and readers see the credit while it is pending, but
  \<open>apply_diff_to_db\<close> skips such addresses, so after \<open>finalize_up_to\<close> the account only has what later
  pending diffs give it, and without those it does not exist.\<close>

theorem finalize_drops_keyless_account:
  assumes "writer_inv w" and "writes_ok E" and "accounts_keyed (pw_store w)"
    and "list_all (\<lambda>e. wf_diff (snd e)) (pw_pending_diffs w)"
    and "ed_valid_key E k" and "\<not> ed_valid_key E a"
    and "finalize_up_to E view w = (Inr (), w')"
  shows "reader_get_account E w' a =
    fold (overlay_diff a) (map snd (filter (\<lambda>e. view < fst e) (pw_pending_diffs w))) None"
proof -
  have loop: "finalize_loop E view (pw_pending_diffs w) (pw_store w) =
    (None, filter (\<lambda>e. fst e > view) (pw_pending_diffs w),
     fold (\<lambda>d st. snd (apply_diff_to_db E d st))
       (map snd (filter (\<lambda>e. fst e \<le> view) (pw_pending_diffs w))) (pw_store w))"
    using assms(1-5) by (intro finalize_loop_spec) (auto simp: writer_inv_def)
  have w': "w' = snd (finalize_up_to E view w)" using assms(7) by simp
  show ?thesis
    unfolding w' reader_get_account_def snapshot_get_account_def
    using assms(6)
    by (simp add: finalize_up_to_def loop publish_snapshot_def fetch_from_db_def to_public_key_def)
qed

theorem finalize_drops_keyless_account_witness:
  "\<exists>w'. finalize_up_to toy_env 3 toy_writer = (Inr (), w')
    \<and> reader_get_account toy_env toy_writer [7, 7] = Some \<lparr>as_balance = 1, as_nonce = 0, as_exists = True\<rparr>
    \<and> reader_get_account toy_env w' [7, 7] = None"
proof -
  define w' where "w' = snd (finalize_up_to toy_env 3 toy_writer)"
  have "fst (finalize_up_to toy_env 3 toy_writer) = Inr ()" by code_simp
  then have w': "finalize_up_to toy_env 3 toy_writer = (Inr (), w')" by (simp add: w'_def prod_eq_iff)
  have k: "ed_valid_key toy_env [1]" "\<not> ed_valid_key toy_env [7, 7]" by (simp_all add: toy_env_def)
  have "filter (\<lambda>e. 3 < fst e) (pw_pending_diffs toy_writer) = []" by code_simp
  moreover have "reader_get_account toy_env toy_writer [7, 7] = Some \<lparr>as_balance = 1, as_nonce = 0, as_exists = True\<rparr>"
    by code_simp
  ultimately show ?thesis
    using finalize_drops_keyless_account [OF toy_writer_ok k w'] w' by auto
qed

text \<open>Between the database writes of \<open>finalize_up_to\<close> and the publication of the new snapshot, a
  reader overlays the finalized diffs a second time: the old snapshot still holds them, but reads
  the database that has already absorbed them (the comment on \<open>publish_snapshot\<close> says readers never
  see partial state).\<close>

theorem reader_sees_diffs_twice:
  assumes "writer_inv w" and "writes_ok E" and "accounts_keyed (pw_store w)"
    and "list_all (\<lambda>e. wf_diff (snd e)) (pw_pending_diffs w)" and "ed_valid_key E a"
    and "finalize_loop E view (pw_pending_diffs w) (pw_store w) = (None, ds, st)"
  shows "snapshot_get_account E (pw_shared w) st a =
    fold (overlay_diff a) (map snd (filter (\<lambda>e. fst e \<le> view) (pw_pending_diffs w) @ pw_pending_diffs w))
      (db_account E (pw_store w) a)"
proof -
  let ?old = "filter (\<lambda>e. fst e \<le> view) (pw_pending_diffs w)"
  have "st = fold (\<lambda>d st. snd (apply_diff_to_db E d st)) (map snd ?old) (pw_store w)"
    using finalize_loop_spec [OF assms(2) _ assms(3) _ assms(4), of view] assms(1,5,6)
    by (auto simp: writer_inv_def)
  moreover have "db_account E \<dots> a = fold (overlay_diff a) (map snd ?old) (db_account E (pw_store w) a)"
    using assms by (intro db.lookup_absorbs) (auto simp: list_all_iff)
  ultimately show ?thesis
    using assms(1) by (simp add: snapshot_get_account_def writer_inv_def db_account_def fetch_from_db_def
        snapshot_new_def)
qed

theorem reader_sees_diffs_twice_witness:
  "\<exists>ds st. finalize_loop toy_env 3 (pw_pending_diffs toy_writer) (pw_store toy_writer) = (None, ds, st)
    \<and> map_option as_balance (reader_get_account toy_env toy_writer [2]) = Some 5
    \<and> map_option as_balance (snapshot_get_account toy_env (pw_shared toy_writer) st [2]) = Some 10"
proof -
  obtain r ds st where l: "finalize_loop toy_env 3 (pw_pending_diffs toy_writer) (pw_store toy_writer) = (r, ds, st)"
    by (metis prod_cases3)
  have "fst (finalize_loop toy_env 3 (pw_pending_diffs toy_writer) (pw_store toy_writer)) = None" by code_simp
  with l have l: "finalize_loop toy_env 3 (pw_pending_diffs toy_writer) (pw_store toy_writer) = (None, ds, st)" by simp
  have k: "ed_valid_key toy_env [2]" by (simp add: toy_env_def)
  have "map_option as_balance (fold (overlay_diff [2]) (map snd (filter (\<lambda>e. fst e \<le> 3) (pw_pending_diffs toy_writer)
      @ pw_pending_diffs toy_writer)) (db_account toy_env (pw_store toy_writer) [2])) = Some 10" by code_simp
  moreover have "map_option as_balance (reader_get_account toy_env toy_writer [2]) = Some 5" by code_simp
  ultimately show ?thesis using reader_sees_diffs_twice [OF toy_writer_ok k l] l by auto
qed

subsection \<open>Runs of the writer\<close>

lemma finalize_loop_pending:
  "bt_invar ds \<Longrightarrow> finalize_loop E view ds st = (None, ds', st') \<Longrightarrow> ds' = filter (\<lambda>e. view < fst e) ds"
proof (induction E view ds st rule: finalize_loop.induct)
  case (2 E view v d ds st)
  then have sub: "bt_invar ds" "\<forall>v' \<in> fst ` set ds. v < v'" by (auto simp: bt_invar_def)
  show ?case
  proof (cases "v > view")
    case True
    then have "filter (\<lambda>e. view < fst e) ds = ds" using sub(2) by (fastforce simp: filter_id_conv)
    with True 2(3) show ?thesis by auto
  next
    case False
    with 2 sub show ?thesis by (auto split: prod.splits option.splits)
  qed
qed simp

lemma writer_inv_finalize:
  assumes "writer_inv w" and "finalize_up_to E view w = (Inr (), w')"
  shows "writer_inv w'"
proof -
  have s: "bt_invar (pw_pending_diffs w)" using assms(1) by (simp add: writer_inv_def)
  obtain ds st where l: "finalize_loop E view (pw_pending_diffs w) (pw_store w) = (None, ds, st)"
    and w': "w' = snd (finalize_up_to E view w)"
    using assms(2) by (auto simp: finalize_up_to_def split: prod.splits option.splits)
  from finalize_loop_pending [OF s l] bt_invar_filter [OF s] assms(1) show ?thesis
    unfolding w' by (auto simp: writer_inv_def finalize_up_to_def l publish_snapshot_def)
qed

inductive pw_step :: "env \<Rightarrow> writer \<Rightarrow> writer \<Rightarrow> bool" for E where
  add: "pw_step E w (add_m_notarized_diff view d w)"
| final: "finalize_up_to E view w = (Inr (), w') \<Longrightarrow> pw_step E w w'"
| remove: "pw_step E w (remove_nullified_view view w)"
| rollback: "pw_step E w (rollback_after view w)"

interpretation pwm: invariant_machine "\<lambda>w. \<exists>st v. w = writer_new st v" "pw_step E" writer_inv for E
  by unfold_locales
    (auto simp: writer_inv_new writer_inv_add writer_inv_remove writer_inv_rollback
      elim!: pw_step.cases intro: writer_inv_finalize)

text \<open>C20: in every run in which the finalizations succeed, the pending diffs are sorted by view, all
  belong to views after the last finalized one, and the published snapshot is the writer's own
  state, so readers never lag behind the writer.\<close>

theorem pending_state_invariant:
  assumes "(pw_step E)\<^sup>*\<^sup>* (writer_new st v) w"
  shows "writer_inv w"
  using pwm.inv_reachable [OF _ assms] by blast

theorem pending_state_invariant_witness:
  "(pw_step toy_env)\<^sup>*\<^sup>* (writer_new toy_store 0) toy_writer \<and> writer_inv toy_writer
    \<and> map fst (sn_pending_diffs (pw_shared toy_writer)) = [3]"
proof -
  have r: "(pw_step toy_env)\<^sup>*\<^sup>* (writer_new toy_store 0) toy_writer"
    unfolding toy_writer_def by (rule r_into_rtranclp) (rule pw_step.add)
  moreover have "map fst (sn_pending_diffs (pw_shared toy_writer)) = [3]" by code_simp
  ultimately show ?thesis using pending_state_invariant [OF r] by blast
qed

end
