(* ===== verification/Persistence.thy ===== *)
theory Persistence
  imports View_Context Pending_State
begin

text \<open>
  What a view leaves in the database when it is garbage collected: the persistence functions of
  \<open>consensus_manager/view_chain.rs\<close> and the wrappers of \<open>PendingStateWriter\<close> they write through.
  Each is a sequence of writes that stops at the first failure and keeps what was written before
  it; \<open>unwrap\<close> on a leader without a key is \<open>Panic LeaderKeyMissing\<close>.
\<close>

subsection \<open>Writes through the pending-state writer\<close>

type_synonym wop = "writer \<Rightarrow> unit result \<times> writer"

definition db_write :: "(store \<Rightarrow> store result) \<Rightarrow> wop" where
  "db_write f w = (case f (pw_store w) of
      Inl e \<Rightarrow> (Inl e, w)
    | Inr st \<Rightarrow> (Inr (), w\<lparr>pw_store := st\<rparr>))"

definition write_l_notarization :: "env \<Rightarrow> l_notarization \<Rightarrow> wop" where
  "write_l_notarization E l w = (case put_l_notarization E l (pw_store w) of
      (Some e, st) \<Rightarrow> (Inl e, w\<lparr>pw_store := st\<rparr>)
    | (None, st) \<Rightarrow> (Inr (), w\<lparr>pw_store := st\<rparr>))"

definition fail_with :: "error \<Rightarrow> wop" where
  "fail_with e w = (Inl e, w)"

text \<open>\<open>View::new\<close> with the leader's key and the write of it.\<close>

definition write_view :: "env \<Rightarrow> peer_set \<Rightarrow> view_no \<Rightarrow> peer_id \<Rightarrow> bool \<Rightarrow> bool \<Rightarrow> wop" where
  "write_view E P view_number leader_id is_current nullified =
     (case map_of (id_to_public_key P) leader_id of
        None \<Rightarrow> fail_with (Panic LeaderKeyMissing)
      | Some pk \<Rightarrow> db_write (put_view E \<lparr>view_view = view_number, view_leader = pk,
          view_is_current = is_current, view_nullified = nullified\<rparr>))"

definition write_leader :: "env \<Rightarrow> view_no \<Rightarrow> peer_id \<Rightarrow> wop" where
  "write_leader E view_number leader_id =
     db_write (put_leader E \<lparr>l_peer_id = leader_id, l_view = view_number\<rparr>)"

definition opt_write :: "('a \<Rightarrow> wop) \<Rightarrow> 'a option \<Rightarrow> wop list" where
  "opt_write f x = (case x of Some a \<Rightarrow> [f a] | None \<Rightarrow> [])"

definition remove_diff :: "view_no \<Rightarrow> wop" where
  "remove_diff view w = (Inr (), remove_nullified_view view w)"

subsection \<open>The four ways a view is persisted\<close>

text \<open>The transactions of a block and the block itself, marked as finalized.\<close>

definition write_finalized_block :: "env \<Rightarrow> block \<Rightarrow> wop list" where
  "write_finalized_block E b =
     map (\<lambda>tx. db_write (put_transaction E tx)) (b_transactions b)
     @ [db_write (put_finalized_block E (b\<lparr>b_is_finalized := True\<rparr>))]"

definition l_notarization_of :: "env \<Rightarrow> view_context \<Rightarrow> hash \<Rightarrow> nat \<Rightarrow> l_notarization" where
  "l_notarization_of E ctx h height =
     \<lparr>ln_view = vc_view_number ctx, ln_block_hash = h,
      ln_aggregated_signature = aggregate_signatures E (map v_signature (vc_votes ctx)),
      ln_peer_ids = map v_peer_id (vc_votes ctx), ln_height = height\<rparr>"

definition persist_l_notarized_view :: "env \<Rightarrow> peer_set \<Rightarrow> view_context \<Rightarrow> wop" where
  "persist_l_notarized_view E P ctx =
     run_ops (finalize_up_to E (vc_view_number ctx) #
       (case vc_block ctx of
          None \<Rightarrow> [fail_with NoBlock]
        | Some b \<Rightarrow> write_finalized_block E b @
            (case vc_block_hash ctx of
               None \<Rightarrow> [fail_with NoBlockHash]
             | Some h \<Rightarrow>
                 (case vc_m_notarization ctx of
                    None \<Rightarrow> [fail_with NoMNotarization]
                  | Some m \<Rightarrow> [db_write (put_notarization E m)])
                 @ [write_leader E (vc_view_number ctx) (vc_leader_id ctx),
                    write_view E P (vc_view_number ctx) (vc_leader_id ctx) True False]
                 @ map (\<lambda>v. db_write (put_vote E v)) (vc_votes ctx)
                 @ [write_l_notarization E (l_notarization_of E ctx h (b_height b))])))"

definition persist_m_notarized_view :: "env \<Rightarrow> peer_set \<Rightarrow> view_context \<Rightarrow> wop" where
  "persist_m_notarized_view E P ctx =
     run_ops
       ((case vc_block ctx of None \<Rightarrow> [] | Some b \<Rightarrow> write_finalized_block E b)
        @ (case vc_m_notarization ctx of
             None \<Rightarrow> [fail_with NoMNotarization]
           | Some m \<Rightarrow> [db_write (put_notarization E m)])
        @ [write_leader E (vc_view_number ctx) (vc_leader_id ctx),
           write_view E P (vc_view_number ctx) (vc_leader_id ctx) True False]
        @ map (\<lambda>v. db_write (put_vote E v)) (vc_votes ctx))"

definition persist_nullified_view :: "env \<Rightarrow> peer_set \<Rightarrow> view_context \<Rightarrow> wop" where
  "persist_nullified_view E P ctx =
     (if vc_nullification ctx = None \<and> \<not> vc_has_nullified ctx then fail_with NoNullification
      else run_ops
        ([remove_diff (vc_view_number ctx)]
         @ opt_write (\<lambda>b. db_write (put_nullified_block E b)) (vc_block ctx)
         @ opt_write (\<lambda>n. db_write (put_nullification E n)) (vc_nullification ctx)
         @ [write_leader E (vc_view_number ctx) (vc_leader_id ctx),
            write_view E P (vc_view_number ctx) (vc_leader_id ctx) False True]
         @ map (\<lambda>v. db_write (put_vote E v)) (vc_votes ctx)
         @ map (\<lambda>n. db_write (put_nullify E n)) (vc_nullify_messages ctx)))"

definition persist_nullified_view_or_metadata :: "env \<Rightarrow> peer_set \<Rightarrow> view_context \<Rightarrow> wop" where
  "persist_nullified_view_or_metadata E P ctx =
     (if vc_nullification ctx \<noteq> None \<or> vc_has_nullified ctx then persist_nullified_view E P ctx
      else run_ops
        ([remove_diff (vc_view_number ctx)]
         @ opt_write (\<lambda>b. db_write (put_nullified_block E b)) (vc_block ctx)
         @ opt_write (\<lambda>m. db_write (put_notarization E m)) (vc_m_notarization ctx)
         @ [write_leader E (vc_view_number ctx) (vc_leader_id ctx),
            write_view E P (vc_view_number ctx) (vc_leader_id ctx) False True]
         @ map (\<lambda>v. db_write (put_vote E v)) (vc_votes ctx)))"

text \<open>One view of \<open>persist_all_views\<close> (graceful shutdown).\<close>

definition persist_view_on_shutdown :: "env \<Rightarrow> view_no \<Rightarrow> view_context \<Rightarrow> wop" where
  "persist_view_on_shutdown E view_number ctx =
     run_ops
       (opt_write (\<lambda>d w. (Inr (), add_m_notarized_diff view_number d w)) (vc_state_diff ctx)
        @ opt_write (\<lambda>b. db_write (put_non_finalized_block E b)) (vc_block ctx)
        @ opt_write (\<lambda>m. db_write (put_notarization E m)) (vc_m_notarization ctx)
        @ opt_write (\<lambda>n. db_write (put_nullification E n)) (vc_nullification ctx)
        @ map (\<lambda>v. db_write (put_vote E v)) (vc_votes ctx))"

end
