(* ===== verification/View_Chain.thy ===== *)
theory View_Chain
  imports Persistence
begin

text \<open>
  The chain of non-finalized views (\<open>consensus_manager/view_chain.rs\<close>): routing of messages to the
  context of their view, acceptance of proposals along the parent chain, view changes,
  finalization with garbage collection, and block recovery. The state is a record; operations
  return their \<open>Result\<close> with the state they leave. The order of the association list stands for
  the iteration order of the \<open>HashMap\<close>. Finalization follows parent hashes in a \<open>while\<close> loop that
  the code does not bound: it is a partial function, and \<open>None\<close> is a call that never returns.
\<close>

record view_chain =
  ch_current_view :: view_no
  ch_views :: "(view_no \<times> view_context) list"
  ch_writer :: writer
  ch_committed_hash :: hash
  ch_recovery :: "(view_no \<times> hash) list"

definition view_chain_new :: "env \<Rightarrow> view_context \<Rightarrow> writer \<Rightarrow> view_chain" where
  "view_chain_new E initial_view w =
     \<lparr>ch_current_view = vc_view_number initial_view,
      ch_views = [(vc_view_number initial_view, initial_view)],
      ch_writer = w, ch_committed_hash = genesis_hash E, ch_recovery = []\<rparr>"

subsection \<open>Access\<close>

definition find_view_context :: "view_no \<Rightarrow> view_chain \<Rightarrow> view_context option" where
  "find_view_context v s = map_of (ch_views s) v"

definition current :: "view_chain \<Rightarrow> view_context result" where
  "current s = (case map_of (ch_views s) (ch_current_view s) of
      None \<Rightarrow> Inl (Panic MissingCurrentView) | Some ctx \<Rightarrow> Inr ctx)"

definition set_ctx :: "view_no \<Rightarrow> view_context \<Rightarrow> view_chain \<Rightarrow> view_chain" where
  "set_ctx v ctx s = s\<lparr>ch_views := AList.update v ctx (ch_views s)\<rparr>"

definition non_finalized_count :: "view_chain \<Rightarrow> nat" where
  "non_finalized_count s = length (ch_views s)"

fun min_key :: "(view_no \<times> 'a) list \<Rightarrow> view_no option" where
  "min_key [] = None"
| "min_key ((v, _) # m) = (case min_key m of None \<Rightarrow> Some v | Some u \<Rightarrow> Some (min v u))"

definition oldest_active_view :: "view_chain \<Rightarrow> view_no" where
  "oldest_active_view s = (case min_key (ch_views s) of None \<Rightarrow> ch_current_view s | Some v \<Rightarrow> v)"

text \<open>The inclusive range is the pair of its bounds.\<close>

definition non_finalized_view_numbers_range :: "view_chain \<Rightarrow> view_no \<times> view_no" where
  "non_finalized_view_numbers_range s = (oldest_active_view s, ch_current_view s)"

definition non_finalized_views_until :: "view_no \<Rightarrow> view_chain \<Rightarrow> (view_no \<times> view_no) option" where
  "non_finalized_views_until v s =
     (let upper_bound = min v (ch_current_view s)
      in case min_key (ch_views s) of
           None \<Rightarrow> None
         | Some least \<Rightarrow> if least > upper_bound then None else Some (least, upper_bound))"

definition find_parent_view :: "hash \<Rightarrow> view_chain \<Rightarrow> view_no option" where
  "find_parent_view parent_hash s =
     map_option fst (List.find (\<lambda>e. vc_block_hash (snd e) = Some parent_hash) (ch_views s))"

definition is_nullified :: "view_context \<Rightarrow> bool" where
  "is_nullified ctx \<longleftrightarrow> vc_nullification ctx \<noteq> None \<or> vc_has_nullified ctx"

text \<open>The views strictly between a parent and a view, where the chain still has them, are all
  nullified (by a proof or locally).\<close>

definition intermediates_nullified :: "view_no \<Rightarrow> view_no \<Rightarrow> view_chain \<Rightarrow> bool" where
  "intermediates_nullified parent_view v s \<longleftrightarrow>
     list_all (\<lambda>u. case map_of (ch_views s) u of None \<Rightarrow> True | Some ctx \<Rightarrow> is_nullified ctx)
       [parent_view + 1..<v]"

definition oldest_finalizable_view :: "cfg \<Rightarrow> view_chain \<Rightarrow> (view_no \<times> hash) result option" where
  "oldest_finalizable_view c s =
     (let candidates = sort (map fst (filter (\<lambda>(v, ctx). length (vc_votes ctx) \<ge> cN c - cF c
              \<and> vc_block ctx \<noteq> None \<and> vc_nullification ctx = None \<and> \<not> vc_has_nullified ctx)
            (ch_views s)));
          parent_valid = (\<lambda>v b. case find_parent_view (b_parent b) s of
              Some p \<Rightarrow> (case map_of (ch_views s) p of
                  None \<Rightarrow> False
                | Some pctx \<Rightarrow> vc_m_notarization pctx \<noteq> None \<and> vc_block pctx \<noteq> None
                    \<and> intermediates_nullified p v s)
            | None \<Rightarrow> b_parent b = ch_committed_hash s);
          ready = (\<lambda>v. v < ch_current_view s \<and>
            (case map_of (ch_views s) v of
               None \<Rightarrow> False
             | Some ctx \<Rightarrow> (case vc_block ctx of None \<Rightarrow> False | Some b \<Rightarrow> parent_valid v b)))
      in case List.find ready candidates of
           None \<Rightarrow> None
         | Some v \<Rightarrow> (case map_of (ch_views s) v of
               None \<Rightarrow> Some (Inl (Panic UnwrapOnNone))
             | Some ctx \<Rightarrow> (case vc_block_hash ctx of
                   None \<Rightarrow> Some (Inl (Panic UnwrapOnNone))
                 | Some h \<Rightarrow> Some (Inr (v, h)))))"

definition select_parent_step ::
    "view_no \<Rightarrow> view_no \<times> view_context \<Rightarrow> (view_no \<times> hash) option \<Rightarrow> (view_no \<times> hash) option" where
  "select_parent_step new_view e best = (case e of (v, ctx) \<Rightarrow>
     if is_nullified ctx then best
     else case vc_m_notarization ctx of
       None \<Rightarrow> best
     | Some m \<Rightarrow>
         if v < new_view then
           (case best of
              None \<Rightarrow> Some (v, mn_block_hash m)
            | Some (u, _) \<Rightarrow> if v > u then Some (v, mn_block_hash m) else best)
         else best)"

definition select_parent :: "view_no \<Rightarrow> view_chain \<Rightarrow> hash" where
  "select_parent new_view s =
     (case fold (select_parent_step new_view) (ch_views s) None of
        Some (_, h) \<Rightarrow> h | None \<Rightarrow> ch_committed_hash s)"

subsection \<open>Blocks from elsewhere\<close>

definition add_recovered_block ::
    "env \<Rightarrow> cfg \<Rightarrow> view_no \<Rightarrow> block \<Rightarrow> view_chain \<Rightarrow> bool result \<times> view_chain" where
  "add_recovered_block E c view b s =
     (case map_of (ch_views s) view of
        None \<Rightarrow> (Inl ViewUnknown, s)
      | Some ctx \<Rightarrow>
          if vc_block ctx \<noteq> None then (Inr False, s)
          else case vc_block_hash ctx of
            None \<Rightarrow> (Inl NoBlockHash, s)
          | Some expected \<Rightarrow>
              if get_hash E b \<noteq> expected then (Inl RecoveredHashMismatch, s)
              else (Inr (length (vc_votes ctx) \<ge> cN c - cF c \<and> \<not> is_nullified ctx),
                    set_ctx view (ctx\<lparr>vc_block := Some b\<rparr>) s))"

definition get_block_for_view :: "view_no \<Rightarrow> view_chain \<Rightarrow> block option" where
  "get_block_for_view view s =
     (case Option.bind (map_of (ch_views s) view) vc_block of
        Some b \<Rightarrow> Some b
      | None \<Rightarrow> get_finalized_block_by_height view (pw_store (ch_writer s)))"

definition ok_flatten :: "'a option result \<Rightarrow> 'a option" where
  "ok_flatten r = (case r of Inr (Some a) \<Rightarrow> Some a | _ \<Rightarrow> None)"

definition get_block_for_recovery :: "view_no \<Rightarrow> hash \<Rightarrow> view_chain \<Rightarrow> block option" where
  "get_block_for_recovery view h s =
     (let st = pw_store (ch_writer s)
      in case Option.bind (map_of (ch_views s) view) vc_block of
           Some b \<Rightarrow> Some b
         | None \<Rightarrow> (case get_finalized_block_by_height view st of
               Some b \<Rightarrow> Some b
             | None \<Rightarrow> (case ok_flatten (get_nullified_block h st) of
                   Some b \<Rightarrow> Some b
                 | None \<Rightarrow> ok_flatten (get_non_finalized_block h st))))"

definition on_m_notarization :: "view_no \<Rightarrow> view_chain \<Rightarrow> view_chain" where
  "on_m_notarization v s =
     (case map_of (ch_views s) v of
        Some ctx \<Rightarrow> (case (vc_m_notarization ctx, vc_state_diff ctx) of
            (Some _, Some d) \<Rightarrow> s\<lparr>ch_writer := add_m_notarized_diff v d (ch_writer s)\<rparr>
          | _ \<Rightarrow> s)
      | None \<Rightarrow> s)"

definition store_state_diff :: "view_no \<Rightarrow> state_diff \<Rightarrow> view_chain \<Rightarrow> view_chain" where
  "store_state_diff v d s =
     (case map_of (ch_views s) v of
        None \<Rightarrow> s
      | Some ctx \<Rightarrow>
          let s1 = set_ctx v (ctx\<lparr>vc_state_diff := Some d\<rparr>) s
          in if vc_m_notarization ctx \<noteq> None \<and> v < ch_current_view s
             then s1\<lparr>ch_writer := add_m_notarized_diff v d (ch_writer s1)\<rparr> else s1)"

subsection \<open>Proposals\<close>

text \<open>The parent checks of \<open>add_block_proposal\<close>: whether the block has to wait for its parent's
  M-notarization.\<close>

definition proposal_parent :: "view_no \<Rightarrow> block \<Rightarrow> view_chain \<Rightarrow> bool result" where
  "proposal_parent v b s =
     (case find_parent_view (b_parent b) s of
        Some p \<Rightarrow> (case map_of (ch_views s) p of
            None \<Rightarrow> Inl (Panic UnwrapOnNone)
          | Some pctx \<Rightarrow>
              if vc_nullification pctx \<noteq> None then Inl ParentNullified
              else if \<not> intermediates_nullified p v s then Inl IntermediateNotNullified
              else Inr (vc_m_notarization pctx = None))
      | None \<Rightarrow> if b_parent b \<noteq> ch_committed_hash s then Inl ParentNotCommitted else Inr False)"

definition add_block_proposal ::
    "env \<Rightarrow> cfg \<Rightarrow> peer_set \<Rightarrow> view_no \<Rightarrow> block \<Rightarrow> state_diff \<Rightarrow> view_chain
      \<Rightarrow> leader_proposal_result result \<times> view_chain" where
  "add_block_proposal E c P v b d s =
     (case map_of (ch_views s) v of
        None \<Rightarrow> (Inl ViewUnknown, s)
      | Some ctx \<Rightarrow>
          if vc_block ctx \<noteq> None then (Inl BlockExists, s)
          else if vc_pending_block ctx \<noteq> None then (Inl PendingBlockExists, s)
          else case proposal_parent v b s of
            Inl e \<Rightarrow> (Inl e, s)
          | Inr True \<Rightarrow>
              (Inr \<lparr>lp_block_hash = get_hash E b, lp_should_vote = False,
                    lp_is_enough_to_m_notarize = False, lp_is_enough_to_finalize = False,
                    lp_should_await = True, lp_should_nullify = False\<rparr>,
               set_ctx v (ctx\<lparr>vc_pending_block := Some b, vc_state_diff := Some d\<rparr>) s)
          | Inr False \<Rightarrow>
              (case add_new_view_block E c b d P ctx of
                 (r, ctx') \<Rightarrow> (r, on_m_notarization v (set_ctx v ctx' s))))"

fun take_pending ::
    "view_no \<Rightarrow> (view_no \<times> view_context) list
      \<Rightarrow> (view_no \<times> block \<times> state_diff) list \<times> (view_no \<times> view_context) list" where
  "take_pending notarized_view [] = ([], [])"
| "take_pending notarized_view ((v, ctx) # m) =
     (case take_pending notarized_view m of (ps, m') \<Rightarrow>
        if v > notarized_view then
          (case vc_pending_block ctx of
             None \<Rightarrow> (ps, (v, ctx) # m')
           | Some b \<Rightarrow> (case vc_state_diff ctx of
                 None \<Rightarrow> (ps, (v, ctx\<lparr>vc_pending_block := None\<rparr>) # m')
               | Some d \<Rightarrow> ((v, b, d) # ps,
                   (v, ctx\<lparr>vc_pending_block := None, vc_state_diff := None\<rparr>) # m')))
        else (ps, (v, ctx) # m'))"

fun add_proposals ::
    "env \<Rightarrow> cfg \<Rightarrow> peer_set \<Rightarrow> (view_no \<times> block \<times> state_diff) list \<Rightarrow> view_chain
      \<Rightarrow> leader_proposal_result list result \<times> view_chain" where
  "add_proposals E c P [] s = (Inr [], s)"
| "add_proposals E c P ((v, b, d) # ps) s =
     (case add_block_proposal E c P v b d s of
        (Inl e, s1) \<Rightarrow> (Inl e, s1)
      | (Inr r, s1) \<Rightarrow> (case add_proposals E c P ps s1 of
            (Inl e, s2) \<Rightarrow> (Inl e, s2)
          | (Inr rs, s2) \<Rightarrow> (Inr (r # rs), s2)))"

definition process_pending_child_proposals ::
    "env \<Rightarrow> cfg \<Rightarrow> peer_set \<Rightarrow> view_no \<Rightarrow> view_chain
      \<Rightarrow> leader_proposal_result list result \<times> view_chain" where
  "process_pending_child_proposals E c P notarized_view s =
     (case take_pending notarized_view (ch_views s) of
        (ps, m) \<Rightarrow> add_proposals E c P ps (s\<lparr>ch_views := m\<rparr>))"

subsection \<open>Routing\<close>

definition no_votes_result :: collected_votes_result where
  "no_votes_result = \<lparr>cv_should_await = False, cv_is_enough_to_m_notarize = False,
     cv_is_enough_to_finalize = False, cv_should_nullify = False, cv_should_vote = False\<rparr>"

text \<open>A message for a past view is refused when that view was left without a proof.\<close>

definition progressed_check :: "view_chain \<Rightarrow> view_context \<Rightarrow> unit result" where
  "progressed_check s ctx =
     (if vc_view_number ctx \<noteq> ch_current_view s
      then has_view_progressed_without_m_notarization ctx else Inr ())"

definition route_vote ::
    "env \<Rightarrow> cfg \<Rightarrow> peer_set \<Rightarrow> vote \<Rightarrow> view_chain \<Rightarrow> collected_votes_result result \<times> view_chain" where
  "route_vote E c P v s =
     (case map_of (ch_views s) (v_view v) of
        Some ctx \<Rightarrow>
          if vc_has_nullified ctx \<or> vc_nullification ctx \<noteq> None then (Inr no_votes_result, s)
          else (case progressed_check s ctx of
              Inl e \<Rightarrow> (Inl e, s)
            | Inr _ \<Rightarrow> (case add_vote E c v P ctx of
                (r, ctx') \<Rightarrow> (r, set_ctx (v_view v) ctx' s)))
      | None \<Rightarrow>
          if v_view v < oldest_active_view s then (Inr no_votes_result, s)
          else (Inl ViewUnknown, s))"

definition route_nullify ::
    "env \<Rightarrow> cfg \<Rightarrow> peer_set \<Rightarrow> nullify \<Rightarrow> view_chain \<Rightarrow> bool result \<times> view_chain" where
  "route_nullify E c P n s =
     (case map_of (ch_views s) (nf_view n) of
        Some ctx \<Rightarrow>
          (case progressed_check s ctx of
             Inl e \<Rightarrow> (Inl e, s)
           | Inr _ \<Rightarrow> (case add_nullify E c n P ctx of
               (Inl e, ctx') \<Rightarrow> (Inl e, set_ctx (nf_view n) ctx' s)
             | (Inr _, ctx') \<Rightarrow> (Inr (vc_nullification ctx' \<noteq> None), set_ctx (nf_view n) ctx' s)))
      | None \<Rightarrow>
          if nf_view n < oldest_active_view s then (Inr False, s) else (Inl ViewUnknown, s))"

definition route_m_notarization ::
    "env \<Rightarrow> cfg \<Rightarrow> peer_set \<Rightarrow> m_notarization \<Rightarrow> view_chain \<Rightarrow> should_m_notarize result \<times> view_chain" where
  "route_m_notarization E c P m s =
     (case map_of (ch_views s) (mn_view m) of
        Some ctx \<Rightarrow>
          (case progressed_check s ctx of
             Inl e \<Rightarrow> (Inl e, s)
           | Inr _ \<Rightarrow> (case add_m_notarization E c m P ctx of
               (r, ctx') \<Rightarrow> (r, set_ctx (mn_view m) ctx' s)))
      | None \<Rightarrow>
          if mn_view m < oldest_active_view s
          then (Inr \<lparr>sm_should_notarize = False, sm_should_await = False, sm_should_vote = False,
                     sm_should_nullify = False, sm_should_forward = False\<rparr>, s)
          else (Inl ViewUnknown, s))"

definition route_nullification ::
    "env \<Rightarrow> peer_set \<Rightarrow> nullification \<Rightarrow> view_chain
      \<Rightarrow> collected_nullifications_result result \<times> view_chain" where
  "route_nullification E P n s =
     (case map_of (ch_views s) (nfn_view n) of
        Some ctx \<Rightarrow>
          (case progressed_check s ctx of
             Inl e \<Rightarrow> (Inl e, s)
           | Inr _ \<Rightarrow> (case add_nullification E n P ctx of
               (r, ctx') \<Rightarrow> (r, set_ctx (nfn_view n) ctx' s)))
      | None \<Rightarrow> (Inl ViewUnknown, s))"

subsection \<open>View changes\<close>

definition enter_view :: "view_context \<Rightarrow> view_chain \<Rightarrow> view_chain" where
  "enter_view new_ctx s =
     s\<lparr>ch_current_view := vc_view_number new_ctx,
       ch_views := AList.update (vc_view_number new_ctx) new_ctx (ch_views s)\<rparr>"

definition progress_with_m_notarization :: "view_context \<Rightarrow> view_chain \<Rightarrow> unit result \<times> view_chain" where
  "progress_with_m_notarization new_ctx s =
     (if vc_view_number new_ctx \<noteq> ch_current_view s + 1 then (Inl NotNextView, s)
      else case current s of
        Inl e \<Rightarrow> (Inl e, s)
      | Inr cur \<Rightarrow>
          if vc_m_notarization cur = None \<and> vc_nullification cur = None
          then (Inl CurrentNotMNotarized, s)
          else (Inr (), enter_view new_ctx (on_m_notarization (ch_current_view s) s)))"

definition progress_with_nullification :: "view_context \<Rightarrow> view_chain \<Rightarrow> unit result \<times> view_chain" where
  "progress_with_nullification new_ctx s =
     (if vc_view_number new_ctx \<noteq> ch_current_view s + 1 then (Inl NotNextView, s)
      else case current s of
        Inl e \<Rightarrow> (Inl e, s)
      | Inr cur \<Rightarrow>
          if vc_nullification cur = None then (Inl CurrentNotNullified, s)
          else (Inr (), enter_view new_ctx s))"

definition progress_after_cascade :: "view_context \<Rightarrow> view_chain \<Rightarrow> unit result \<times> view_chain" where
  "progress_after_cascade new_ctx s =
     (if vc_view_number new_ctx \<noteq> ch_current_view s + 1 then (Inl NotNextView, s)
      else case current s of
        Inl e \<Rightarrow> (Inl e, s)
      | Inr cur \<Rightarrow>
          if \<not> vc_has_nullified cur \<and> vc_nullification cur = None then (Inl CurrentNotNullified, s)
          else (Inr (), enter_view new_ctx s))"

definition remove_pending_diff :: "view_no \<Rightarrow> view_chain \<Rightarrow> view_chain" where
  "remove_pending_diff v s = s\<lparr>ch_writer := remove_nullified_view v (ch_writer s)\<rparr>"

definition rollback_pending_diffs_in_range :: "view_no \<Rightarrow> view_no \<Rightarrow> view_chain \<Rightarrow> view_chain" where
  "rollback_pending_diffs_in_range start_view end_view s =
     s\<lparr>ch_writer := fold remove_nullified_view [start_view..<end_view + 1] (ch_writer s)\<rparr>"

subsection \<open>Finalization\<close>

text \<open>The loop that walks the parent hashes back from the finalized block: the views it passes
  and, when it meets one whose block is missing, that view with its block hash.\<close>

partial_function (option) trace_canonical ::
    "view_chain \<Rightarrow> hash \<Rightarrow> view_no list \<Rightarrow> (view_no list \<times> (view_no \<times> hash) list) option" where
  "trace_canonical s trace_hash acc =
     (case find_parent_view trace_hash s of
        None \<Rightarrow> Some (acc, [])
      | Some v \<Rightarrow> (case map_of (ch_views s) v of
            None \<Rightarrow> Some (acc @ [v], [])
          | Some ctx \<Rightarrow> (case vc_block ctx of
                Some b \<Rightarrow> trace_canonical s (b_parent b) (acc @ [v])
              | None \<Rightarrow> Some (acc @ [v], (case vc_block_hash ctx of
                    Some h \<Rightarrow> [(v, h)] | None \<Rightarrow> [])))))"

declare trace_canonical.simps [code]

text \<open>A view below the finalized one that is kept because its block may still be recovered.\<close>

definition retained :: "view_no \<Rightarrow> view_no list \<Rightarrow> view_no \<Rightarrow> view_context \<Rightarrow> bool" where
  "retained finalized_view canonical v ctx \<longleftrightarrow> v \<noteq> finalized_view
     \<and> vc_m_notarization ctx \<noteq> None \<and> vc_block_hash ctx \<noteq> None \<and> vc_block ctx = None
     \<and> (v \<in> set canonical \<or> \<not> is_nullified ctx)"

definition with_writer :: "wop \<Rightarrow> view_chain \<Rightarrow> unit result \<times> view_chain" where
  "with_writer f s = (case f (ch_writer s) of (r, w) \<Rightarrow> (r, s\<lparr>ch_writer := w\<rparr>))"

definition collect_view ::
    "env \<Rightarrow> cfg \<Rightarrow> peer_set \<Rightarrow> view_no \<Rightarrow> view_no list \<Rightarrow> view_no \<Rightarrow> view_chain
      \<Rightarrow> unit result \<times> view_chain" where
  "collect_view E c P finalized_view canonical v s =
     (case map_of (ch_views s) v of
        None \<Rightarrow> (Inr (), s)
      | Some ctx \<Rightarrow>
          if retained finalized_view canonical v ctx then (Inr (), s)
          else
            let s1 = s\<lparr>ch_views := AList.delete v (ch_views s)\<rparr>
            in if v = finalized_view then
                 (case vc_block_hash ctx of
                    None \<Rightarrow> (Inl (Panic UnwrapOnNone), s1)
                  | Some h \<Rightarrow> with_writer (persist_l_notarized_view E P ctx)
                      (s1\<lparr>ch_committed_hash := h\<rparr>))
               else if v \<in> set canonical then
                 let s2 = (case vc_block_hash ctx of
                       None \<Rightarrow> s1 | Some h \<Rightarrow> s1\<lparr>ch_committed_hash := h\<rparr>)
                 in if length (vc_votes ctx) \<ge> cN c - cF c \<and> vc_block ctx \<noteq> None
                    then with_writer (persist_l_notarized_view E P ctx) s2
                    else with_writer (persist_m_notarized_view E P ctx) s2
               else with_writer (persist_nullified_view_or_metadata E P ctx) s1)"

text \<open>The chain checks of finalization: an error, a deferral (\<open>Inr False\<close>), or a go.\<close>

definition finalize_parent_check :: "view_no \<Rightarrow> block \<Rightarrow> view_chain \<Rightarrow> bool result" where
  "finalize_parent_check v b s =
     (case find_parent_view (b_parent b) s of
        Some p \<Rightarrow> (case map_of (ch_views s) p of
            None \<Rightarrow> Inl (Panic UnwrapOnNone)
          | Some pctx \<Rightarrow>
              if vc_m_notarization pctx = None then Inl ParentNotMNotarized
              else if vc_block pctx = None then Inr False
              else if vc_view_number pctx \<ge> v then Inl ParentTooRecent
              else if \<not> intermediates_nullified p v s then Inl IntermediateNotNullified
              else Inr True)
      | None \<Rightarrow> Inr (b_parent b = ch_committed_hash s))"

text \<open>Steps 6 and 7: with missing ancestors finalization is deferred and they are noted for
  recovery; otherwise all views up to the finalized one are collected, oldest first.\<close>

definition finish :: "env \<Rightarrow> cfg \<Rightarrow> peer_set \<Rightarrow> view_no \<Rightarrow> view_no list \<Rightarrow> (view_no \<times> hash) list \<Rightarrow> view_chain
      \<Rightarrow> unit result \<times> view_chain" where
  "finish E c P v canonical missing s =
     (let s1 = s\<lparr>ch_recovery := missing\<rparr>
      in if missing \<noteq> [] then (Inr (), s1)
         else case non_finalized_views_until v s1 of
           None \<Rightarrow> (Inl ViewUnknown, s1)
         | Some (lo, hi) \<Rightarrow> run_ops (map (collect_view E c P v canonical) [lo..<hi + 1]) s1)"

definition finalize_with_l_notarization ::
    "env \<Rightarrow> cfg \<Rightarrow> peer_set \<Rightarrow> view_no \<Rightarrow> view_chain \<Rightarrow> (unit result \<times> view_chain) option" where
  "finalize_with_l_notarization E c P v s =
     (if v > ch_current_view s then Some (Inl FinalizeInFuture, s)
      else case map_of (ch_views s) v of
        None \<Rightarrow> Some (Inl ViewUnknown, s)
      | Some ctx \<Rightarrow>
          if length (vc_votes ctx) < cN c - cF c then Some (Inl NotLNotarized, s)
          else if is_nullified ctx then Some (Inl FinalizeNullified, s)
          else case vc_block ctx of
            None \<Rightarrow> Some (Inr (), s)
          | Some b \<Rightarrow>
              (case finalize_parent_check v b s of
                 Inl e \<Rightarrow> Some (Inl e, s)
               | Inr False \<Rightarrow> Some (Inr (), s)
               | Inr True \<Rightarrow>
                   (case trace_canonical s (b_parent b) [v] of
                      None \<Rightarrow> None
                    | Some (canonical, missing) \<Rightarrow> Some (finish E c P v canonical missing s))))"

subsection \<open>Shutdown\<close>

definition persist_all_views :: "env \<Rightarrow> view_chain \<Rightarrow> unit result \<times> view_chain" where
  "persist_all_views E s =
     with_writer (run_ops (map (\<lambda>(v, ctx). persist_view_on_shutdown E v ctx) (ch_views s)))
       (s\<lparr>ch_views := []\<rparr>)"

subsection \<open>The invariant of the chain\<close>

text \<open>Each context is filed under its own view number, no view lies beyond the current one, and
  every context satisfies the invariant of a view.\<close>

definition ctx_ok :: "env \<Rightarrow> peer_set \<Rightarrow> view_no \<Rightarrow> view_no \<Rightarrow> view_context \<Rightarrow> bool" where
  "ctx_ok E P cur v ctx \<longleftrightarrow> vc_view_number ctx = v \<and> v \<le> cur \<and> vc_inv E P ctx"

definition ch_inv :: "env \<Rightarrow> peer_set \<Rightarrow> view_chain \<Rightarrow> bool" where
  "ch_inv E P s \<longleftrightarrow> hm_invar (ch_views s)
     \<and> (\<forall>v. pred_option (ctx_ok E P (ch_current_view s) v) (map_of (ch_views s) v))"

lemma ch_invD: "ch_inv E P s \<Longrightarrow> map_of (ch_views s) v = Some ctx \<Longrightarrow> ctx_ok E P (ch_current_view s) v ctx"
  by (metis ch_inv_def option.pred_inject(2))

lemma ch_inv_frame [simp]:
  "ch_inv E P (s\<lparr>ch_writer := w\<rparr>) = ch_inv E P s"
  "ch_inv E P (s\<lparr>ch_committed_hash := h\<rparr>) = ch_inv E P s"
  "ch_inv E P (s\<lparr>ch_recovery := r\<rparr>) = ch_inv E P s"
  by (simp_all add: ch_inv_def)

lemma ch_inv_set_ctx:
  "ch_inv E P s \<Longrightarrow> ctx_ok E P (ch_current_view s) v ctx \<Longrightarrow> ch_inv E P (set_ctx v ctx s)"
  by (simp add: ch_inv_def set_ctx_def update_conv' hm.invar_put)

lemma ch_inv_delete: "ch_inv E P s \<Longrightarrow> ch_inv E P (s\<lparr>ch_views := AList.delete v (ch_views s)\<rparr>)"
  by (simp add: ch_inv_def delete_conv' hm.invar_del)

lemma ctx_ok_step:
  "ctx_ok E P cur v ctx \<Longrightarrow> vc_step E c P ctx ctx' \<Longrightarrow> ark_laws E r \<Longrightarrow> ctx_ok E P cur v ctx'"
  using vc_step_inv [of E c P ctx ctx' r] vc_step_le [of E c P ctx ctx'] by (simp add: ctx_ok_def vc_le_def)

lemma ch_inv_ctx_step:
  "ch_inv E P s \<Longrightarrow> map_of (ch_views s) v = Some ctx \<Longrightarrow> vc_step E c P ctx ctx' \<Longrightarrow> ark_laws E r \<Longrightarrow>
   ch_inv E P (set_ctx v ctx' s)"
  by (blast intro: ch_inv_set_ctx ctx_ok_step ch_invD)

lemma ch_inv_on_m_notarization [simp]: "ch_inv E P (on_m_notarization v s) = ch_inv E P s"
  by (simp add: on_m_notarization_def split: option.splits)

lemma on_m_notarization_frame [simp]:
  "ch_views (on_m_notarization v s) = ch_views s"
  "ch_current_view (on_m_notarization v s) = ch_current_view s"
  "ch_committed_hash (on_m_notarization v s) = ch_committed_hash s"
  by (simp_all add: on_m_notarization_def split: option.splits)

lemma ch_inv_new:
  "vc_inv E P ctx \<Longrightarrow> ch_inv E P (view_chain_new E ctx w)"
  by (simp add: ch_inv_def view_chain_new_def hm_invar_def ctx_ok_def)

lemma ctx_ok_mono: "ctx_ok E P cur v ctx \<Longrightarrow> cur \<le> cur' \<Longrightarrow> ctx_ok E P cur' v ctx"
  by (simp add: ctx_ok_def)

lemma ch_inv_enter:
  assumes "ch_inv E P s" and "vc_view_number ctx = ch_current_view s + 1" and "vc_inv E P ctx"
  shows "ch_inv E P (enter_view ctx s)"
proof -
  have "pred_option (ctx_ok E P (ch_current_view s + 1) v) (map_of (ch_views s) v)" for v
    using assms(1) by (cases "map_of (ch_views s) v") (auto simp: ch_inv_def ctx_ok_def dest: spec [of _ v])
  then show ?thesis
    using assms by (simp add: ch_inv_def enter_view_def update_conv' hm.invar_put) (simp add: ctx_ok_def)
qed

subsection \<open>Every operation keeps it\<close>

lemma route_vote_inv:
  assumes "ch_inv E P s"
  shows "ch_inv E P (snd (route_vote E c P v s))"
proof (cases "map_of (ch_views s) (v_view v)")
  case (Some ctx)
  have "ch_inv E P (set_ctx (v_view v) (snd (add_vote E c v P ctx)) s)"
    using ch_invD [OF assms Some] add_vote_inv [of E P ctx c v] add_vote_le [of ctx E c v P]
    by (intro ch_inv_set_ctx [OF assms]) (simp add: ctx_ok_def vc_le_def)
  with Some assms show ?thesis by (auto simp: route_vote_def split: sum.splits prod.splits)
qed (use assms in \<open>simp add: route_vote_def\<close>)

lemma route_nullify_inv:
  assumes "ch_inv E P s" and "ark_laws E r"
  shows "ch_inv E P (snd (route_nullify E c P n s))"
proof (cases "map_of (ch_views s) (nf_view n)")
  case (Some ctx)
  have "ch_inv E P (set_ctx (nf_view n) (snd (add_nullify E c n P ctx)) s)"
    by (rule ch_inv_ctx_step [OF assms(1) Some vc_step.nullify assms(2)])
  with Some assms show ?thesis by (auto simp: route_nullify_def split: sum.splits prod.splits)
qed (use assms in \<open>simp add: route_nullify_def\<close>)

lemma route_m_notarization_inv:
  assumes "ch_inv E P s" and "ark_laws E r"
  shows "ch_inv E P (snd (route_m_notarization E c P m s))"
proof (cases "map_of (ch_views s) (mn_view m)")
  case (Some ctx)
  have "ch_inv E P (set_ctx (mn_view m) (snd (add_m_notarization E c m P ctx)) s)"
    by (rule ch_inv_ctx_step [OF assms(1) Some vc_step.m_notarization assms(2)])
  with Some assms show ?thesis by (auto simp: route_m_notarization_def split: sum.splits prod.splits)
qed (use assms in \<open>simp add: route_m_notarization_def\<close>)

lemma route_nullification_inv:
  assumes "ch_inv E P s" and "ark_laws E r"
  shows "ch_inv E P (snd (route_nullification E P n s))"
proof (cases "map_of (ch_views s) (nfn_view n)")
  case (Some ctx)
  have "ch_inv E P (set_ctx (nfn_view n) (snd (add_nullification E n P ctx)) s)"
    by (rule ch_inv_ctx_step [OF assms(1) Some vc_step.nullification assms(2)])
  with Some assms show ?thesis by (auto simp: route_nullification_def split: sum.splits prod.splits)
qed (use assms in \<open>simp add: route_nullification_def\<close>)

lemma add_recovered_block_inv:
  assumes "ch_inv E P s"
  shows "ch_inv E P (snd (add_recovered_block E c v b s))"
proof (cases "map_of (ch_views s) v")
  case (Some ctx)
  have "ch_inv E P (set_ctx v (ctx\<lparr>vc_block := Some b\<rparr>) s)" if "vc_block_hash ctx = Some (get_hash E b)"
    using ch_invD [OF assms Some] that
    by (intro ch_inv_set_ctx [OF assms]) (simp add: ctx_ok_def vc_inv_recover)
  with Some assms show ?thesis by (auto simp: add_recovered_block_def split: option.splits)
qed (use assms in \<open>simp add: add_recovered_block_def\<close>)

lemma store_state_diff_inv: "ch_inv E P s \<Longrightarrow> ch_inv E P (store_state_diff v d s)"
  using ch_invD [of E P s v]
  by (auto simp: store_state_diff_def Let_def ctx_ok_def intro: ch_inv_set_ctx split: option.splits)

lemma add_block_proposal_inv:
  assumes "ch_inv E P s"
  shows "ch_inv E P (snd (add_block_proposal E c P v b d s))"
proof (cases "map_of (ch_views s) v")
  case (Some ctx)
  have "ch_inv E P (set_ctx v (snd (add_new_view_block E c b d P ctx)) s)"
    using ch_invD [OF assms Some] add_new_view_block_inv [of E P ctx c b d] add_new_view_block_le [of ctx E c b d P]
    by (intro ch_inv_set_ctx [OF assms]) (simp add: ctx_ok_def vc_le_def)
  moreover have "ch_inv E P (set_ctx v (ctx\<lparr>vc_pending_block := Some b, vc_state_diff := Some d\<rparr>) s)"
    using ch_invD [OF assms Some] by (intro ch_inv_set_ctx [OF assms]) (simp add: ctx_ok_def)
  ultimately show ?thesis
    using Some assms by (auto simp: add_block_proposal_def split: sum.splits prod.splits bool.splits)
qed (use assms in \<open>simp add: add_block_proposal_def\<close>)

text \<open>\<open>take_pending\<close> changes nothing but the pending blocks and their diffs.\<close>

lemma take_pending_keys: "map fst (snd (take_pending n m)) = map fst m"
  by (induction n m rule: take_pending.induct) (auto split: prod.splits option.splits)

definition cleared :: "view_no \<Rightarrow> view_no \<Rightarrow> view_context \<Rightarrow> view_context" where
  "cleared n v ctx = (if v > n \<and> vc_pending_block ctx \<noteq> None
     then ctx\<lparr>vc_pending_block := None, vc_state_diff := None\<rparr> else ctx)"

lemma map_of_take_pending: "map_of (snd (take_pending n m)) v = map_option (cleared n v) (map_of m v)"
  by (induction n m rule: take_pending.induct) (auto simp: cleared_def split: prod.splits option.splits)

lemma add_proposals_inv: "ch_inv E P s \<Longrightarrow> ch_inv E P (snd (add_proposals E c P ps s))"
proof (induction E c P ps s rule: add_proposals.induct)
  case (2 E c P v b d ps s)
  from add_block_proposal_inv [OF 2(2), of c v b d] 2(1) show ?case
    by (auto split: prod.splits sum.splits)
qed simp

lemma take_pending_inv:
  assumes "ch_inv E P s" and t: "take_pending n (ch_views s) = (ps, m)"
  shows "ch_inv E P (s\<lparr>ch_views := m\<rparr>)"
proof -
  have k: "map fst m = map fst (ch_views s)" "map_of m v = map_option (cleared n v) (map_of (ch_views s) v)" for v
    using take_pending_keys [of n "ch_views s"] map_of_take_pending [of n "ch_views s" v] by (simp_all add: t)
  have "pred_option (ctx_ok E P (ch_current_view s) v) (map_of m v)" for v
    using assms by (cases "map_of (ch_views s) v")
      (auto simp: k(2) ch_inv_def cleared_def ctx_ok_def dest: spec [of _ v])
  then show ?thesis using assms k(1) by (simp add: ch_inv_def hm_invar_def)
qed

lemma process_pending_inv:
  assumes "ch_inv E P s"
  shows "ch_inv E P (snd (process_pending_child_proposals E c P n s))"
  using take_pending_inv [OF assms]
  by (auto simp: process_pending_child_proposals_def add_proposals_inv split: prod.splits)

lemma progress_inv:
  assumes "ch_inv E P s" and "vc_inv E P ctx"
  shows "ch_inv E P (snd (progress_with_m_notarization ctx s))"
    and "ch_inv E P (snd (progress_with_nullification ctx s))"
    and "ch_inv E P (snd (progress_after_cascade ctx s))"
  using assms ch_inv_enter [of E P s ctx] ch_inv_enter [of E P "on_m_notarization (ch_current_view s) s" ctx]
  by (auto simp: progress_with_m_notarization_def progress_with_nullification_def progress_after_cascade_def
      split: sum.splits)

lemma with_writer_views [simp]:
  "ch_views (snd (with_writer f s)) = ch_views s"
  "ch_current_view (snd (with_writer f s)) = ch_current_view s"
  "ch_committed_hash (snd (with_writer f s)) = ch_committed_hash s"
  "ch_writer (snd (with_writer f s)) = snd (f (ch_writer s))"
  "fst (with_writer f s) = fst (f (ch_writer s))"
  by (simp_all add: with_writer_def split: prod.splits)

lemma ch_inv_with_writer [simp]: "ch_inv E P (snd (with_writer f s)) = ch_inv E P s"
  by (simp add: ch_inv_def)

text \<open>Collecting a view keeps the contexts of all others.\<close>

lemma collect_view_views:
  "ch_views (snd (collect_view E c P fv can v s)) =
     (case map_of (ch_views s) v of
        Some ctx \<Rightarrow> if retained fv can v ctx then ch_views s else AList.delete v (ch_views s)
      | None \<Rightarrow> ch_views s)"
  by (simp add: collect_view_def Let_def split: option.splits)

lemma collect_view_current [simp]:
  "ch_current_view (snd (collect_view E c P fv can v s)) = ch_current_view s"
  by (simp add: collect_view_def Let_def split: option.splits)

lemma collect_view_inv: "ch_inv E P s \<Longrightarrow> ch_inv E P (snd (collect_view E c P fv can v s))"
  by (auto simp: ch_inv_def collect_view_views delete_conv' hm.invar_del split: option.splits)

text \<open>What a call that returns can have done: nothing, a deferral because ancestors lack their
  blocks, or the collection of all views up to the finalized one.\<close>

definition finalizable :: "env \<Rightarrow> cfg \<Rightarrow> view_no \<Rightarrow> view_chain \<Rightarrow> view_context \<Rightarrow> block \<Rightarrow> bool" where
  "finalizable E c v s ctx b \<longleftrightarrow> v \<le> ch_current_view s \<and> map_of (ch_views s) v = Some ctx
     \<and> cN c - cF c \<le> length (vc_votes ctx) \<and> \<not> is_nullified ctx \<and> vc_block ctx = Some b
     \<and> finalize_parent_check v b s = Inr True"

lemma finalize_finalizable:
  assumes "finalizable E c v s ctx b"
  shows "finalize_with_l_notarization E c P v s =
    (case trace_canonical s (b_parent b) [v] of
       None \<Rightarrow> None | Some (canonical, missing) \<Rightarrow> Some (finish E c P v canonical missing s))"
  using assms by (simp add: finalizable_def finalize_with_l_notarization_def)

lemma finalize_not_finalizable:
  assumes "\<nexists>ctx b. finalizable E c v s ctx b"
  shows "\<exists>r. finalize_with_l_notarization E c P v s = Some (r, s)"
proof (cases "map_of (ch_views s) v")
  case (Some ctx)
  show ?thesis
  proof (cases "vc_block ctx")
    case None
    then show ?thesis using Some by (simp add: finalize_with_l_notarization_def)
  next
    case b: (Some b)
    have "\<not> finalizable E c v s ctx b" using assms by blast
    then show ?thesis
      using Some b by (cases "finalize_parent_check v b s")
        (auto simp: finalizable_def finalize_with_l_notarization_def split: bool.splits)
  qed
qed (simp add: finalize_with_l_notarization_def)

lemma finalize_cases:
  assumes "finalize_with_l_notarization E c P v s = Some (r, s')"
  obtains "s' = s"
  | ctx b canonical missing where "finalizable E c v s ctx b"
      "trace_canonical s (b_parent b) [v] = Some (canonical, missing)"
      "(r, s') = finish E c P v canonical missing s"
proof (cases "\<exists>ctx b. finalizable E c v s ctx b")
  case True
  then obtain ctx b where f: "finalizable E c v s ctx b" by blast
  from assms finalize_finalizable [OF f, of P] obtain canonical missing where
    "trace_canonical s (b_parent b) [v] = Some (canonical, missing)" "(r, s') = finish E c P v canonical missing s"
    by (auto split: option.splits prod.splits)
  with f that(2) show thesis by blast
next
  case False
  then show thesis using finalize_not_finalizable [of E c v s P] assms that(1) by auto
qed

lemma finish_preserve:
  assumes "\<And>t u. u \<le> v \<Longrightarrow> Q t \<Longrightarrow> Q (snd (collect_view E c P v canonical u t))"
    and "Q (s\<lparr>ch_recovery := missing\<rparr>)"
  shows "Q (snd (finish E c P v canonical missing s))"
proof (cases "non_finalized_views_until v (s\<lparr>ch_recovery := missing\<rparr>)")
  case None
  then show ?thesis using assms(2) by (cases "missing = []") (simp_all add: finish_def Let_def)
next
  case (Some r)
  then obtain lo hi where r: "non_finalized_views_until v (s\<lparr>ch_recovery := missing\<rparr>) = Some (lo, hi)"
    by (cases r) auto
  then have hi: "hi \<le> v" by (auto simp: non_finalized_views_until_def Let_def split: option.splits if_splits)
  have "Q (snd (run_ops (map (collect_view E c P v canonical) [lo..<hi + 1]) (s\<lparr>ch_recovery := missing\<rparr>)))"
    by (rule run_ops_preserve) (use assms hi in auto)
  then show ?thesis using assms(2) r by (cases "missing = []") (simp_all add: finish_def Let_def)
qed

lemma finalize_inv:
  assumes "ch_inv E P s" and "finalize_with_l_notarization E c P v s = Some (r, s')"
  shows "ch_inv E P s'"
  using assms(2)
proof (cases rule: finalize_cases)
  case (2 ctx b canonical missing)
  have "ch_inv E P (snd (finish E c P v canonical missing s))"
    by (rule finish_preserve) (use assms(1) in \<open>simp_all add: collect_view_inv\<close>)
  with 2(3) show ?thesis by (metis snd_conv)
qed (use assms in simp)

lemma persist_all_views_inv: "ch_inv E P (snd (persist_all_views E s))"
  by (simp add: persist_all_views_def ch_inv_def hm_invar_def)

subsection \<open>Runs of the chain\<close>

text \<open>The steps of a chain: every operation of \<open>ViewChain\<close>, and the changes that its owner makes
  to the context of one view (\<open>own\<close>: the replica's own votes, nullifications and flags).\<close>

inductive ch_step :: "env \<Rightarrow> cfg \<Rightarrow> peer_set \<Rightarrow> view_chain \<Rightarrow> view_chain \<Rightarrow> bool" for E c P where
  own: "map_of (ch_views s) v = Some ctx \<Longrightarrow> vc_step E c P ctx ctx' \<Longrightarrow> ch_step E c P s (set_ctx v ctx' s)"
| vote: "ch_step E c P s (snd (route_vote E c P vt s))"
| nullify: "ch_step E c P s (snd (route_nullify E c P nf s))"
| m_notarization: "ch_step E c P s (snd (route_m_notarization E c P m s))"
| nullification: "ch_step E c P s (snd (route_nullification E P nn s))"
| proposal: "ch_step E c P s (snd (add_block_proposal E c P v b d s))"
| pending: "ch_step E c P s (snd (process_pending_child_proposals E c P v s))"
| recovered: "ch_step E c P s (snd (add_recovered_block E c v b s))"
| state_diff: "ch_step E c P s (store_state_diff v d s)"
| notarized: "ch_step E c P s (on_m_notarization v s)"
| remove_diff: "ch_step E c P s (remove_pending_diff v s)"
| rollback: "ch_step E c P s (rollback_pending_diffs_in_range v u s)"
| progress_m: "ch_step E c P s (snd (progress_with_m_notarization (view_context_new now v l me parent) s))"
| progress_n: "ch_step E c P s (snd (progress_with_nullification (view_context_new now v l me parent) s))"
| progress_c: "ch_step E c P s (snd (progress_after_cascade (view_context_new now v l me parent) s))"
| finalize: "finalize_with_l_notarization E c P v s = Some (r, s') \<Longrightarrow> ch_step E c P s s'"
| shutdown: "ch_step E c P s (snd (persist_all_views E s))"

lemma ch_step_inv:
  assumes "ch_step E c P s t" and "ark_laws E r" and "ch_inv E P s"
  shows "ch_inv E P t"
  using assms
proof (induction rule: ch_step.induct)
  case (own s v ctx ctx')
  then show ?case by (blast intro: ch_inv_ctx_step)
qed (auto simp: remove_pending_diff_def rollback_pending_diffs_in_range_def vc_inv_new
      intro: route_vote_inv route_nullify_inv route_m_notarization_inv route_nullification_inv
        add_block_proposal_inv process_pending_inv add_recovered_block_inv store_state_diff_inv
        progress_inv finalize_inv persist_all_views_inv)

definition ch_init :: "env \<Rightarrow> view_chain \<Rightarrow> bool" where
  "ch_init E s \<longleftrightarrow> (\<exists>r. ark_laws E r)
     \<and> (\<exists>now v l me parent w. s = view_chain_new E (view_context_new now v l me parent) w)"

definition ch_machine_inv :: "env \<Rightarrow> peer_set \<Rightarrow> view_chain \<Rightarrow> bool" where
  "ch_machine_inv E P s \<longleftrightarrow> (\<exists>r. ark_laws E r) \<and> ch_inv E P s"

interpretation chm: invariant_machine "ch_init E" "ch_step E c P" "ch_machine_inv E P" for E c P
  by unfold_locales (auto simp: ch_init_def ch_machine_inv_def ch_inv_new vc_inv_new intro: ch_step_inv)

text \<open>C5: in every run of the chain, whatever messages and blocks arrive and whichever operations
  fail, each context is filed under its own view number, no view lies beyond the current one, and
  every context satisfies the invariant of a view.\<close>

theorem view_chain_invariant:
  assumes "ark_laws E r"
    and "(ch_step E c P)\<^sup>*\<^sup>* (view_chain_new E (view_context_new now v l me parent) w) s"
  shows "ch_inv E P s"
proof -
  have "ch_init E (view_chain_new E (view_context_new now v l me parent) w)"
    using assms(1) unfolding ch_init_def by blast
  from chm.inv_reachable [OF this assms(2)] show ?thesis by (simp add: ch_machine_inv_def)
qed

subsection \<open>What the writes do to the table of finalized blocks\<close>

abbreviation fin_tab :: "writer \<Rightarrow> (bytes \<times> block) list" where
  "fin_tab w \<equiv> st_finalized_blocks (pw_store w)"

definition tab_effect :: "wop \<Rightarrow> ((bytes \<times> block) list \<Rightarrow> (bytes \<times> block) list) \<Rightarrow> bool" where
  "tab_effect f g \<longleftrightarrow> (\<forall>w w'. f w = (Inr (), w') \<longrightarrow> fin_tab w' = g (fin_tab w))"

lemma tab_effect_Nil [simp]: "tab_effect (run_ops []) id"
  by (simp add: tab_effect_def)

lemma tab_effect_Cons: "tab_effect f g \<Longrightarrow> tab_effect (run_ops fs) h \<Longrightarrow> tab_effect (run_ops (f # fs)) (h \<circ> g)"
  by (auto simp: tab_effect_def split: prod.splits sum.splits)

lemma tab_effect_append:
  "tab_effect (run_ops fs) g \<Longrightarrow> tab_effect (run_ops gs) h \<Longrightarrow> tab_effect (run_ops (fs @ gs)) (h \<circ> g)"
  by (fastforce simp: tab_effect_def run_ops_append split: prod.splits sum.splits)

lemma tab_effect_all: "(\<And>f. f \<in> set fs \<Longrightarrow> tab_effect f id) \<Longrightarrow> tab_effect (run_ops fs) id"
proof (induction fs)
  case (Cons f fs)
  have "tab_effect f id" by (rule Cons.prems) simp
  moreover have "tab_effect (run_ops fs) id" by (rule Cons.IH) (rule Cons.prems, simp)
  ultimately have "tab_effect (run_ops (f # fs)) (id \<circ> id)" by (rule tab_effect_Cons)
  then show ?case by (simp only: comp_id)
qed simp

lemma tab_effect_fail [simp]: "tab_effect (fail_with e) g"
  by (simp add: tab_effect_def fail_with_def)

lemma tab_effect_writes [simp]:
  "tab_effect (db_write (put_transaction E tx)) id" "tab_effect (db_write (put_notarization E m)) id"
  "tab_effect (db_write (put_nullified_block E b)) id" "tab_effect (db_write (put_nullification E n)) id"
  "tab_effect (db_write (put_vote E v)) id" "tab_effect (db_write (put_nullify E nf)) id"
  "tab_effect (write_leader E vn l) id" "tab_effect (write_view E P vn l x y) id"
  "tab_effect (write_l_notarization E ln) id" "tab_effect (remove_diff vn) id"
  by (auto simp: tab_effect_def db_write_def put_transaction_def put_notarization_def put_nullified_block_def
      put_nullification_def put_vote_def put_nullify_def write_leader_def put_leader_def write_view_def
      put_view_def put_value_def write_l_notarization_def put_l_notarization_def remove_diff_def fail_with_def
      remove_nullified_view_def publish_snapshot_def split: if_splits sum.splits option.splits prod.splits)

lemma update_account_keeps_blocks:
  "update_account_write E au st = Inr st' \<Longrightarrow> st_finalized_blocks st' = st_finalized_blocks st"
  "create_account_write E ca st = Inr st' \<Longrightarrow> st_finalized_blocks st' = st_finalized_blocks st"
  by (auto simp: update_account_write_def create_account_write_def put_account_def put_value_def
      split: prod.splits option.splits sum.splits if_splits)

lemma apply_diff_keeps_blocks: "st_finalized_blocks (snd (apply_diff_to_db E d st)) = st_finalized_blocks st"
  unfolding apply_diff_to_db_def
  by (rule run_writes_preserve) (auto simp: update_account_keeps_blocks)

lemma finalize_loop_keeps_blocks:
  "finalize_loop E v ds st = (e, ds', st') \<Longrightarrow> st_finalized_blocks st' = st_finalized_blocks st"
proof (induction E v ds st rule: finalize_loop.induct)
  case (2 E view v d ds st)
  with apply_diff_keeps_blocks [of E d st] show ?case
    by (auto split: if_splits prod.splits option.splits)
qed simp

lemma tab_effect_finalize [simp]: "tab_effect (finalize_up_to E v) id"
  by (auto simp: tab_effect_def finalize_up_to_def publish_snapshot_def
      split: prod.splits option.splits dest!: finalize_loop_keeps_blocks)

definition commit_block :: "env \<Rightarrow> block \<Rightarrow> (bytes \<times> block) list \<Rightarrow> (bytes \<times> block) list" where
  "commit_block E b = bt_insert (get_hash E b) (b\<lparr>b_is_finalized := True\<rparr>)"

lemma tab_effect_put_block: "tab_effect (db_write (put_finalized_block E (b\<lparr>b_is_finalized := True\<rparr>))) (commit_block E b)"
  by (auto simp: tab_effect_def db_write_def put_finalized_block_def put_value_def commit_block_def
      split: if_splits)

lemma tab_effect_write_block: "tab_effect (run_ops (write_finalized_block E b)) (commit_block E b)"
proof -
  have "tab_effect (run_ops (map (\<lambda>tx. db_write (put_transaction E tx)) (b_transactions b))) id"
    by (rule tab_effect_all) auto
  from tab_effect_append [OF this tab_effect_Cons [OF tab_effect_put_block tab_effect_Nil]] show ?thesis
    by (simp add: write_finalized_block_def)
qed

lemma tab_effect_persist_l:
  "tab_effect (persist_l_notarized_view E P ctx) (case vc_block ctx of Some b \<Rightarrow> commit_block E b | None \<Rightarrow> id)"
proof (cases "vc_block ctx")
  case None
  then show ?thesis
    by (auto simp: tab_effect_def persist_l_notarized_view_def fail_with_def split: prod.splits sum.splits)
next
  case (Some b)
  let ?rest = "case vc_block_hash ctx of
               None \<Rightarrow> [fail_with NoBlockHash]
             | Some h \<Rightarrow>
                 (case vc_m_notarization ctx of
                    None \<Rightarrow> [fail_with NoMNotarization]
                  | Some m \<Rightarrow> [db_write (put_notarization E m)])
                 @ [write_leader E (vc_view_number ctx) (vc_leader_id ctx),
                    write_view E P (vc_view_number ctx) (vc_leader_id ctx) True False]
                 @ map (\<lambda>v. db_write (put_vote E v)) (vc_votes ctx)
                 @ [write_l_notarization E (l_notarization_of E ctx h (b_height b))]"
  have "tab_effect (run_ops ?rest) id"
    by (rule tab_effect_all) (auto split: option.splits)
  from tab_effect_Cons [OF tab_effect_finalize tab_effect_append [OF tab_effect_write_block this]] show ?thesis
    unfolding persist_l_notarized_view_def Some option.case by simp
qed

lemma tab_effect_persist_m:
  "tab_effect (persist_m_notarized_view E P ctx) (case vc_block ctx of Some b \<Rightarrow> commit_block E b | None \<Rightarrow> id)"
proof -
  let ?rest = "(case vc_m_notarization ctx of
             None \<Rightarrow> [fail_with NoMNotarization]
           | Some m \<Rightarrow> [db_write (put_notarization E m)])
        @ [write_leader E (vc_view_number ctx) (vc_leader_id ctx),
           write_view E P (vc_view_number ctx) (vc_leader_id ctx) True False]
        @ map (\<lambda>v. db_write (put_vote E v)) (vc_votes ctx)"
  have r: "tab_effect (run_ops ?rest) id"
    by (rule tab_effect_all) (auto split: option.splits)
  show ?thesis
  proof (cases "vc_block ctx")
    case None
    with r show ?thesis by (simp add: persist_m_notarized_view_def)
  next
    case (Some b)
    with tab_effect_append [OF tab_effect_write_block r, of E b] show ?thesis
      by (simp add: persist_m_notarized_view_def)
  qed
qed

lemma tab_effect_persist_nullified:
  "tab_effect (persist_nullified_view E P ctx) id"
  "tab_effect (persist_nullified_view_or_metadata E P ctx) id"
proof -
  show n: "tab_effect (persist_nullified_view E P ctx) id"
    unfolding persist_nullified_view_def
    by (auto simp: opt_write_def split: option.splits intro!: tab_effect_all)
  show "tab_effect (persist_nullified_view_or_metadata E P ctx) id"
    unfolding persist_nullified_view_or_metadata_def
    by (auto simp: opt_write_def n split: option.splits intro!: tab_effect_all)
qed

subsection \<open>The canonical chain\<close>

definition chain_block :: "view_chain \<Rightarrow> view_no \<Rightarrow> block option" where
  "chain_block s v = Option.bind (map_of (ch_views s) v) vc_block"

text \<open>The views that hold the ancestors of a hash, nearest first, until a hash that no view has.\<close>

fun parent_chain :: "view_chain \<Rightarrow> hash \<Rightarrow> view_no list \<Rightarrow> bool" where
  "parent_chain s h [] \<longleftrightarrow> find_parent_view h s = None"
| "parent_chain s h (v # vs) \<longleftrightarrow> find_parent_view h s = Some v
     \<and> (case chain_block s v of Some b \<Rightarrow> parent_chain s (b_parent b) vs | None \<Rightarrow> False)"

lemma find_SomeD: "List.find Q xs = Some x \<Longrightarrow> x \<in> set xs \<and> Q x"
  by (induction xs) (auto split: if_splits)

lemma find_parent_view_Some:
  assumes "hm_invar (ch_views s)" and "find_parent_view h s = Some v"
  obtains ctx where "map_of (ch_views s) v = Some ctx" "vc_block_hash ctx = Some h"
proof -
  obtain ctx where "(v, ctx) \<in> set (ch_views s)" "vc_block_hash ctx = Some h"
    using assms(2) by (auto simp: find_parent_view_def dest!: find_SomeD)
  with assms(1) that show thesis by (simp add: hm_invar_def)
qed

lemma trace_canonical_chain:
  assumes "hm_invar (ch_views s)" and "trace_canonical s h acc = Some (can, missing)"
  shows "missing = [] \<Longrightarrow> \<exists>vs. can = acc @ vs \<and> parent_chain s h vs"
proof -
  have "hm_invar (ch_views s) \<longrightarrow> snd r = [] \<longrightarrow> (\<exists>vs. fst r = acc @ vs \<and> parent_chain s h vs)"
    if "trace_canonical s h acc = Some r" for r
    using that
  proof (induction rule: trace_canonical.raw_induct [rotated 1, consumes 1, case_names trace])
    case (trace tr s h acc r)
    show ?case
    proof (intro impI)
      assume i: "hm_invar (ch_views s)" and m: "snd r = []"
      show "\<exists>vs. fst r = acc @ vs \<and> parent_chain s h vs"
      proof (cases "find_parent_view h s")
        case None
        with trace(2) show ?thesis by auto
      next
        case (Some v)
        obtain ctx where ctx: "map_of (ch_views s) v = Some ctx" "vc_block_hash ctx = Some h"
          using find_parent_view_Some [OF i Some] .
        obtain b where b: "vc_block ctx = Some b" "tr s (b_parent b) (acc @ [v]) = Some r"
          using trace(2) Some ctx m by (auto split: option.splits)
        from trace(1) [OF b(2)] i m obtain vs where
          "fst r = (acc @ [v]) @ vs" "parent_chain s (b_parent b) vs" by blast
        then have "fst r = acc @ (v # vs) \<and> parent_chain s h (v # vs)"
          using Some ctx b(1) by (simp add: chain_block_def)
        then show ?thesis by blast
      qed
    qed
  qed
  from this [OF assms(2)] assms(1) show "missing = [] \<Longrightarrow> \<exists>vs. can = acc @ vs \<and> parent_chain s h vs" by auto
qed

lemma parent_chain_blocks: "parent_chain s h vs \<Longrightarrow> u \<in> set vs \<Longrightarrow> chain_block s u \<noteq> None"
  by (induction s h vs rule: parent_chain.induct) (auto split: option.splits)

text \<open>One step of the collection, in terms of the finalized blocks.\<close>

definition commit_view :: "env \<Rightarrow> view_no list \<Rightarrow> view_no \<Rightarrow> view_chain \<Rightarrow> (bytes \<times> block) list \<Rightarrow> (bytes \<times> block) list" where
  "commit_view E can u s = (if u \<in> set can then (case chain_block s u of Some b \<Rightarrow> commit_block E b | None \<Rightarrow> id) else id)"

lemma with_writer_effect:
  "tab_effect f g \<Longrightarrow> with_writer f s = (Inr (), s') \<Longrightarrow> fin_tab (ch_writer s') = g (fin_tab (ch_writer s))"
  by (auto simp: tab_effect_def with_writer_def split: prod.splits)

lemma collect_view_effect:
  assumes "v \<in> set can" and "collect_view E c P v can u s = (Inr (), s')"
  shows "fin_tab (ch_writer s') = commit_view E can u s (fin_tab (ch_writer s))"
proof (cases "map_of (ch_views s) u")
  case None
  then show ?thesis using assms by (simp add: collect_view_def commit_view_def chain_block_def)
next
  case (Some ctx)
  then have cb: "chain_block s u = vc_block ctx" by (simp add: chain_block_def)
  show ?thesis
  proof (cases "retained v can u ctx")
    case True
    then show ?thesis
      using Some assms cb by (simp add: collect_view_def commit_view_def retained_def)
  next
    case False
    note effects = with_writer_effect [OF tab_effect_persist_l] with_writer_effect [OF tab_effect_persist_m]
      with_writer_effect [OF tab_effect_persist_nullified(2)]
    show ?thesis
    proof (cases "u \<in> set can")
      case True
      then show ?thesis
        using Some False assms cb
        by (cases "vc_block_hash ctx")
          (auto simp: collect_view_def commit_view_def Let_def split: if_splits dest!: effects)
    next
      case nc: False
      then have "u \<noteq> v" using assms(1) by blast
      then show ?thesis
        using Some False assms(2) nc by (auto simp: collect_view_def commit_view_def Let_def dest!: effects)
    qed
  qed
qed

lemma collect_run:
  assumes "run_ops (map (collect_view E c P v can) us) t = (Inr (), t')" and "distinct us" and "v \<in> set can"
    and "hm_invar (ch_views t)"
    and "\<forall>u \<in> set us. map_of (ch_views t) u = map_of (ch_views s) u"
  shows "fin_tab (ch_writer t') = fold (\<lambda>u. commit_view E can u s) us (fin_tab (ch_writer t))
    \<and> (\<forall>u. map_of (ch_views t') u =
          (if u \<in> set us then Option.bind (map_of (ch_views s) u) (\<lambda>ctx. if retained v can u ctx then Some ctx else None)
           else map_of (ch_views t) u))"
  using assms
proof (induction us arbitrary: t)
  case (Cons u us)
  obtain t1 where t1: "collect_view E c P v can u t = (Inr (), t1)"
      "run_ops (map (collect_view E c P v can) us) t1 = (Inr (), t')"
    using Cons.prems(1) by (auto split: prod.splits sum.splits)
  have v1: "ch_views t1 = (case map_of (ch_views t) u of
        Some ctx \<Rightarrow> if retained v can u ctx then ch_views t else AList.delete u (ch_views t)
      | None \<Rightarrow> ch_views t)"
    using collect_view_views [of E c P v can u t] t1(1) by simp
  have m1: "map_of (ch_views t1) x = (if x = u then Option.bind (map_of (ch_views s) u)
      (\<lambda>ctx. if retained v can u ctx then Some ctx else None) else map_of (ch_views t) x)" for x
    using Cons.prems(4,5) by (auto simp: v1 delete_conv' split: option.splits)
  have i1: "hm_invar (ch_views t1)" using Cons.prems(4) by (auto simp: v1 hm.invar_del split: option.splits)
  have "\<forall>x \<in> set us. map_of (ch_views t1) x = map_of (ch_views s) x"
    using Cons.prems(2,5) by (auto simp: m1)
  from Cons.IH [OF t1(2) _ Cons.prems(3) i1 this] Cons.prems(2)
  have IH: "fin_tab (ch_writer t') = fold (\<lambda>u. commit_view E can u s) us (fin_tab (ch_writer t1))"
    "map_of (ch_views t') x =
          (if x \<in> set us then Option.bind (map_of (ch_views s) x) (\<lambda>ctx. if retained v can x ctx then Some ctx else None)
           else map_of (ch_views t1) x)" for x by simp_all
  have "commit_view E can u t = commit_view E can u s"
    using Cons.prems(5) by (simp add: commit_view_def chain_block_def fun_eq_iff)
  with collect_view_effect [OF Cons.prems(3) t1(1)] IH(1) show ?case
    using Cons.prems(2) by (auto simp: IH(2) m1)
qed simp

lemma fold_commit:
  fixes s E can us T
  defines "B \<equiv> {b. \<exists>u \<in> set us. u \<in> set can \<and> chain_block s u = Some b}"
    and "T' \<equiv> fold (\<lambda>u. commit_view E can u s) us T"
  shows "if h \<in> get_hash E ` B then \<exists>b \<in> B. get_hash E b = h \<and> map_of T' h = Some (b\<lparr>b_is_finalized := True\<rparr>)
    else map_of T' h = map_of T h"
  unfolding B_def T'_def
proof (induction us rule: rev_induct)
  case (snoc u us)
  show ?case
  proof (cases "u \<in> set can \<and> chain_block s u \<noteq> None")
    case True
    then obtain b where "chain_block s u = Some b" by blast
    with True snoc show ?thesis
      by (cases "get_hash E b = h") (auto simp: commit_view_def commit_block_def map_of_bt_insert split: if_splits)
  next
    case False
    then have cv: "commit_view E can u s = id" by (auto simp: commit_view_def split: option.splits)
    have B: "{b. \<exists>u' \<in> set (us @ [u]). u' \<in> set can \<and> chain_block s u' = Some b}
        = {b. \<exists>u \<in> set us. u \<in> set can \<and> chain_block s u = Some b}" using False by auto
    have T: "fold (\<lambda>u. commit_view E can u s) (us @ [u]) T = fold (\<lambda>u. commit_view E can u s) us T"
      by (simp add: cv)
    show ?thesis unfolding B T by (rule snoc)
  qed
qed simp

text \<open>The blocks that a finalization of view \<open>v\<close> commits: those of \<open>v\<close> and its ancestors' views
  \<open>vs\<close> (up to \<open>v\<close> itself).\<close>

definition committed_blocks :: "view_chain \<Rightarrow> view_no \<Rightarrow> view_no list \<Rightarrow> block set" where
  "committed_blocks s v vs = {b. \<exists>u \<in> set (v # vs). u \<le> v \<and> chain_block s u = Some b}"

lemma min_key_le: "map_of m v \<noteq> None \<Longrightarrow> \<exists>lo. min_key m = Some lo \<and> lo \<le> v"
proof (induction m rule: min_key.induct)
  case (2 v' x m)
  then show ?case by (cases "min_key m") (auto split: if_splits simp: min_le_iff_disj)
qed simp

lemma min_key_lower: "min_key m = Some lo \<Longrightarrow> map_of m v \<noteq> None \<Longrightarrow> lo \<le> v"
  using min_key_le [of m v] by auto

text \<open>A finalization that went through: the collection of all views up to \<open>v\<close> has succeeded.\<close>

lemma finalize_went_through:
  assumes "hm_invar (ch_views s)" and "finalize_with_l_notarization E c P v s = Some (Inr (), s')"
    and "map_of (ch_views s') v \<noteq> map_of (ch_views s) v"
  obtains ctx b vs lo where "finalizable E c v s ctx b" "parent_chain s (b_parent b) vs"
    "min_key (ch_views s) = Some lo" "lo \<le> v"
    "run_ops (map (collect_view E c P v (v # vs)) [lo..<v + 1]) (s\<lparr>ch_recovery := []\<rparr>) = (Inr (), s')"
  using assms(2)
proof (cases rule: finalize_cases)
  case 1
  with assms(3) show thesis by simp
next
  case (2 ctx b can missing)
  have m: "missing = []"
  proof (rule ccontr)
    assume "missing \<noteq> []"
    with 2(3) have "s' = s\<lparr>ch_recovery := missing\<rparr>" by (simp add: finish_def Let_def)
    with assms(3) show False by simp
  qed
  obtain vs where vs: "can = [v] @ vs" "parent_chain s (b_parent b) vs"
    using trace_canonical_chain [OF assms(1) 2(2) m] by blast
  have pres: "map_of (ch_views s) v = Some ctx" "v \<le> ch_current_view s" using 2(1) by (simp_all add: finalizable_def)
  then obtain lo where lo: "min_key (ch_views s) = Some lo" "lo \<le> v" using min_key_le [of "ch_views s" v] by auto
  have "non_finalized_views_until v (s\<lparr>ch_recovery := []\<rparr>) = Some (lo, v)"
    using lo pres(2) by (simp add: non_finalized_views_until_def Let_def min_absorb1)
  with 2(3) m vs(1) have
    "run_ops (map (collect_view E c P v (v # vs)) [lo..<v + 1]) (s\<lparr>ch_recovery := []\<rparr>) = (Inr (), s')"
    by (simp add: finish_def Let_def)
  with 2(1) vs(2) lo that show thesis by blast
qed

lemma finalize_committed_hash:
  assumes "run_ops (map (collect_view E c P v (v # vs)) [lo..<v + 1]) s1 = (Inr (), s')" and "lo \<le> v"
    and "hm_invar (ch_views s1)" and "map_of (ch_views s1) v = Some ctx"
  shows "vc_block_hash ctx = Some (ch_committed_hash s')"
proof -
  have "[lo..<v + 1] = [lo..<v] @ [v]" using assms(2) by simp
  with assms(1) obtain t where t: "run_ops (map (collect_view E c P v (v # vs)) [lo..<v]) s1 = (Inr (), t)"
      "collect_view E c P v (v # vs) v t = (Inr (), s')"
    by (auto simp: run_ops_append split: prod.splits sum.splits)
  have "map_of (ch_views t) v = Some ctx"
    using collect_run [OF t(1) _ _ assms(3), of s1] assms(4) by simp
  note v = this
  show ?thesis
  proof (cases "vc_block_hash ctx")
    case None
    with t(2) v show ?thesis by (simp add: collect_view_def retained_def Let_def)
  next
    case (Some h)
    with t(2) v have "with_writer (persist_l_notarized_view E P ctx)
        (t\<lparr>ch_views := AList.delete v (ch_views t), ch_committed_hash := h\<rparr>) = (Inr (), s')"
      by (simp add: collect_view_def retained_def Let_def)
    from arg_cong [OF this, of "\<lambda>x. ch_committed_hash (snd x)"] Some show ?thesis by simp
  qed
qed

lemma finalize_commits:
  assumes "ch_inv E P s" and "finalize_with_l_notarization E c P v s = Some (Inr (), s')"
    and "map_of (ch_views s') v \<noteq> map_of (ch_views s) v"
  shows "\<exists>b vs. chain_block s v = Some b \<and> parent_chain s (b_parent b) vs
    \<and> ch_committed_hash s' = get_hash E b
    \<and> (\<forall>h. if h \<in> get_hash E ` committed_blocks s v vs
         then \<exists>b' \<in> committed_blocks s v vs. get_hash E b' = h
           \<and> get_finalized_block h (pw_store (ch_writer s')) = Inr (Some (b'\<lparr>b_is_finalized := True\<rparr>))
         else get_finalized_block h (pw_store (ch_writer s')) = get_finalized_block h (pw_store (ch_writer s)))"
proof -
  have i: "hm_invar (ch_views s)" using assms(1) by (simp add: ch_inv_def)
  obtain ctx b vs lo where f: "finalizable E c v s ctx b" "parent_chain s (b_parent b) vs"
    "min_key (ch_views s) = Some lo" "lo \<le> v"
    and run: "run_ops (map (collect_view E c P v (v # vs)) [lo..<v + 1]) (s\<lparr>ch_recovery := []\<rparr>) = (Inr (), s')"
    using finalize_went_through [OF i assms(2,3)] .
  have ctx: "map_of (ch_views s) v = Some ctx" "vc_block ctx = Some b" using f(1) by (simp_all add: finalizable_def)
  then have cb: "chain_block s v = Some b" by (simp add: chain_block_def)
  have "vc_block_hash ctx = Some (get_hash E b)"
    using ch_invD [OF assms(1) ctx(1)] ctx(2) by (simp add: ctx_ok_def vc_inv_def hash_inv_def)
  with finalize_committed_hash [OF run f(4)] i ctx(1) have tip: "ch_committed_hash s' = get_hash E b" by simp
  have tab: "fin_tab (ch_writer s') = fold (\<lambda>u. commit_view E (v # vs) u s) [lo..<v + 1] (fin_tab (ch_writer s))"
    using collect_run [OF run, of s] i by simp
  have mem: "u \<in> set [lo..<v + 1] \<longleftrightarrow> u \<le> v" if "chain_block s u = Some x" for u x
    using that min_key_lower [OF f(3), of u] by (auto simp: chain_block_def bind_eq_Some_conv)
  have B: "{b. \<exists>u \<in> set [lo..<v + 1]. u \<in> set (v # vs) \<and> chain_block s u = Some b} = committed_blocks s v vs"
    unfolding committed_blocks_def using mem by blast
  from fold_commit [where s = s and E = E and can = "v # vs" and us = "[lo..<v + 1]" and T = "fin_tab (ch_writer s)"]
  have "\<forall>h. if h \<in> get_hash E ` committed_blocks s v vs
      then \<exists>b' \<in> committed_blocks s v vs. get_hash E b' = h \<and> map_of (fin_tab (ch_writer s')) h = Some (b'\<lparr>b_is_finalized := True\<rparr>)
      else map_of (fin_tab (ch_writer s')) h = map_of (fin_tab (ch_writer s)) h"
    unfolding B tab by blast
  then show ?thesis
    unfolding get_finalized_block_def get_blob_value_def sum.inject using cb f(2) tip by blast
qed


subsection \<open>When the walk along the parents ends\<close>

text \<open>Every block's parent, where the chain has it, is in an earlier view.\<close>

definition parents_precede :: "view_chain \<Rightarrow> bool" where
  "parents_precede s \<longleftrightarrow> (\<forall>v b p. chain_block s v = Some b \<longrightarrow> find_parent_view (b_parent b) s = Some p \<longrightarrow> p < v)"

lemma trace_canonical_returns:
  assumes "parents_precede s"
  shows "\<exists>r. trace_canonical s h acc = Some r"
proof (cases "find_parent_view h s")
  case None
  then show ?thesis by (simp add: trace_canonical.simps)
next
  case (Some v)
  then show ?thesis
  proof (induction v arbitrary: h acc rule: less_induct)
    case (less v)
    show ?case
    proof (cases "chain_block s v")
      case None
      then show ?thesis
        using less.prems by (auto simp: trace_canonical.simps [of s h] chain_block_def split: option.splits)
    next
      case (Some b)
      have "\<exists>r. trace_canonical s (b_parent b) (acc @ [v]) = Some r"
      proof (cases "find_parent_view (b_parent b) s")
        case None
        then show ?thesis by (simp add: trace_canonical.simps [of s "b_parent b"])
      next
        case p: (Some p)
        then have "p < v" using assms Some by (auto simp: parents_precede_def)
        from less.IH [OF this p] show ?thesis .
      qed
      then show ?thesis
        using less.prems Some by (auto simp: trace_canonical.simps [of s h] chain_block_def bind_eq_Some_conv)
    qed
  qed
qed

text \<open>C31: finalization returns whenever the parents of all blocks in the chain are in earlier views:
  the walk along the parent hashes, which the code does not bound, then strictly descends.\<close>

theorem finalize_returns:
  assumes "parents_precede s"
  shows "\<exists>r s'. finalize_with_l_notarization E c P v s = Some (r, s')"
proof (cases "\<exists>ctx b. finalizable E c v s ctx b")
  case True
  then obtain ctx b where f: "finalizable E c v s ctx b" by blast
  obtain can missing where t: "trace_canonical s (b_parent b) [v] = Some (can, missing)"
    using trace_canonical_returns [OF assms] by (metis surj_pair)
  show ?thesis using finalize_finalizable [OF f, of P] t by (cases "finish E c P v can missing s") simp
next
  case False
  then show ?thesis using finalize_not_finalizable [of E c v s P] by blast
qed

lemma trace_canonical_loops:
  assumes "find_parent_view h s = Some v" and "chain_block s v = Some b" and "b_parent b = h"
  shows "trace_canonical s h acc = None"
proof -
  have False if "trace_canonical s h acc = Some r" for r
  proof -
    have "s' = s \<longrightarrow> h' = h \<longrightarrow> False" if "trace_canonical s' h' acc' = Some r'" for s' h' acc' r'
      using that
    proof (induction rule: trace_canonical.raw_induct [rotated 1, consumes 1, case_names trace])
      case (trace tr s' h' acc' r')
      show ?case
      proof (intro impI)
        assume "s' = s" "h' = h"
        with trace(2) assms have "tr s h (acc' @ [v]) = Some r'"
          by (auto simp: chain_block_def bind_eq_Some_conv)
        with trace(1) show False by blast
      qed
    qed
    with that show False by blast
  qed
  then show ?thesis by (cases "trace_canonical s h acc") auto
qed

subsection \<open>When finalization succeeds\<close>

definition always_ok :: "('s \<Rightarrow> ('e + unit) \<times> 's) \<Rightarrow> bool" where
  "always_ok f \<longleftrightarrow> (\<forall>s. fst (f s) = Inr ())"

lemma always_ok_run: "(\<And>f. f \<in> set fs \<Longrightarrow> always_ok f) \<Longrightarrow> always_ok (run_ops fs)"
  using run_ops_all_ok [of fs] by (auto simp: always_ok_def)

lemma always_ok_writes:
  assumes "writes_ok E"
  shows "always_ok (db_write (put_transaction E tx))" "always_ok (db_write (put_notarization E m))"
    "always_ok (db_write (put_finalized_block E b))"
    "always_ok (db_write (put_nullified_block E b))" "always_ok (db_write (put_nullification E n))"
    "always_ok (db_write (put_vote E v))" "always_ok (db_write (put_nullify E nf))"
    "always_ok (write_leader E vn l)" "always_ok (write_l_notarization E ln)"
    "map_of (id_to_public_key P) l \<noteq> None \<Longrightarrow> always_ok (write_view E P vn l x y)"
  using assms
  by (auto simp: always_ok_def writes_ok_def db_write_def put_transaction_def put_notarization_def put_nullified_block_def
      put_nullification_def put_vote_def put_nullify_def write_leader_def put_leader_def write_view_def
      put_view_def put_value_def write_l_notarization_def put_l_notarization_def put_finalized_block_def
      split: option.splits prod.splits)

lemma always_ok_remove_diff: "always_ok (remove_diff vn)"
  by (simp add: always_ok_def remove_diff_def)

lemma account_writes_ok:
  assumes "writes_ok E"
  shows "\<exists>st'. create_account_write E ca st = Inr st'" "\<exists>st'. update_account_write E au st = Inr st'"
  using assms
  by (auto simp: writes_ok_def create_account_write_def update_account_write_def put_account_def put_value_def
      split: option.splits sum.splits prod.splits)

lemma run_writes_ok: "(\<And>f st. f \<in> set fs \<Longrightarrow> \<exists>st'. f st = Inr st') \<Longrightarrow> fst (run_writes fs st) = None"
proof (induction fs arbitrary: st)
  case (Cons f fs)
  obtain st' where "f st = Inr st'" using Cons.prems [of f st] by auto
  moreover have "fst (run_writes fs st') = None" by (rule Cons.IH) (rule Cons.prems, simp)
  ultimately show ?case by simp
qed simp

lemma apply_diff_ok: "writes_ok E \<Longrightarrow> fst (apply_diff_to_db E d st) = None"
  unfolding apply_diff_to_db_def by (rule run_writes_ok) (auto simp: account_writes_ok)

lemma finalize_loop_ok: "writes_ok E \<Longrightarrow> fst (finalize_loop E v ds st) = None"
proof (induction E v ds st rule: finalize_loop.induct)
  case (2 E view v d ds st)
  with apply_diff_ok [OF 2(2), of d st] show ?case by (auto split: prod.splits option.splits)
qed simp

lemma always_ok_finalize: "writes_ok E \<Longrightarrow> always_ok (finalize_up_to E v)"
  using finalize_loop_ok [of E v]
  by (auto simp: always_ok_def finalize_up_to_def split: prod.splits option.splits) (metis fst_conv option.distinct(1))

lemmas write_oks = always_ok_writes always_ok_remove_diff always_ok_finalize

definition leader_known :: "peer_set \<Rightarrow> view_context \<Rightarrow> bool" where
  "leader_known P ctx \<longleftrightarrow> map_of (id_to_public_key P) (vc_leader_id ctx) \<noteq> None"

lemma persist_ok:
  assumes "writes_ok E" and "leader_known P ctx"
  shows "vc_block ctx \<noteq> None \<Longrightarrow> vc_block_hash ctx \<noteq> None \<Longrightarrow> vc_m_notarization ctx \<noteq> None \<Longrightarrow>
      always_ok (persist_l_notarized_view E P ctx)"
    and "vc_m_notarization ctx \<noteq> None \<Longrightarrow> always_ok (persist_m_notarized_view E P ctx)"
    and "always_ok (persist_nullified_view_or_metadata E P ctx)"
  using assms
  by (auto simp: persist_l_notarized_view_def persist_m_notarized_view_def persist_nullified_view_or_metadata_def
      persist_nullified_view_def write_finalized_block_def opt_write_def leader_known_def write_oks
      split: option.splits intro!: always_ok_run)

lemma collect_view_ok:
  assumes "writes_ok E" and "v \<in> set can"
    and "\<And>ctx. map_of (ch_views s) u = Some ctx \<Longrightarrow> leader_known P ctx"
    and "\<And>ctx. map_of (ch_views s) u = Some ctx \<Longrightarrow> u \<in> set can \<Longrightarrow>
      vc_block ctx \<noteq> None \<and> vc_block_hash ctx \<noteq> None \<and> vc_m_notarization ctx \<noteq> None"
  shows "fst (collect_view E c P v can u s) = Inr ()"
proof (cases "map_of (ch_views s) u")
  case None
  then show ?thesis by (simp add: collect_view_def)
next
  case (Some ctx)
  from persist_ok [OF assms(1) assms(3) [OF Some]] assms(4) [OF Some] show ?thesis
    using Some assms(2) by (auto simp: collect_view_def Let_def always_ok_def split: option.splits)
qed

lemma trace_of_chain: "parent_chain s h vs \<Longrightarrow> trace_canonical s h acc = Some (acc @ vs, [])"
proof (induction s h vs arbitrary: acc rule: parent_chain.induct)
  case (1 s h)
  then show ?case by (simp add: trace_canonical.simps)
next
  case (2 s h v vs)
  then obtain b where b: "chain_block s v = Some b" "parent_chain s (b_parent b) vs" "find_parent_view h s = Some v"
    by (auto split: option.splits)
  with 2(1) [of b "acc @ [v]"] show ?case
    by (auto simp: trace_canonical.simps [of s h] chain_block_def bind_eq_Some_conv)
qed

lemma collect_run_ok:
  assumes "writes_ok E" and "v \<in> set can" and "hm_invar (ch_views t)"
    and "\<And>u ctx. map_of (ch_views t) u = Some ctx \<Longrightarrow> u \<in> set us \<Longrightarrow> leader_known P ctx
      \<and> (u \<in> set can \<longrightarrow> vc_block ctx \<noteq> None \<and> vc_block_hash ctx \<noteq> None \<and> vc_m_notarization ctx \<noteq> None)"
  shows "fst (run_ops (map (collect_view E c P v can) us) t) = Inr ()"
  using assms
proof (induction us arbitrary: t)
  case (Cons u us)
  have "fst (collect_view E c P v can u t) = Inr ()"
    by (rule collect_view_ok [OF Cons.prems(1,2)]) (use Cons.prems(4) in auto)
  then obtain t1 where t1: "collect_view E c P v can u t = (Inr (), t1)" by (cases "collect_view E c P v can u t") auto
  have v1: "ch_views t1 = (case map_of (ch_views t) u of
        Some ctx \<Rightarrow> if retained v can u ctx then ch_views t else AList.delete u (ch_views t)
      | None \<Rightarrow> ch_views t)"
    using collect_view_views [of E c P v can u t] t1 by simp
  have i1: "hm_invar (ch_views t1)" using Cons.prems(3) by (auto simp: v1 hm.invar_del split: option.splits)
  have sub: "map_of (ch_views t1) x = Some ctx \<Longrightarrow> map_of (ch_views t) x = Some ctx" for x ctx
    by (auto simp: v1 delete_conv' split: option.splits if_splits)
  have "fst (run_ops (map (collect_view E c P v can) us) t1) = Inr ()"
    by (rule Cons.IH [OF Cons.prems(1,2) i1]) (rule Cons.prems(4) [OF sub], assumption, simp)
  with t1 show ?case by simp
qed simp

lemma finalize_succeeds_lemma:
  assumes "ch_inv E P s" and "writes_ok E"
    and "finalizable E c v s ctx b" and "parent_chain s (b_parent b) vs"
    and "list_all (\<lambda>(u, ctx). u \<le> v \<longrightarrow> leader_known P ctx \<and> (u \<in> set (v # vs) \<longrightarrow> vc_m_notarization ctx \<noteq> None))
      (ch_views s)"
  shows "\<exists>s'. finalize_with_l_notarization E c P v s = Some (Inr (), s') \<and> map_of (ch_views s') v = None"
proof -
  have i: "hm_invar (ch_views s)" using assms(1) by (simp add: ch_inv_def)
  have pres: "map_of (ch_views s) v = Some ctx" "v \<le> ch_current_view s" "vc_block ctx = Some b"
    using assms(3) by (simp_all add: finalizable_def)
  then obtain lo where lo: "min_key (ch_views s) = Some lo" "lo \<le> v" using min_key_le [of "ch_views s" v] by auto
  let ?s1 = "s\<lparr>ch_recovery := []\<rparr>"
  have u: "non_finalized_views_until v ?s1 = Some (lo, v)"
    using lo pres(2) by (simp add: non_finalized_views_until_def Let_def min_absorb1)
  have blk: "vc_block x \<noteq> None \<and> vc_block_hash x \<noteq> None" if "map_of (ch_views s) w = Some x" "w \<in> set (v # vs)" for w x
  proof -
    have "vc_block x \<noteq> None"
      using that parent_chain_blocks [OF assms(4), of w] pres by (auto simp: chain_block_def)
    then show ?thesis
      using ch_invD [OF assms(1) that(1)] by (auto simp: ctx_ok_def vc_inv_def hash_inv_def)
  qed
  have "fst (run_ops (map (collect_view E c P v (v # vs)) [lo..<v + 1]) ?s1) = Inr ()"
  proof (rule collect_run_ok [OF assms(2)])
    show "v \<in> set (v # vs)" "hm_invar (ch_views ?s1)" using i by simp_all
    fix w x assume w: "map_of (ch_views ?s1) w = Some x" "w \<in> set [lo..<v + 1]"
    then have "(w, x) \<in> set (ch_views s)" "w \<le> v" by (auto dest: map_of_SomeD)
    with assms(5) blk [of w x] w(1) show "leader_known P x
      \<and> (w \<in> set (v # vs) \<longrightarrow> vc_block x \<noteq> None \<and> vc_block_hash x \<noteq> None \<and> vc_m_notarization x \<noteq> None)"
      by (auto simp: list_all_iff)
  qed
  then obtain s' where r: "run_ops (map (collect_view E c P v (v # vs)) [lo..<v + 1]) ?s1 = (Inr (), s')"
    by (cases "run_ops (map (collect_view E c P v (v # vs)) [lo..<v + 1]) ?s1") auto
  have "finalize_with_l_notarization E c P v s = Some (Inr (), s')"
    using finalize_finalizable [OF assms(3), of P] trace_of_chain [OF assms(4), of "[v]"] u r
    by (simp add: finish_def Let_def)
  moreover have "map_of (ch_views s') v = None"
    using collect_run [OF r, of s] i lo(2) pres by (simp add: retained_def)
  ultimately show ?thesis by blast
qed

text \<open>C4: finalization makes progress. If writes succeed and the peer set knows the leaders of the
  views involved, then a view at or below the current one that is not nullified and has its block
  and \<open>N - F\<close> votes, whose ancestors in the chain (\<open>vs\<close>) all have their blocks and, with it,
  M-notarizations, and which passes the parent check, is finalized by the call: it returns \<open>Ok\<close>
  and the view is gone from the chain.\<close>

theorem finalize_succeeds:
  assumes "ch_inv E P s" and "writes_ok E"
    and "finalizable E c v s ctx b" and "parent_chain s (b_parent b) vs"
    and "list_all (\<lambda>(u, ctx). u \<le> v \<longrightarrow> leader_known P ctx \<and> (u \<in> set (v # vs) \<longrightarrow> vc_m_notarization ctx \<noteq> None))
      (ch_views s)"
  shows "\<exists>s'. finalize_with_l_notarization E c P v s = Some (Inr (), s') \<and> map_of (ch_views s') v = None"
  by (rule finalize_succeeds_lemma [OF assms])

definition finalizable_block :: "cfg \<Rightarrow> view_no \<Rightarrow> view_chain \<Rightarrow> block option" where
  "finalizable_block c v s = (case map_of (ch_views s) v of
     None \<Rightarrow> None
   | Some ctx \<Rightarrow> (case vc_block ctx of
         None \<Rightarrow> None
       | Some b \<Rightarrow> if v \<le> ch_current_view s \<and> cN c - cF c \<le> length (vc_votes ctx) \<and> \<not> is_nullified ctx
             \<and> finalize_parent_check v b s = Inr True then Some b else None))"

lemma finalizable_blockD: "finalizable_block c v s = Some b \<Longrightarrow> \<exists>ctx. finalizable E c v s ctx b"
  by (auto simp: finalizable_block_def finalizable_def split: option.splits if_splits)

subsection \<open>A concrete chain\<close>

text \<open>Two peers (\<open>N = 2\<close>, \<open>F = 0\<close>), replica 2; peer 1 leads view 1 and peer 2 leads view 2. Block
  hashes are [2] in view 1 and [3] in view 2.\<close>

definition small_env :: env where
  "small_env = toy_env\<lparr>blake3 := (\<lambda>bs. [sum_list bs])\<rparr>"

lemma small_env_ark_laws: "ark_laws small_env 7"
  using toy_env_ark_laws by (simp add: ark_laws_def small_env_def)

definition toy_cfg2 :: cfg where
  "toy_cfg2 = \<lparr>cN = 2, cF = 0, cM = 1\<rparr>"

definition toy_two :: peer_set where
  "toy_two = \<lparr>id_to_public_key = [(1, 1), (2, 2)], sorted_peer_ids = [1, 2]\<rparr>"

definition toy_cblock :: "nat \<Rightarrow> hash \<Rightarrow> hash \<Rightarrow> transaction list \<Rightarrow> block" where
  "toy_cblock view h parent txs = \<lparr>b_leader = of_nat view,
     b_header = \<lparr>h_view = view, h_parent_block_hash = parent, h_timestamp = 0\<rparr>,
     b_leader_signature = bls_sign small_env (int view) h, b_transactions = txs, b_hash = Some h,
     b_is_finalized = False, b_height = view\<rparr>"

definition toy_cvotes :: "nat \<Rightarrow> nat list \<Rightarrow> hash \<Rightarrow> vote list" where
  "toy_cvotes view is h = map (\<lambda>i. \<lparr>v_view = view, v_block_hash = h,
     v_signature = bls_sign small_env (int i) h, v_peer_id = of_nat i, v_leader_id = of_nat view\<rparr>) is"

definition toy_mnot :: m_notarization where
  "toy_mnot = \<lparr>mn_view = 1, mn_block_hash = [2],
     mn_aggregated_signature = aggregate_signatures small_env (map (\<lambda>i. bls_sign small_env i [2]) [2]),
     mn_peer_ids = [2], mn_leader_id = 1\<rparr>"

definition route_votes :: "env \<Rightarrow> cfg \<Rightarrow> peer_set \<Rightarrow> vote list \<Rightarrow> view_chain \<Rightarrow> view_chain" where
  "route_votes E c P vs s = fold (\<lambda>v s. snd (route_vote E c P v s)) vs s"

definition toy_ctx :: "nat \<Rightarrow> hash \<Rightarrow> view_context" where
  "toy_ctx view parent = view_context_new 0 view (of_nat view) 2 parent"

definition toy_ch0 :: view_chain where
  "toy_ch0 = view_chain_new small_env (toy_ctx 1 (genesis_hash small_env)) (writer_new init_tables 0)"

text \<open>View 1 is notarized by a message, its block is missing; view 2 gets a block on top of it
  and the votes of the peers \<open>is\<close>.\<close>

definition toy_ch1 :: view_chain where
  "toy_ch1 = snd (progress_with_m_notarization (toy_ctx 2 [2])
     (snd (route_m_notarization small_env toy_cfg2 toy_two toy_mnot toy_ch0)))"

definition toy_ch2 :: "block \<Rightarrow> nat list \<Rightarrow> view_chain" where
  "toy_ch2 b is = route_votes small_env toy_cfg2 toy_two (toy_cvotes 2 is [3])
     (snd (add_block_proposal small_env toy_cfg2 toy_two 2 (toy_cblock 2 [3] [2] []) state_diff_new
       (snd (add_recovered_block small_env toy_cfg2 1 b toy_ch1))))"

lemma route_votes_steps: "(ch_step E c P)\<^sup>*\<^sup>* s (route_votes E c P vs s)"
proof (induction vs arbitrary: s)
  case (Cons v vs)
  then show ?case
    using converse_rtranclp_into_rtranclp [of "ch_step E c P" s "snd (route_vote E c P v s)"] ch_step.vote
    by (simp add: route_votes_def)
qed (simp add: route_votes_def)

lemma toy_ch1_steps: "(ch_step small_env toy_cfg2 toy_two)\<^sup>*\<^sup>* toy_ch0 toy_ch1"
  unfolding toy_ch1_def toy_ctx_def
  by (rule rtranclp.rtrancl_into_rtrancl [OF r_into_rtranclp], rule ch_step.m_notarization,
      rule ch_step.progress_m)

lemma toy_ch2_steps: "(ch_step small_env toy_cfg2 toy_two)\<^sup>*\<^sup>* toy_ch0 (toy_ch2 b is)"
proof -
  have "(ch_step small_env toy_cfg2 toy_two)\<^sup>*\<^sup>* toy_ch0
      (snd (add_block_proposal small_env toy_cfg2 toy_two 2 (toy_cblock 2 [3] [2] []) state_diff_new
       (snd (add_recovered_block small_env toy_cfg2 1 b toy_ch1))))"
    by (rule rtranclp.rtrancl_into_rtrancl [OF rtranclp.rtrancl_into_rtrancl [OF toy_ch1_steps]],
        rule ch_step.recovered, rule ch_step.proposal)
  from rtranclp_trans [OF this route_votes_steps] show ?thesis by (simp add: toy_ch2_def)
qed

lemma toy_ch2_inv: "ch_inv small_env toy_two (toy_ch2 b is)"
proof -
  have "ch_init small_env toy_ch0"
    unfolding ch_init_def toy_ch0_def toy_ctx_def using small_env_ark_laws by blast
  from chm.inv_reachable [OF this toy_ch2_steps] show ?thesis by (simp add: ch_machine_inv_def)
qed


text \<open>The honest block of view 1, and one that only claims its hash.\<close>

definition toy_honest :: block where
  "toy_honest = toy_cblock 1 [2] (genesis_hash small_env) []"

definition toy_forged :: block where
  "toy_forged = toy_cblock 1 [2] (genesis_hash small_env)
     [\<lparr>tx_sender = [1], tx_instruction = Mint [1] 1000000, tx_nonce = 0, tx_timestamp = 0, tx_fee = 0,
       tx_hash = [4], tx_signature = []\<rparr>]"

lemma toy_forged_finalizable:
  "finalizable_block toy_cfg2 2 (toy_ch2 toy_forged [1]) = Some (toy_cblock 2 [3] [2] [])"
  by code_simp

lemma toy_forged_chain:
  "parent_chain (toy_ch2 toy_forged [1]) (b_parent (toy_cblock 2 [3] [2] [])) [1]
   \<and> list_all (\<lambda>(u, ctx). u \<le> 2 \<longrightarrow> leader_known toy_two ctx
       \<and> (u \<in> set [2, 1] \<longrightarrow> vc_m_notarization ctx \<noteq> None)) (ch_views (toy_ch2 toy_forged [1]))"
  by code_simp

lemma toy_forged_block: "chain_block (toy_ch2 toy_forged [1]) 1 = Some toy_forged"
  by code_simp

lemma small_env_writes_ok: "writes_ok small_env"
  by (simp add: writes_ok_def small_env_def toy_env_def)

lemma toy_finalize_forged:
  obtains s' where "finalize_with_l_notarization small_env toy_cfg2 toy_two 2 (toy_ch2 toy_forged [1]) = Some (Inr (), s')"
    "map_of (ch_views s') 2 \<noteq> map_of (ch_views (toy_ch2 toy_forged [1])) 2"
proof -
  obtain ctx where f: "finalizable small_env toy_cfg2 2 (toy_ch2 toy_forged [1]) ctx (toy_cblock 2 [3] [2] [])"
    using finalizable_blockD [OF toy_forged_finalizable] by blast
  obtain s' where "finalize_with_l_notarization small_env toy_cfg2 toy_two 2 (toy_ch2 toy_forged [1]) = Some (Inr (), s')"
      "map_of (ch_views s') 2 = None"
    using finalize_succeeds_lemma [OF toy_ch2_inv small_env_writes_ok f, of "[1]"] toy_forged_chain by blast
  moreover have "map_of (ch_views (toy_ch2 toy_forged [1])) 2 \<noteq> None" using f by (simp add: finalizable_def)
  ultimately show thesis using that by metis
qed

theorem finalize_succeeds_witness:
  "writes_ok small_env \<and> (\<exists>s'. finalize_with_l_notarization small_env toy_cfg2 toy_two 2 (toy_ch2 toy_forged [1]) = Some (Inr (), s')
     \<and> map_of (ch_views s') 2 = None)"
proof -
  obtain ctx where f: "finalizable small_env toy_cfg2 2 (toy_ch2 toy_forged [1]) ctx (toy_cblock 2 [3] [2] [])"
    using finalizable_blockD [OF toy_forged_finalizable] by blast
  from finalize_succeeds [OF toy_ch2_inv small_env_writes_ok f, of "[1]"] toy_forged_chain small_env_writes_ok
  show ?thesis by blast
qed


lemma parents_precede_code:
  assumes "hm_invar (ch_views s)"
  shows "parents_precede s \<longleftrightarrow> list_all (\<lambda>(v, ctx). case vc_block ctx of None \<Rightarrow> True
      | Some b \<Rightarrow> (case find_parent_view (b_parent b) s of None \<Rightarrow> True | Some p \<Rightarrow> p < v)) (ch_views s)"
  using assms
  by (fastforce simp: parents_precede_def chain_block_def bind_eq_Some_conv list_all_iff hm_invar_def split: option.splits)

theorem finalize_returns_witness:
  "parents_precede (toy_ch2 toy_honest [])
   \<and> (\<exists>r s'. finalize_with_l_notarization small_env toy_cfg2 toy_two 2 (toy_ch2 toy_honest []) = Some (r, s'))"
proof -
  have "hm_invar (ch_views (toy_ch2 toy_honest []))" using toy_ch2_inv by (simp add: ch_inv_def)
  moreover have "list_all (\<lambda>(v, ctx). case vc_block ctx of None \<Rightarrow> True
      | Some b \<Rightarrow> (case find_parent_view (b_parent b) (toy_ch2 toy_honest []) of None \<Rightarrow> True | Some p \<Rightarrow> p < v))
      (ch_views (toy_ch2 toy_honest []))" by code_simp
  ultimately have "parents_precede (toy_ch2 toy_honest [])" by (simp add: parents_precede_code)
  with finalize_returns show ?thesis by blast
qed

text \<open>C39: a recovered block is not checked against the hash it claims. View 1 was notarized with hash
  [2] and its block is missing; a peer answers the recovery request with a block that stores the
  hash [2] but holds a transaction of the peer's own, minting a million coins. The block is accepted
  (\<open>add_recovered_block\<close> compares the stored hash, which \<open>get_hash\<close> returns without recomputing
  it), and when view 2 is finalized it is committed as the finalized block of hash [2], although the
  hash of its contents is a different one.\<close>

theorem forged_recovered_block_is_finalized:
  "block_compute_hash small_env toy_forged \<noteq> [2]
   \<and> fst (add_recovered_block small_env toy_cfg2 1 toy_forged toy_ch1) = Inr False
   \<and> (\<exists>s'. finalize_with_l_notarization small_env toy_cfg2 toy_two 2 (toy_ch2 toy_forged [1]) = Some (Inr (), s')
        \<and> get_finalized_block [2] (pw_store (ch_writer s')) = Inr (Some (toy_forged\<lparr>b_is_finalized := True\<rparr>)))"
proof (intro conjI)
  show "block_compute_hash small_env toy_forged \<noteq> [2]" by code_simp
  show "fst (add_recovered_block small_env toy_cfg2 1 toy_forged toy_ch1) = Inr False" by code_simp
  let ?s = "toy_ch2 toy_forged [1]"
  obtain s' where s': "finalize_with_l_notarization small_env toy_cfg2 toy_two 2 ?s = Some (Inr (), s')"
    "map_of (ch_views s') 2 \<noteq> map_of (ch_views ?s) 2" by (rule toy_finalize_forged)
  obtain b vs where b: "chain_block ?s 2 = Some b" "parent_chain ?s (b_parent b) vs"
    and tab: "\<forall>h. if h \<in> get_hash small_env ` committed_blocks ?s 2 vs
         then \<exists>b' \<in> committed_blocks ?s 2 vs. get_hash small_env b' = h
           \<and> get_finalized_block h (pw_store (ch_writer s')) = Inr (Some (b'\<lparr>b_is_finalized := True\<rparr>))
         else get_finalized_block h (pw_store (ch_writer s')) = get_finalized_block h (pw_store (ch_writer ?s))"
    using finalize_commits [OF toy_ch2_inv s'] by blast
  have b2: "b = toy_cblock 2 [3] [2] []"
    using finalizable_blockD [OF toy_forged_finalizable] b(1) by (auto simp: finalizable_def chain_block_def)
  from trace_of_chain [OF b(2), of "[]"] trace_of_chain [of ?s "b_parent b" "[1]" "[]"] toy_forged_chain b2
  have "vs = [1]" by simp
  with toy_forged_block b(1) b2 have B: "committed_blocks ?s 2 vs = {toy_forged, toy_cblock 2 [3] [2] []}"
    by (auto simp: committed_blocks_def)
  have "get_hash small_env toy_forged = [2]" "get_hash small_env (toy_cblock 2 [3] [2] []) = [3]" by code_simp+
  with tab [rule_format, of "[2]"] have "get_finalized_block [2] (pw_store (ch_writer s')) = Inr (Some (toy_forged\<lparr>b_is_finalized := True\<rparr>))"
    unfolding B by (auto split: if_splits)
  with s'(1) show "\<exists>s'. finalize_with_l_notarization small_env toy_cfg2 toy_two 2 ?s = Some (Inr (), s')
        \<and> get_finalized_block [2] (pw_store (ch_writer s')) = Inr (Some (toy_forged\<lparr>b_is_finalized := True\<rparr>))" by blast
qed

definition toy_cyclic :: block where
  "toy_cyclic = toy_cblock 1 [2] [2] []"

text \<open>A recovered block can hang a replica. The answer to the recovery request for view 1 claims
  the expected hash [2] and names [2] as its own parent. It is accepted, and the next finalization,
  of view 2 with all its votes in place, never returns: the walk along the parent hashes goes round
  view 1 for ever.\<close>

theorem recovered_block_hangs_finalization:
  "fst (add_recovered_block small_env toy_cfg2 1 toy_cyclic toy_ch1) = Inr False
   \<and> map_option (\<lambda>ctx. length (vc_votes ctx)) (find_view_context 2 (toy_ch2 toy_cyclic [1])) = Some 2
   \<and> finalize_with_l_notarization small_env toy_cfg2 toy_two 2 (toy_ch2 toy_cyclic [1]) = None"
proof (intro conjI)
  let ?s = "toy_ch2 toy_cyclic [1]"
  show "fst (add_recovered_block small_env toy_cfg2 1 toy_cyclic toy_ch1) = Inr False" by code_simp
  show "map_option (\<lambda>ctx. length (vc_votes ctx)) (find_view_context 2 ?s) = Some 2" by code_simp
  have "finalizable_block toy_cfg2 2 ?s = Some (toy_cblock 2 [3] [2] [])" by code_simp
  then obtain ctx where f: "finalizable small_env toy_cfg2 2 ?s ctx (toy_cblock 2 [3] [2] [])"
    using finalizable_blockD by blast
  have p: "find_parent_view [2] ?s = Some 1" by code_simp
  have b: "chain_block ?s 1 = Some toy_cyclic" by code_simp
  have "b_parent toy_cyclic = [2]" "b_parent (toy_cblock 2 [3] [2] []) = [2]" by code_simp+
  with trace_canonical_loops [OF p b] finalize_finalizable [OF f, of toy_two]
  show "finalize_with_l_notarization small_env toy_cfg2 toy_two 2 ?s = None" by simp
qed

subsection \<open>The parent of a new view\<close>

text \<open>A view below \<open>new_view\<close> that is notarized and not nullified.\<close>

definition parent_candidate :: "view_no \<Rightarrow> view_no \<times> view_context \<Rightarrow> bool" where
  "parent_candidate new_view e \<longleftrightarrow> fst e < new_view \<and> \<not> is_nullified (snd e) \<and> vc_m_notarization (snd e) \<noteq> None"

definition notarized_hash :: "view_context \<Rightarrow> hash option" where
  "notarized_hash ctx = map_option mn_block_hash (vc_m_notarization ctx)"

definition is_greatest_candidate :: "(view_no \<times> view_context) list \<Rightarrow> (view_no \<times> hash) option \<Rightarrow> bool" where
  "is_greatest_candidate es r \<longleftrightarrow> (case r of
      None \<Rightarrow> es = []
    | Some (u, h) \<Rightarrow> (\<exists>ctx. (u, ctx) \<in> set es \<and> notarized_hash ctx = Some h) \<and> list_all (\<lambda>e. fst e \<le> u) es)"

lemma select_parent_fold:
  "is_greatest_candidate (filter (parent_candidate nv) m) (fold (select_parent_step nv) m None)"
proof (induction m rule: rev_induct)
  case Nil
  then show ?case by (simp add: is_greatest_candidate_def)
next
  case (snoc e m)
  obtain v ctx where e: "e = (v, ctx)" by (cases e)
  let ?es = "filter (parent_candidate nv) m" and ?r = "fold (select_parent_step nv) m None"
  show ?case
  proof (cases "parent_candidate nv e")
    case False
    then have "select_parent_step nv e ?r = ?r"
      by (auto simp: e select_parent_step_def parent_candidate_def split: option.splits)
    with False snoc show ?thesis by simp
  next
    case True
    then obtain mn where mn: "vc_m_notarization ctx = Some mn" "\<not> is_nullified ctx" "v < nv"
      by (auto simp: e parent_candidate_def)
    then have nh: "notarized_hash ctx = Some (mn_block_hash mn)" by (simp add: notarized_hash_def)
    show ?thesis
    proof (cases ?r)
      case None
      have "select_parent_step nv (v, ctx) None = Some (v, mn_block_hash mn)"
        using mn by (simp add: select_parent_step_def)
      with None snoc True nh show ?thesis by (simp add: is_greatest_candidate_def e)
    next
      case (Some p)
      obtain u h where p: "p = (u, h)" by (cases p)
      from snoc Some p obtain ctx' where i: "(u, ctx') \<in> set ?es" "notarized_hash ctx' = Some h"
          "list_all (\<lambda>e. fst e \<le> u) ?es"
        by (auto simp: is_greatest_candidate_def)
      have r: "select_parent_step nv e ?r = (if u < v then Some (v, mn_block_hash mn) else Some (u, h))"
        using mn Some p by (simp add: e select_parent_step_def)
      show ?thesis
      proof (cases "u < v")
        case True
        then have "list_all (\<lambda>e. fst e \<le> v) ?es" using i(3) by (auto simp: list_all_iff)
        with True \<open>parent_candidate nv e\<close> r nh show ?thesis by (auto simp: is_greatest_candidate_def e)
      next
        case False
        with \<open>parent_candidate nv e\<close> r i show ?thesis by (auto simp: is_greatest_candidate_def e)
      qed
    qed
  qed
qed

text \<open>C33: \<open>select_parent\<close> is the protocol's SelectParent: the hash notarized in the greatest view below
  \<open>new_view\<close> that has an M-notarization and is not nullified, or the committed tip when there is
  none, whatever the iteration order of the map.\<close>

theorem select_parent_spec:
  "let es = filter (parent_candidate new_view) (ch_views s)
   in if es = [] then select_parent new_view s = ch_committed_hash s
      else \<exists>v ctx. (v, ctx) \<in> set es \<and> notarized_hash ctx = Some (select_parent new_view s)
             \<and> list_all (\<lambda>e. fst e \<le> v) es"
proof -
  let ?es = "filter (parent_candidate new_view) (ch_views s)"
  let ?r = "fold (select_parent_step new_view) (ch_views s) None"
  note r = select_parent_fold [of new_view "ch_views s", unfolded is_greatest_candidate_def]
  show ?thesis
  proof (cases ?r)
    case None
    with r show ?thesis by (simp add: select_parent_def)
  next
    case (Some p)
    obtain u h where p: "p = (u, h)" by (cases p)
    from r Some p obtain ctx where i: "(u, ctx) \<in> set ?es" "notarized_hash ctx = Some h" "list_all (\<lambda>e. fst e \<le> u) ?es"
      by auto
    have h: "select_parent new_view s = h" using Some p by (simp add: select_parent_def)
    have ne: "?es \<noteq> []" using i(1) by (metis empty_iff empty_set)
    show ?thesis unfolding Let_def if_not_P [OF ne] h using i by blast
  qed
qed

subsection \<open>Which proposals enter the chain\<close>

text \<open>The parent of a block is fit to be extended: it is the committed tip, or it is in the chain with
  an M-notarization and without an aggregated nullification, and all views in between that the chain
  has are nullified, by an aggregated nullification or by the replica itself. As in the code, the
  replica's own nullify message for the parent's view does not count against the parent.\<close>

definition extends_chain :: "view_no \<Rightarrow> block \<Rightarrow> view_chain \<Rightarrow> bool" where
  "extends_chain v b s \<longleftrightarrow> (case find_parent_view (b_parent b) s of
      None \<Rightarrow> b_parent b = ch_committed_hash s
    | Some p \<Rightarrow> (case map_of (ch_views s) p of
          None \<Rightarrow> False
        | Some pctx \<Rightarrow> vc_m_notarization pctx \<noteq> None \<and> vc_nullification pctx = None
            \<and> intermediates_nullified p v s))"

lemma proposal_parent_False: "proposal_parent v b s = Inr False \<Longrightarrow> extends_chain v b s"
  by (auto simp: proposal_parent_def extends_chain_def split: option.splits if_splits)

text \<open>C6: a proposal that \<open>add_block_proposal\<close> puts into its view extends the chain: the block is
  for that view, signed by the view's leader, its parent is the committed tip or the block of a view
  with an M-notarization and without an aggregated nullification, and every view in between that the
  chain still has is nullified, by an aggregated nullification or by the replica itself. A parent view
  that only the replica itself has nullified is accepted.\<close>

theorem adopted_proposal_extends_chain:
  assumes "ch_inv E P s" and "chain_block s v = None"
    and "chain_block (snd (add_block_proposal E c P v b d s)) v = Some b'"
  shows "extends_chain v b s \<and> b_view b = v \<and> get_hash E b' = get_hash E b
    \<and> (\<exists>ctx pk. map_of (ch_views s) v = Some ctx \<and> b_leader b = vc_leader_id ctx
        \<and> get_public_key P (b_leader b) = Inr pk \<and> bls_verify E pk (get_hash E b) (b_leader_signature b))"
proof -
  obtain ctx where ctx: "map_of (ch_views s) v = Some ctx"
    using assms(2,3) by (cases "map_of (ch_views s) v") (auto simp: add_block_proposal_def chain_block_def)
  have nb: "vc_block ctx = None" using assms(2) ctx by (simp add: chain_block_def)
  have vn: "vc_view_number ctx = v" using ch_invD [OF assms(1) ctx] by (simp add: ctx_ok_def)
  have pp: "proposal_parent v b s = Inr False" and b': "vc_block (snd (add_new_view_block E c b d P ctx)) = Some b'"
    using assms(3) ctx nb
    by (auto simp: add_block_proposal_def chain_block_def set_ctx_def update_conv' split: sum.splits bool.splits if_splits prod.splits)
  have adm: "block_admissible E P b ctx"
    using add_new_view_block_inadmissible [of E P b ctx c d] b' nb by (cases "block_admissible E P b ctx") auto
  then have "b_view b = v" "b_leader b = vc_leader_id ctx" using vn by (simp_all add: block_admissible_def)
  moreover obtain pk where "get_public_key P (vc_leader_id ctx) = Inr pk" "bls_verify E pk (get_hash E b) (b_leader_signature b)"
    using adm by (auto simp: block_admissible_def)
  moreover have "get_hash E b' = get_hash E b"
    using b' add_new_view_block_admissible [OF adm, of c d]
    by (auto simp: Let_def finalize_flag_def promote_votes_def adopt_block_def split: if_splits)
  ultimately show ?thesis using proposal_parent_False [OF pp] ctx by auto
qed

lemma toy_ch1_view2: "chain_block toy_ch1 2 = None"
  by code_simp

lemma toy_adopted:
  "chain_block (snd (add_block_proposal small_env toy_cfg2 toy_two 2 (toy_cblock 2 [3] [2] []) state_diff_new toy_ch1)) 2
     = Some (toy_cblock 2 [3] [2] [])"
  by code_simp

theorem adopted_proposal_extends_chain_witness:
  "extends_chain 2 (toy_cblock 2 [3] [2] []) toy_ch1 \<and> b_view (toy_cblock 2 [3] [2] []) = 2"
proof -
  have "ch_init small_env toy_ch0"
    unfolding ch_init_def toy_ch0_def toy_ctx_def using small_env_ark_laws by blast
  from chm.inv_reachable [OF this toy_ch1_steps] have "ch_inv small_env toy_two toy_ch1" by (simp add: ch_machine_inv_def)
  from adopted_proposal_extends_chain [OF this toy_ch1_view2 toy_adopted] show ?thesis by blast
qed

theorem view_chain_invariant_witness:
  "(ch_step small_env toy_cfg2 toy_two)\<^sup>*\<^sup>* toy_ch0 (toy_ch2 toy_honest [1])
   \<and> ch_inv small_env toy_two (toy_ch2 toy_honest [1]) \<and> map fst (ch_views (toy_ch2 toy_honest [1])) = [1, 2]"
proof (intro conjI)
  show r: "(ch_step small_env toy_cfg2 toy_two)\<^sup>*\<^sup>* toy_ch0 (toy_ch2 toy_honest [1])" by (rule toy_ch2_steps)
  show "ch_inv small_env toy_two (toy_ch2 toy_honest [1])"
    using r unfolding toy_ch0_def toy_ctx_def by (rule view_chain_invariant [OF small_env_ark_laws])
  show "map fst (ch_views (toy_ch2 toy_honest [1])) = [1, 2]" by code_simp
qed

subsection \<open>The next view to finalize\<close>

text \<open>A view below the current one that finalization accepts.\<close>

definition ready :: "env \<Rightarrow> cfg \<Rightarrow> view_chain \<Rightarrow> view_no \<Rightarrow> bool" where
  "ready E c s v \<longleftrightarrow> v < ch_current_view s \<and> (\<exists>ctx b. finalizable E c v s ctx b)"

lemma find_sorted:
  "sorted xs \<Longrightarrow> case List.find Q xs of
     None \<Rightarrow> \<forall>x \<in> set xs. \<not> Q x
   | Some x \<Rightarrow> x \<in> set xs \<and> Q x \<and> (\<forall>y \<in> set xs. y < x \<longrightarrow> \<not> Q y)"
  for xs :: "'a::linorder list"
  by (induction xs) (auto split: option.splits dest: leD)

definition parent_valid :: "view_chain \<Rightarrow> view_no \<Rightarrow> block \<Rightarrow> bool" where
  "parent_valid s v b = (case find_parent_view (b_parent b) s of
              Some p \<Rightarrow> (case map_of (ch_views s) p of
                  None \<Rightarrow> False
                | Some pctx \<Rightarrow> vc_m_notarization pctx \<noteq> None \<and> vc_block pctx \<noteq> None
                    \<and> intermediates_nullified p v s)
            | None \<Rightarrow> b_parent b = ch_committed_hash s)"

lemma parent_valid_check:
  assumes "ch_inv E P s" and "parents_precede s" and "chain_block s v = Some b"
  shows "parent_valid s v b \<longleftrightarrow> finalize_parent_check v b s = Inr True"
proof (cases "find_parent_view (b_parent b) s")
  case (Some p)
  have "hm_invar (ch_views s)" using assms(1) by (simp add: ch_inv_def)
  from find_parent_view_Some [OF this Some] obtain pctx where pctx: "map_of (ch_views s) p = Some pctx" .
  moreover have "p < v" using assms(2,3) Some by (auto simp: parents_precede_def)
  moreover have "vc_view_number pctx = p" using ch_invD [OF assms(1) pctx] by (simp add: ctx_ok_def)
  ultimately show ?thesis using Some by (auto simp: parent_valid_def finalize_parent_check_def)
qed (simp add: parent_valid_def finalize_parent_check_def)

lemma oldest_finalizable_lemma:
  assumes "ch_inv E P s" and "parents_precede s"
  shows "case oldest_finalizable_view c s of
     None \<Rightarrow> \<not> (\<exists>v. ready E c s v)
   | Some (Inl e) \<Rightarrow> False
   | Some (Inr (v, h)) \<Rightarrow> ready E c s v \<and> \<not> (\<exists>u < v. ready E c s u) \<and> map_option (get_hash E) (chain_block s v) = Some h"
proof -
  have i: "hm_invar (ch_views s)" using assms(1) by (simp add: ch_inv_def)
  let ?cand = "sort (map fst (filter (\<lambda>(v, ctx). length (vc_votes ctx) \<ge> cN c - cF c
              \<and> vc_block ctx \<noteq> None \<and> vc_nullification ctx = None \<and> \<not> vc_has_nullified ctx) (ch_views s)))"
  let ?Q = "\<lambda>v. v < ch_current_view s \<and> (case map_of (ch_views s) v of
               None \<Rightarrow> False
             | Some ctx \<Rightarrow> (case vc_block ctx of None \<Rightarrow> False | Some b \<Rightarrow> parent_valid s v b))"
  have cand: "v \<in> set ?cand \<longleftrightarrow> (\<exists>ctx. map_of (ch_views s) v = Some ctx \<and> cN c - cF c \<le> length (vc_votes ctx)
      \<and> vc_block ctx \<noteq> None \<and> \<not> is_nullified ctx)" for v
    using i by (force simp: hm_invar_def is_nullified_def)
  have rdy: "ready E c s v \<longleftrightarrow> v \<in> set ?cand \<and> ?Q v" for v
    unfolding cand ready_def finalizable_def
    using parent_valid_check [OF assms, of v]
    by (cases "map_of (ch_views s) v") (auto simp: chain_block_def split: option.splits)
  have old: "oldest_finalizable_view c s = (case List.find ?Q ?cand of
           None \<Rightarrow> None
         | Some v \<Rightarrow> (case map_of (ch_views s) v of
               None \<Rightarrow> Some (Inl (Panic UnwrapOnNone))
             | Some ctx \<Rightarrow> (case vc_block_hash ctx of
                   None \<Rightarrow> Some (Inl (Panic UnwrapOnNone))
                 | Some h \<Rightarrow> Some (Inr (v, h)))))"
    by (simp only: oldest_finalizable_view_def Let_def parent_valid_def)
  have "sorted ?cand" by simp
  note fs = find_sorted [OF this, of ?Q]
  show ?thesis
  proof (cases "List.find ?Q ?cand")
    case None
    with fs have "\<not> ready E c s v" for v by (auto simp: rdy)
    with None show ?thesis unfolding old by simp
  next
    case (Some v)
    with fs have v: "ready E c s v" "\<not> (\<exists>u < v. ready E c s u)" by (auto simp: rdy)
    then obtain ctx b where b: "map_of (ch_views s) v = Some ctx" "vc_block ctx = Some b"
      by (auto simp: ready_def finalizable_def)
    then have "vc_block_hash ctx = Some (get_hash E b)"
      using ch_invD [OF assms(1) b(1)] by (simp add: ctx_ok_def vc_inv_def hash_inv_def)
    with Some v b show ?thesis unfolding old by (simp add: chain_block_def)
  qed
qed


definition toy_ch3 :: view_chain where
  "toy_ch3 = snd (progress_with_m_notarization (toy_ctx 3 [3]) (toy_ch2 toy_honest [1]))"

lemma toy_ch3_inv: "ch_inv small_env toy_two toy_ch3"
  unfolding toy_ch3_def toy_ctx_def by (intro progress_inv toy_ch2_inv vc_inv_new)

lemma toy_ch3_precede: "parents_precede toy_ch3"
proof -
  have "hm_invar (ch_views toy_ch3)" using toy_ch3_inv by (simp add: ch_inv_def)
  moreover have "list_all (\<lambda>(v, ctx). case vc_block ctx of None \<Rightarrow> True
      | Some b \<Rightarrow> (case find_parent_view (b_parent b) toy_ch3 of None \<Rightarrow> True | Some p \<Rightarrow> p < v))
      (ch_views toy_ch3)" by code_simp
  ultimately show ?thesis by (simp add: parents_precede_code)
qed


end
