(* ===== verification/Leader_Manager.thy ===== *)
theory Leader_Manager
  imports Chain_Types
begin

text \<open>
  Leader selection (\<open>consensus_manager/leader_manager.rs\<close>): the trait \<open>LeaderManager\<close> as a
  locale, the round-robin strategy as its interpretation, and the fairness of the schedule.
\<close>

subsection \<open>The trait\<close>

text \<open>What the callers rely on: a well-formed manager names, for every view, one of the replicas,
  and labels it with that view. That the choice is a function of manager and view is the
  determinism the trait's documentation demands.\<close>

locale leader_manager =
  fixes leader_for :: "'m \<Rightarrow> view_no \<Rightarrow> leader result"
    and members :: "'m \<Rightarrow> peer_id set"
    and valid :: "'m \<Rightarrow> bool"
  assumes leader_for_view_ok:
    "valid m \<Longrightarrow> \<exists>l. leader_for m v = Inr l \<and> l_view l = v \<and> l_peer_id l \<in> members m"
begin

lemma leader_total: "valid m \<Longrightarrow> \<exists>l. leader_for m v = Inr l"
  using leader_for_view_ok by blast

lemma leader_member: "valid m \<Longrightarrow> leader_for m v = Inr l \<Longrightarrow> l_peer_id l \<in> members m"
  using leader_for_view_ok [of m v] by auto

lemma leader_view: "valid m \<Longrightarrow> leader_for m v = Inr l \<Longrightarrow> is_leader_for_view l w \<longleftrightarrow> w = v"
  using leader_for_view_ok [of m v] by (auto simp: is_leader_for_view_def)

end

subsection \<open>Round robin\<close>

record round_robin_leader_manager =
  rr_n :: nat
  rr_replicas :: "peer_id list"

text \<open>\<open>None\<close> is a failed assertion: the list does not have \<open>n\<close> entries or is not strictly
  ascending.\<close>

definition round_robin_new :: "nat \<Rightarrow> peer_id list \<Rightarrow> round_robin_leader_manager option" where
  "round_robin_new n replicas =
     (if length replicas \<noteq> n then None
      else if \<not> list_all (\<lambda>i. replicas ! (i - 1) < replicas ! i) [1..<length replicas] then None
      else Some \<lparr>rr_n = n, rr_replicas = replicas\<rparr>)"

text \<open>\<open>view as usize % self.n\<close> panics for \<open>n = 0\<close>, the index when it is out of range.\<close>

definition leader_for_view :: "round_robin_leader_manager \<Rightarrow> view_no \<Rightarrow> leader result" where
  "leader_for_view m view =
     (if rr_n m = 0 then Inl (Panic IndexOutOfRange)
      else let i = view mod rr_n m
           in if i < length (rr_replicas m)
              then Inr \<lparr>l_peer_id = rr_replicas m ! i, l_view = view\<rparr>
              else Inl (Panic IndexOutOfRange))"

datatype leader_selection_strategy = RoundRobin | Random | ProofOfStake

definition rr_valid :: "round_robin_leader_manager \<Rightarrow> bool" where
  "rr_valid m \<longleftrightarrow> 0 < rr_n m \<and> length (rr_replicas m) = rr_n m \<and> sorted_wrt (<) (rr_replicas m)"

interpretation rr: leader_manager leader_for_view "\<lambda>m. set (rr_replicas m)" rr_valid
  by unfold_locales (auto simp: leader_for_view_def rr_valid_def Let_def)

lemma rr_valid_leader:
  "rr_valid m \<Longrightarrow>
   leader_for_view m v = Inr \<lparr>l_peer_id = rr_replicas m ! (v mod rr_n m), l_view = v\<rparr>"
  by (simp add: leader_for_view_def rr_valid_def Let_def)

lemma ascending_check_iff:
  "list_all (\<lambda>i. xs ! (i - 1) < xs ! i) [1..<length xs] \<longleftrightarrow> sorted_wrt (<) xs" for xs :: "peer_id list"
proof
  assume a: "list_all (\<lambda>i. xs ! (i - 1) < xs ! i) [1..<length xs]"
  have "xs ! i < xs ! Suc i" if "Suc i < length xs" for i
    using a that by (auto simp: list_all_iff dest: bspec [of _ _ "Suc i"])
  then show "sorted_wrt (<) xs" by (simp add: sorted_wrt_iff_nth_Suc_transp)
qed (auto simp: list_all_iff sorted_wrt_iff_nth_less)

lemma round_robin_new_valid:
  "round_robin_new n replicas = Some m \<Longrightarrow> 0 < n \<Longrightarrow> rr_valid m \<and> rr_replicas m = replicas \<and> rr_n m = n"
  unfolding round_robin_new_def ascending_check_iff by (auto simp: rr_valid_def split: if_splits)

text \<open>The leader manager built from a peer set accepts its sorted ids, never fails and always
  elects a member of the peer set, for every view.\<close>

theorem round_robin_of_peer_set:
  assumes "wf_peer_set P" and "sorted_peer_ids P \<noteq> []"
  shows "\<exists>m. round_robin_new (length (sorted_peer_ids P)) (sorted_peer_ids P) = Some m
    \<and> (\<forall>v. \<exists>l. leader_for_view m v = Inr l \<and> l_view l = v \<and> peer_contains P (l_peer_id l))"
proof -
  let ?ids = "sorted_peer_ids P"
  have s: "sorted_wrt (<) ?ids" using assms(1) by (simp add: wf_peer_set_def strict_sorted_iff)
  then have "round_robin_new (length ?ids) ?ids = Some \<lparr>rr_n = length ?ids, rr_replicas = ?ids\<rparr>"
    unfolding round_robin_new_def ascending_check_iff by simp
  moreover have "rr_valid \<lparr>rr_n = length ?ids, rr_replicas = ?ids\<rparr>"
    using s assms(2) by (simp add: rr_valid_def)
  moreover have "p \<in> set ?ids \<Longrightarrow> peer_contains P p" for p
    using assms(1) by (auto simp: wf_peer_set_def peer_contains_def)
  ultimately show ?thesis using rr.leader_for_view_ok by fastforce
qed

theorem round_robin_of_peer_set_witness:
  "\<exists>m. round_robin_new 2 [1, 2] = Some m
    \<and> (\<forall>v. \<exists>l. leader_for_view m v = Inr l \<and> l_view l = v \<and> peer_contains toy_peers (l_peer_id l))"
  using round_robin_of_peer_set [of toy_peers] by (simp add: toy_peers_def wf_peer_set_def numeral_2_eq_2)

lemma mod_window_inj: "inj_on (\<lambda>v. v mod n) {start..<start + n}" for n :: nat
proof (rule inj_onI)
  fix v w assume vw: "v \<in> {start..<start + n}" "w \<in> {start..<start + n}" "v mod n = w mod n"
  have "n dvd (max v w - min v w)"
    using vw(3) by (metis max_def min_def mod_eq_dvd_iff_nat nat_le_linear)
  moreover have "max v w - min v w < n" using vw by (auto simp: max_def min_def)
  ultimately show "v = w" by (auto dest: nat_dvd_not_less simp: max_def min_def split: if_splits)
qed

text \<open>The schedule is fair. In any \<open>n\<close> consecutive views every replica leads exactly one.\<close>

theorem round_robin_fair:
  assumes "rr_valid m" and "p \<in> set (rr_replicas m)"
  shows "\<exists>!v. v \<in> {start..<start + rr_n m} \<and> leader_for_view m v = Inr \<lparr>l_peer_id = p, l_view = v\<rparr>"
proof -
  let ?n = "rr_n m"
  have d: "distinct (rr_replicas m)" and n: "0 < ?n" and len: "length (rr_replicas m) = ?n"
    using assms(1) by (auto simp: rr_valid_def strict_sorted_iff)
  from assms(2) len obtain i where i: "i < ?n" "rr_replicas m ! i = p" by (auto simp: in_set_conv_nth)
  have lead: "leader_for_view m v = Inr \<lparr>l_peer_id = p, l_view = v\<rparr> \<longleftrightarrow> v mod ?n = i" for v
    using rr_valid_leader [OF assms(1)] d i n len by (auto simp: nth_eq_iff_index_eq)
  define v0 where "v0 = start + (i + ?n - start mod ?n) mod ?n"
  have sm: "start mod ?n < ?n" using n by simp
  have "v0 mod ?n = (start mod ?n + (i + ?n - start mod ?n)) mod ?n"
    unfolding v0_def by (simp add: mod_simps)
  also have "start mod ?n + (i + ?n - start mod ?n) = i + ?n" using sm by linarith
  also have "(i + ?n) mod ?n = i" using i(1) by simp
  finally have v0: "v0 mod ?n = i" .
  have r: "v0 \<in> {start..<start + ?n}" using n by (simp add: v0_def)
  have u: "v = w" if "v \<in> {start..<start + ?n}" "w \<in> {start..<start + ?n}" "v mod ?n = w mod ?n" for v w
    by (rule inj_onD [OF mod_window_inj that(3,1,2)])
  show ?thesis
    by (rule ex1I [of _ v0]) (use r v0 u in \<open>auto simp: lead\<close>)
qed

theorem round_robin_fair_witness:
  "\<exists>!v. v \<in> {5..<7} \<and> leader_for_view \<lparr>rr_n = 2, rr_replicas = [1, 2]\<rparr> v
      = Inr \<lparr>l_peer_id = 2, l_view = v\<rparr>"
  using round_robin_fair [of "\<lparr>rr_n = 2, rr_replicas = [1, 2]\<rparr>" 2 5] by (simp add: rr_valid_def)

end
