(* ===== verification/Validator.thy ===== *)
theory Validator
  imports Pending_State
begin

text \<open>
  Block validation (\<open>validation/validator.rs\<close>): the transactions of a block are checked one after the
  other against a local copy of the accounts, which starts from the effective state a
  \<open>PendingStateReader\<close> reports (\<open>get\<close>, one snapshot per block), and a state diff is built along the
  way. Nonces wrap at 64 bits as in a release build.
\<close>

record local_account_state =
  la_balance :: u64
  la_nonce :: u64

record vstate =
  vs_local :: "(address \<times> local_account_state) list"
  vs_diff :: state_diff
  vs_errors :: "validation_error list"
  vs_seen :: "hash list"

definition push_error :: "validation_error \<Rightarrow> vstate \<Rightarrow> vstate" where
  "push_error e s = s\<lparr>vs_errors := vs_errors s @ [e]\<rparr>"

definition set_local :: "address \<Rightarrow> local_account_state \<Rightarrow> vstate \<Rightarrow> vstate" where
  "set_local a l s = s\<lparr>vs_local := AList.update a l (vs_local s)\<rparr>"

definition get_or_fetch_account ::
    "(address \<Rightarrow> account_state option) \<Rightarrow> address \<Rightarrow> vstate \<Rightarrow> local_account_state option \<times> vstate" where
  "get_or_fetch_account get a s = (case map_of (vs_local s) a of
      Some l \<Rightarrow> (Some l, s)
    | None \<Rightarrow> (case get a of
          Some acc \<Rightarrow> let l = \<lparr>la_balance = as_balance acc, la_nonce = as_nonce acc\<rparr>
            in (Some l, set_local a l s)
        | None \<Rightarrow> (None, s)))"

definition get_or_create_account ::
    "(address \<Rightarrow> account_state option) \<Rightarrow> address \<Rightarrow> vstate \<Rightarrow> local_account_state \<times> vstate" where
  "get_or_create_account get a s = (case map_of (vs_local s) a of
      Some l \<Rightarrow> (l, s)
    | None \<Rightarrow> let l = (case get a of
          Some acc \<Rightarrow> \<lparr>la_balance = as_balance acc, la_nonce = as_nonce acc\<rparr>
        | None \<Rightarrow> \<lparr>la_balance = 0, la_nonce = 0\<rparr>)
      in (l, set_local a l s))"

definition account_exists :: "(address \<Rightarrow> account_state option) \<Rightarrow> address \<Rightarrow> vstate \<Rightarrow> bool" where
  "account_exists get a s = (map_of (vs_local s) a \<noteq> None \<or> get a \<noteq> None)"

definition validate_transfer ::
    "(address \<Rightarrow> account_state option) \<Rightarrow> nat \<Rightarrow> transaction \<Rightarrow> address \<Rightarrow> u64 \<Rightarrow> vstate \<Rightarrow> vstate" where
  "validate_transfer get tx_index tx recipient amount s =
     (case get_or_fetch_account get (tx_sender tx) s of
        (None, s1) \<Rightarrow> push_error (AccountNotFound tx_index (tx_sender tx)) s1
      | (Some sender, s1) \<Rightarrow>
          if tx_nonce tx \<noteq> la_nonce sender
          then push_error (InvalidNonce tx_index (tx_sender tx) (la_nonce sender) (tx_nonce tx)) s1
          else case checked_add amount (tx_fee tx) of
            None \<Rightarrow> push_error (BalanceOverflow tx_index (tx_sender tx)) s1
          | Some total_debit \<Rightarrow>
              if la_balance sender < total_debit
              then push_error (InsufficientBalance tx_index (tx_sender tx) total_debit (la_balance sender)) s1
              else
                let s2 = set_local (tx_sender tx)
                       \<lparr>la_balance = la_balance sender - total_debit, la_nonce = la_nonce sender + 1\<rparr> s1;
                    (rec, s3) = get_or_create_account get recipient s2;
                    s4 = set_local recipient (rec\<lparr>la_balance := saturating_add (la_balance rec) amount\<rparr>) s3;
                    sender_nonce = (case map_of (vs_local s4) (tx_sender tx) of Some l \<Rightarrow> la_nonce l | None \<Rightarrow> 0)
                in s4\<lparr>vs_diff :=
                     add_collected_fees (tx_fee tx)
                       (add_balance_change recipient (uint amount) (la_nonce rec)
                         (add_balance_change (tx_sender tx) (- uint total_debit) sender_nonce (vs_diff s4)))\<rparr>)"

definition validate_mint ::
    "(address \<Rightarrow> account_state option) \<Rightarrow> nat \<Rightarrow> transaction \<Rightarrow> address \<Rightarrow> u64 \<Rightarrow> vstate \<Rightarrow> vstate" where
  "validate_mint get tx_index tx recipient amount s =
     (let credit = (\<lambda>s.
            let (rec, s3) = get_or_create_account get recipient s;
                s4 = set_local recipient (rec\<lparr>la_balance := saturating_add (la_balance rec) amount\<rparr>) s3
            in s4\<lparr>vs_diff := add_balance_change recipient (uint amount) (la_nonce rec) (vs_diff s4)\<rparr>)
      in case get_or_fetch_account get (tx_sender tx) s of
        (None, s1) \<Rightarrow> credit s1
      | (Some sender, s1) \<Rightarrow>
          if tx_nonce tx \<noteq> la_nonce sender
          then push_error (InvalidNonce tx_index (tx_sender tx) (la_nonce sender) (tx_nonce tx)) s1
          else let s2 = set_local (tx_sender tx) (sender\<lparr>la_nonce := la_nonce sender + 1\<rparr>) s1
               in credit (s2\<lparr>vs_diff := add_balance_change (tx_sender tx) 0 (la_nonce sender + 1) (vs_diff s2)\<rparr>))"

definition validate_create_account ::
    "(address \<Rightarrow> account_state option) \<Rightarrow> nat \<Rightarrow> transaction \<Rightarrow> address \<Rightarrow> vstate \<Rightarrow> vstate" where
  "validate_create_account get tx_index tx a s =
     (if account_exists get a s then push_error (AccountAlreadyExists tx_index a) s
      else case get_or_fetch_account get (tx_sender tx) s of
        (None, s1) \<Rightarrow> push_error (AccountNotFound tx_index (tx_sender tx)) s1
      | (Some sender, s1) \<Rightarrow>
          if tx_nonce tx \<noteq> la_nonce sender
          then push_error (InvalidNonce tx_index (tx_sender tx) (la_nonce sender) (tx_nonce tx)) s1
          else if la_balance sender < tx_fee tx
          then push_error (InsufficientBalance tx_index (tx_sender tx) (tx_fee tx) (la_balance sender)) s1
          else
            let new_nonce = la_nonce sender + 1;
                s2 = set_local (tx_sender tx)
                  \<lparr>la_balance = la_balance sender - tx_fee tx, la_nonce = new_nonce\<rparr> s1;
                s3 = set_local a \<lparr>la_balance = 0, la_nonce = 0\<rparr> s2
            in s3\<lparr>vs_diff :=
                 add_collected_fees (tx_fee tx)
                   (add_created_account a 0
                     (add_balance_change (tx_sender tx) (- uint (tx_fee tx)) new_nonce (vs_diff s3)))\<rparr>)"

definition validate_burn ::
    "(address \<Rightarrow> account_state option) \<Rightarrow> nat \<Rightarrow> transaction \<Rightarrow> address \<Rightarrow> u64 \<Rightarrow> vstate \<Rightarrow> vstate" where
  "validate_burn get tx_index tx a amount s =
     (case get_or_fetch_account get a s of
        (None, s1) \<Rightarrow> push_error (AccountNotFound tx_index a) s1
      | (Some acc, s1) \<Rightarrow>
          if tx_nonce tx \<noteq> la_nonce acc
          then push_error (InvalidNonce tx_index a (la_nonce acc) (tx_nonce tx)) s1
          else case checked_add amount (tx_fee tx) of
            None \<Rightarrow> push_error (BalanceOverflow tx_index a) s1
          | Some total_debit \<Rightarrow>
              if la_balance acc < total_debit
              then push_error (InsufficientBalance tx_index a total_debit (la_balance acc)) s1
              else
                let s2 = set_local a
                      \<lparr>la_balance = la_balance acc - total_debit, la_nonce = la_nonce acc + 1\<rparr> s1
                in s2\<lparr>vs_diff :=
                     add_collected_fees (tx_fee tx)
                       (add_balance_change a (- uint total_debit) (la_nonce acc + 1) (vs_diff s2))\<rparr>)"

definition validate_tx ::
    "(address \<Rightarrow> account_state option) \<Rightarrow> nat \<times> transaction \<Rightarrow> vstate \<Rightarrow> vstate" where
  "validate_tx get itx s = (case itx of (tx_index, tx) \<Rightarrow>
     if tx_hash tx \<in> set (vs_seen s)
     then push_error (DuplicateTransaction tx_index (tx_hash tx)) s
     else let s1 = s\<lparr>vs_seen := vs_seen s @ [tx_hash tx]\<rparr>
          in case tx_instruction tx of
            Transfer recipient amount \<Rightarrow> validate_transfer get tx_index tx recipient amount s1
          | CreateAccount a \<Rightarrow> validate_create_account get tx_index tx a s1
          | Burn a amount \<Rightarrow> validate_burn get tx_index tx a amount s1
          | Mint recipient amount \<Rightarrow> validate_mint get tx_index tx recipient amount s1)"

definition vstate_init :: vstate where
  "vstate_init = \<lparr>vs_local = [], vs_diff = state_diff_new, vs_errors = [], vs_seen = []\<rparr>"

definition validate_block ::
    "env \<Rightarrow> (address \<Rightarrow> account_state option) \<Rightarrow> block \<Rightarrow> validation_error list + state_diff" where
  "validate_block E get b =
     (if \<not> verify_block_txs_signatures E b
      then Inl [BlockSignatureVerificationFailed (get_hash E b) (length (b_transactions b))]
      else let s = fold (validate_tx get) (enumerate 0 (b_transactions b)) vstate_init
           in if vs_errors s = [] then Inr (vs_diff s) else Inl (vs_errors s))"

subsection \<open>The ledger a block is validated against\<close>

text \<open>The abstract state: for each address its balance and nonce, if the account exists. A
  transaction either is refused or has one effect on the ledger and on the state diff.\<close>

type_synonym ledger = "address \<Rightarrow> local_account_state option"

definition ledger_of :: "(address \<Rightarrow> account_state option) \<Rightarrow> ledger" where
  "ledger_of get a = map_option (\<lambda>x. \<lparr>la_balance = as_balance x, la_nonce = as_nonce x\<rparr>) (get a)"

definition acct_or_new :: "ledger \<Rightarrow> address \<Rightarrow> local_account_state" where
  "acct_or_new m a = (case m a of Some l \<Rightarrow> l | None \<Rightarrow> \<lparr>la_balance = 0, la_nonce = 0\<rparr>)"

definition credit :: "address \<Rightarrow> u64 \<Rightarrow> ledger \<times> state_diff \<Rightarrow> ledger \<times> state_diff" where
  "credit a amount md = (case md of (m, d) \<Rightarrow>
     let l = acct_or_new m a
     in (m(a \<mapsto> l\<lparr>la_balance := saturating_add (la_balance l) amount\<rparr>),
         add_balance_change a (uint amount) (la_nonce l) d))"

definition debit :: "u64 \<Rightarrow> address \<Rightarrow> u64 \<Rightarrow> ledger \<times> state_diff \<Rightarrow> (ledger \<times> state_diff) option" where
  "debit nonce a tot md = (case md of (m, d) \<Rightarrow>
     (case m a of
        None \<Rightarrow> None
      | Some l \<Rightarrow>
          if nonce \<noteq> la_nonce l \<or> la_balance l < tot then None
          else Some (m(a \<mapsto> \<lparr>la_balance = la_balance l - tot, la_nonce = la_nonce l + 1\<rparr>),
                     add_balance_change a (- uint tot) (la_nonce l + 1) d)))"

definition fees :: "u64 \<Rightarrow> ledger \<times> state_diff \<Rightarrow> ledger \<times> state_diff" where
  "fees fee md = (case md of (m, d) \<Rightarrow> (m, add_collected_fees fee d))"

fun ledger_step :: "transaction \<Rightarrow> transaction_instruction \<Rightarrow> ledger \<times> state_diff \<Rightarrow> (ledger \<times> state_diff) option" where
  "ledger_step tx (Transfer r amount) md =
     Option.bind (checked_add amount (tx_fee tx)) (\<lambda>tot.
       map_option (\<lambda>md'. fees (tx_fee tx) (credit r amount md')) (debit (tx_nonce tx) (tx_sender tx) tot md))"
| "ledger_step tx (Burn a amount) md =
     Option.bind (checked_add amount (tx_fee tx)) (\<lambda>tot.
       map_option (fees (tx_fee tx)) (debit (tx_nonce tx) a tot md))"
| "ledger_step tx (Mint r amount) md =
     (case fst md (tx_sender tx) of
        None \<Rightarrow> Some (credit r amount md)
      | Some l \<Rightarrow> map_option (credit r amount) (debit (tx_nonce tx) (tx_sender tx) 0 md))"
| "ledger_step tx (CreateAccount a) md =
     (if fst md a \<noteq> None then None
      else map_option (\<lambda>(m, d). fees (tx_fee tx)
               (m(a \<mapsto> \<lparr>la_balance = 0, la_nonce = 0\<rparr>), add_created_account a 0 d))
             (debit (tx_nonce tx) (tx_sender tx) (tx_fee tx) md))"

fun ledger_run :: "transaction list \<Rightarrow> ledger \<times> state_diff \<Rightarrow> (ledger \<times> state_diff) option" where
  "ledger_run [] md = Some md"
| "ledger_run (tx # txs) md = Option.bind (ledger_step tx (tx_instruction tx) md) (ledger_run txs)"

subsection \<open>The validator implements the ledger\<close>

text \<open>The abstraction function: the local cache over the effective state.\<close>

definition cur :: "(address \<Rightarrow> account_state option) \<Rightarrow> vstate \<Rightarrow> ledger" where
  "cur get s a = (case map_of (vs_local s) a of Some l \<Rightarrow> Some l | None \<Rightarrow> ledger_of get a)"

lemma cur_set_local [simp]: "cur get (set_local a l s) = (cur get s)(a \<mapsto> l)"
  by (auto simp: cur_def set_local_def update_conv' fun_eq_iff)

lemma set_local_frame [simp]:
  "vs_diff (set_local a l s) = vs_diff s" "vs_errors (set_local a l s) = vs_errors s"
  "vs_seen (set_local a l s) = vs_seen s"
  "map_of (vs_local (set_local a l s)) = (map_of (vs_local s))(a \<mapsto> l)"
  by (simp_all add: set_local_def update_conv')

lemma cur_frame [simp]:
  "cur get (s\<lparr>vs_diff := d\<rparr>) = cur get s" "cur get (s\<lparr>vs_seen := x\<rparr>) = cur get s"
  "cur get (push_error e s) = cur get s"
  by (simp_all add: cur_def push_error_def fun_eq_iff)

lemma cur_init: "cur get vstate_init = ledger_of get"
  by (simp add: cur_def vstate_init_def fun_eq_iff)

lemma fetch_none: "cur get s a = None \<Longrightarrow> get_or_fetch_account get a s = (None, s)"
  by (auto simp: cur_def ledger_of_def get_or_fetch_account_def split: option.splits)

lemma fetch_some:
  assumes "cur get s a = Some l"
  obtains s1 where "get_or_fetch_account get a s = (Some l, s1)" "cur get s1 = cur get s"
    "vs_diff s1 = vs_diff s" "vs_errors s1 = vs_errors s" "vs_seen s1 = vs_seen s"
proof (cases "map_of (vs_local s) a")
  case None
  then have "get_or_fetch_account get a s = (Some l, set_local a l s)"
    using assms by (auto simp: get_or_fetch_account_def cur_def ledger_of_def Let_def)
  moreover have "cur get (set_local a l s) = cur get s" using assms by (simp add: map_upd_triv)
  ultimately show thesis by (rule that) simp_all
next
  case (Some l')
  then have "get_or_fetch_account get a s = (Some l, s)"
    using assms by (simp add: get_or_fetch_account_def cur_def)
  then show thesis by (rule that) simp_all
qed

lemma create_acct:
  obtains s1 where "get_or_create_account get a s = (acct_or_new (cur get s) a, s1)"
    "cur get s1 = (cur get s)(a \<mapsto> acct_or_new (cur get s) a)"
    "vs_diff s1 = vs_diff s" "vs_errors s1 = vs_errors s" "vs_seen s1 = vs_seen s"
    "map_of (vs_local s) \<subseteq>\<^sub>m map_of (vs_local s1)"
proof (cases "map_of (vs_local s) a")
  case None
  then have "get_or_create_account get a s
      = (acct_or_new (cur get s) a, set_local a (acct_or_new (cur get s) a) s)"
    by (auto simp: get_or_create_account_def acct_or_new_def cur_def ledger_of_def Let_def split: option.splits)
  then show thesis by (rule that) (use None in \<open>auto simp: map_le_def\<close>)
next
  case (Some l)
  then have c: "cur get s a = Some l" by (simp add: cur_def)
  then have "get_or_create_account get a s = (acct_or_new (cur get s) a, s)"
    using Some by (simp add: get_or_create_account_def acct_or_new_def)
  moreover have "cur get s = (cur get s)(a \<mapsto> acct_or_new (cur get s) a)"
    using c by (simp add: acct_or_new_def map_upd_triv)
  ultimately show thesis by (rule that) simp_all
qed

lemma validate_transfer_refines:
  "case ledger_step tx (Transfer r amount) (cur get s, vs_diff s) of
     None \<Rightarrow> vs_errors (validate_transfer get i tx r amount s) \<noteq> []
   | Some (m, d) \<Rightarrow> let s' = validate_transfer get i tx r amount s
       in cur get s' = m \<and> vs_diff s' = d \<and> vs_errors s' = vs_errors s \<and> vs_seen s' = vs_seen s"
proof (cases "cur get s (tx_sender tx)")
  case None
  then show ?thesis
    by (auto simp: fetch_none validate_transfer_def debit_def push_error_def split: option.splits)
next
  case (Some l)
  obtain s1 where s1: "get_or_fetch_account get (tx_sender tx) s = (Some l, s1)" "cur get s1 = cur get s"
    "vs_diff s1 = vs_diff s" "vs_errors s1 = vs_errors s" "vs_seen s1 = vs_seen s"
    by (rule fetch_some [OF Some])
  let ?tot = "amount + tx_fee tx"
  let ?s2 = "set_local (tx_sender tx) \<lparr>la_balance = la_balance l - ?tot, la_nonce = la_nonce l + 1\<rparr> s1"
  obtain s3 where s3: "get_or_create_account get r ?s2 = (acct_or_new (cur get ?s2) r, s3)"
    "cur get s3 = (cur get ?s2)(r \<mapsto> acct_or_new (cur get ?s2) r)"
    "vs_diff s3 = vs_diff ?s2" "vs_errors s3 = vs_errors ?s2" "vs_seen s3 = vs_seen ?s2"
    "map_of (vs_local ?s2) \<subseteq>\<^sub>m map_of (vs_local s3)"
    by (rule create_acct)
  let ?s4 = "set_local r ((acct_or_new (cur get ?s2) r)\<lparr>la_balance := saturating_add
      (la_balance (acct_or_new (cur get ?s2) r)) amount\<rparr>) s3"
  have nonce: "(case map_of (vs_local ?s4) (tx_sender tx) of Some x \<Rightarrow> la_nonce x | None \<Rightarrow> 0) = la_nonce l + 1"
  proof (cases "r = tx_sender tx")
    case False
    then have "map_of (vs_local s3) (tx_sender tx) = map_of (vs_local ?s2) (tx_sender tx)"
      using s3(6) by (simp add: map_le_def)
    with False show ?thesis by simp
  qed (simp add: acct_or_new_def)
  show ?thesis
  proof (cases "checked_add amount (tx_fee tx)")
    case None
    then show ?thesis
      using s1(1) by (simp add: validate_transfer_def push_error_def)
  next
    case ca: (Some tot)
    then have tot: "tot = ?tot" by (simp add: checked_add_Some)
    show ?thesis
    proof (cases "tx_nonce tx \<noteq> la_nonce l \<or> la_balance l < ?tot")
      case True
      then show ?thesis
        using Some s1(1) ca by (auto simp: tot validate_transfer_def debit_def push_error_def)
    next
      case False
      then have "validate_transfer get i tx r amount s = ?s4\<lparr>vs_diff :=
          add_collected_fees (tx_fee tx) (add_balance_change r (uint amount) (la_nonce (acct_or_new (cur get ?s2) r))
            (add_balance_change (tx_sender tx) (- uint ?tot) (la_nonce l + 1) (vs_diff ?s4)))\<rparr>"
        using s1(1) ca s3(1) nonce by (simp add: tot validate_transfer_def)
      moreover have "ledger_step tx (Transfer r amount) (cur get s, vs_diff s) =
          Some (fees (tx_fee tx) (credit r amount (cur get ?s2,
            add_balance_change (tx_sender tx) (- uint ?tot) (la_nonce l + 1) (vs_diff s))))"
        using Some ca False s1(2) by (simp add: tot debit_def)
      ultimately show ?thesis
        using s1 s3 by (simp add: credit_def fees_def Let_def)
    qed
  qed
qed

lemma validate_burn_refines:
  "case ledger_step tx (Burn a amount) (cur get s, vs_diff s) of
     None \<Rightarrow> vs_errors (validate_burn get i tx a amount s) \<noteq> []
   | Some (m, d) \<Rightarrow> let s' = validate_burn get i tx a amount s
       in cur get s' = m \<and> vs_diff s' = d \<and> vs_errors s' = vs_errors s \<and> vs_seen s' = vs_seen s"
proof (cases "cur get s a")
  case None
  then show ?thesis
    by (auto simp: fetch_none validate_burn_def debit_def push_error_def split: option.splits bind_splits)
next
  case (Some l)
  obtain s1 where s1: "get_or_fetch_account get a s = (Some l, s1)" "cur get s1 = cur get s"
    "vs_diff s1 = vs_diff s" "vs_errors s1 = vs_errors s" "vs_seen s1 = vs_seen s"
    by (rule fetch_some [OF Some])
  then show ?thesis
    using Some by (cases "checked_add amount (tx_fee tx)")
      (auto simp: validate_burn_def debit_def fees_def push_error_def Let_def)
qed

lemma validate_create_account_refines:
  "case ledger_step tx (CreateAccount a) (cur get s, vs_diff s) of
     None \<Rightarrow> vs_errors (validate_create_account get i tx a s) \<noteq> []
   | Some (m, d) \<Rightarrow> let s' = validate_create_account get i tx a s
       in cur get s' = m \<and> vs_diff s' = d \<and> vs_errors s' = vs_errors s \<and> vs_seen s' = vs_seen s"
proof -
  have ex: "account_exists get a s \<longleftrightarrow> cur get s a \<noteq> None"
    by (auto simp: account_exists_def cur_def ledger_of_def split: option.splits)
  show ?thesis
  proof (cases "cur get s (tx_sender tx)")
    case None
    then show ?thesis by (auto simp: ex fetch_none validate_create_account_def debit_def push_error_def)
  next
    case (Some l)
    obtain s1 where s1: "get_or_fetch_account get (tx_sender tx) s = (Some l, s1)" "cur get s1 = cur get s"
      "vs_diff s1 = vs_diff s" "vs_errors s1 = vs_errors s" "vs_seen s1 = vs_seen s"
      by (rule fetch_some [OF Some])
    then show ?thesis
      using Some by (auto simp: ex validate_create_account_def debit_def fees_def push_error_def Let_def)
  qed
qed

lemma mint_credit_refines:
  "let (rec, s3) = get_or_create_account get r s;
       s4 = set_local r (rec\<lparr>la_balance := saturating_add (la_balance rec) amount\<rparr>) s3;
       s' = s4\<lparr>vs_diff := add_balance_change r (uint amount) (la_nonce rec) (vs_diff s4)\<rparr>
   in (cur get s', vs_diff s') = credit r amount (cur get s, vs_diff s)
      \<and> vs_errors s' = vs_errors s \<and> vs_seen s' = vs_seen s"
  by (rule create_acct [of get r s]) (simp add: credit_def Let_def)

lemma validate_mint_refines:
  "case ledger_step tx (Mint r amount) (cur get s, vs_diff s) of
     None \<Rightarrow> vs_errors (validate_mint get i tx r amount s) \<noteq> []
   | Some (m, d) \<Rightarrow> let s' = validate_mint get i tx r amount s
       in cur get s' = m \<and> vs_diff s' = d \<and> vs_errors s' = vs_errors s \<and> vs_seen s' = vs_seen s"
proof (cases "cur get s (tx_sender tx)")
  case None
  then show ?thesis
    using mint_credit_refines [of get r s amount]
    by (auto simp: fetch_none validate_mint_def Let_def split: prod.splits)
next
  case (Some l)
  obtain s1 where s1: "get_or_fetch_account get (tx_sender tx) s = (Some l, s1)" "cur get s1 = cur get s"
    "vs_diff s1 = vs_diff s" "vs_errors s1 = vs_errors s" "vs_seen s1 = vs_seen s"
    by (rule fetch_some [OF Some])
  have l: "l\<lparr>la_nonce := n\<rparr> = \<lparr>la_balance = la_balance l, la_nonce = n\<rparr>" for n by simp
  show ?thesis
    using Some s1 mint_credit_refines [of get r "(set_local (tx_sender tx) \<lparr>la_balance = la_balance l, la_nonce = la_nonce l + 1\<rparr> s1)
        \<lparr>vs_diff := add_balance_change (tx_sender tx) 0 (la_nonce l + 1) (vs_diff s)\<rparr>" amount]
    by (auto simp: validate_mint_def debit_def push_error_def l Let_def split: prod.splits)
qed

lemma validate_tx_refines:
  assumes "tx_hash tx \<notin> set (vs_seen s)"
  shows "case ledger_step tx (tx_instruction tx) (cur get s, vs_diff s) of
     None \<Rightarrow> vs_errors (validate_tx get (i, tx) s) \<noteq> []
   | Some (m, d) \<Rightarrow> let s' = validate_tx get (i, tx) s
       in cur get s' = m \<and> vs_diff s' = d \<and> vs_errors s' = vs_errors s \<and> vs_seen s' = vs_seen s @ [tx_hash tx]"
proof -
  let ?s = "s\<lparr>vs_seen := vs_seen s @ [tx_hash tx]\<rparr>"
  have s: "cur get ?s = cur get s" "vs_diff ?s = vs_diff s" "vs_errors ?s = vs_errors s"
    "vs_seen ?s = vs_seen s @ [tx_hash tx]" by simp_all
  show ?thesis
  proof (cases "tx_instruction tx")
    case (CreateAccount a)
    then have "validate_tx get (i, tx) s = validate_create_account get i tx a ?s"
      using assms by (simp add: validate_tx_def Let_def)
    then show ?thesis
      unfolding CreateAccount using validate_create_account_refines [where tx = tx and a = a and get = get and s = ?s and i = i]
      unfolding s by (simp only:)
  next
    case (Burn a amount)
    then have "validate_tx get (i, tx) s = validate_burn get i tx a amount ?s"
      using assms by (simp add: validate_tx_def Let_def)
    then show ?thesis
      unfolding Burn using validate_burn_refines [where tx = tx and a = a and amount = amount and get = get and s = ?s and i = i]
      unfolding s by (simp only:)
  next
    case (Mint r amount)
    then have "validate_tx get (i, tx) s = validate_mint get i tx r amount ?s"
      using assms by (simp add: validate_tx_def Let_def)
    then show ?thesis
      unfolding Mint using validate_mint_refines [where tx = tx and r = r and amount = amount and get = get and s = ?s and i = i]
      unfolding s by (simp only:)
  next
    case (Transfer r amount)
    then have "validate_tx get (i, tx) s = validate_transfer get i tx r amount ?s"
      using assms by (simp add: validate_tx_def Let_def)
    then show ?thesis
      unfolding Transfer using validate_transfer_refines [where tx = tx and r = r and amount = amount and get = get and s = ?s and i = i]
      unfolding s by (simp only:)
  qed
qed

lemma validate_tx_errors_grow:
  "vs_errors s \<noteq> [] \<Longrightarrow> vs_errors (validate_tx get itx s) \<noteq> []"
proof (cases itx)
  case (Pair i tx)
  assume e: "vs_errors s \<noteq> []"
  show ?thesis
  proof (cases "tx_hash tx \<in> set (vs_seen s)")
    case True
    then show ?thesis using Pair by (simp add: validate_tx_def push_error_def)
  next
    case False
    from validate_tx_refines [OF False, of get i] e show ?thesis
      unfolding Pair by (auto simp: Let_def split: option.splits prod.splits)
  qed
qed

lemma validate_fold_errors_grow: "vs_errors s \<noteq> [] \<Longrightarrow> vs_errors (fold (validate_tx get) itxs s) \<noteq> []"
  by (induction itxs arbitrary: s) (auto simp: validate_tx_errors_grow)

lemma validate_fold_refines:
  "let s' = fold (validate_tx get) itxs s; txs = map snd itxs
   in vs_errors s' = [] \<and> cur get s' = m \<and> vs_diff s' = d \<longleftrightarrow>
      vs_errors s = [] \<and> distinct (map tx_hash txs) \<and> set (map tx_hash txs) \<inter> set (vs_seen s) = {}
      \<and> ledger_run txs (cur get s, vs_diff s) = Some (m, d)"
proof (induction itxs arbitrary: s)
  case (Cons itx itxs)
  obtain i tx where itx: "itx = (i, tx)" by (cases itx)
  show ?case
  proof (cases "tx_hash tx \<in> set (vs_seen s)")
    case True
    then have "vs_errors (validate_tx get itx s) \<noteq> []" by (simp add: itx validate_tx_def push_error_def)
    from validate_fold_errors_grow [OF this] True itx show ?thesis by (simp add: Let_def)
  next
    case new: False
    note ref = validate_tx_refines [OF new, of get i, folded itx]
    show ?thesis
    proof (cases "ledger_step tx (tx_instruction tx) (cur get s, vs_diff s)")
      case None
      with ref have "vs_errors (validate_tx get itx s) \<noteq> []" by simp
      from validate_fold_errors_grow [OF this] None itx show ?thesis by (simp add: Let_def)
    next
      case (Some md)
      with ref have s': "md = (cur get (validate_tx get itx s), vs_diff (validate_tx get itx s))"
        "vs_errors (validate_tx get itx s) = vs_errors s"
        "vs_seen (validate_tx get itx s) = vs_seen s @ [tx_hash tx]"
        by (auto simp: Let_def split: prod.splits)
      from Cons.IH [of "validate_tx get itx s"] s' Some new show ?thesis
        by (auto simp: Let_def itx)
    qed
  qed
qed auto

lemma validate_block_ledger:
  assumes "ed_batch_law E"
  shows "validate_block E get b = Inr d \<longleftrightarrow>
    list_all (tx_signature_ok E) (b_transactions b) \<and> distinct (map tx_hash (b_transactions b))
    \<and> (\<exists>m. ledger_run (b_transactions b) (ledger_of get, state_diff_new) = Some (m, d))"
proof -
  let ?txs = "b_transactions b"
  let ?s = "fold (validate_tx get) (enumerate 0 ?txs) vstate_init"
  have "vs_errors ?s = [] \<and> cur get ?s = m \<and> vs_diff ?s = d \<longleftrightarrow>
      distinct (map tx_hash ?txs) \<and> ledger_run ?txs (ledger_of get, state_diff_new) = Some (m, d)" for m
    using validate_fold_refines [of get "enumerate 0 ?txs" vstate_init m d]
    by (simp add: Let_def cur_init) (simp add: vstate_init_def)
  then have "vs_errors ?s = [] \<and> vs_diff ?s = d \<longleftrightarrow>
      distinct (map tx_hash ?txs) \<and> (\<exists>m. ledger_run ?txs (ledger_of get, state_diff_new) = Some (m, d))"
    by blast
  then show ?thesis
    using verify_block_txs_signatures_eq [OF assms, of b]
    by (auto simp: validate_block_def Let_def)
qed

text \<open>C15: \<open>validate_block\<close> implements the ledger: it accepts a block exactly when every transaction is
  signed by its sender, no transaction hash repeats, and the ledger accepts the transactions one
  after the other starting from the effective account state; the diff it returns is then the one
  the ledger accumulates.\<close>

theorem validate_block_refines_ledger:
  assumes "ed_batch_law E"
  shows "validate_block E get b = Inr d \<longleftrightarrow>
    list_all (tx_signature_ok E) (b_transactions b) \<and> distinct (map tx_hash (b_transactions b))
    \<and> (\<exists>m. ledger_run (b_transactions b) (ledger_of get, state_diff_new) = Some (m, d))"
  by (rule validate_block_ledger [OF assms])

subsection \<open>Balances\<close>

text \<open>Balances of accounts that may be absent, as integers.\<close>

definition bal :: "account_state option \<Rightarrow> int" where
  "bal x = (case x of Some s \<Rightarrow> uint (as_balance s) | None \<Rightarrow> 0)"

text \<open>How a diff accounts for one account of the ledger: \<open>g\<close> is the account the block started from,
  \<open>u\<close> the diff's update of it, \<open>c\<close> whether the diff creates it, \<open>x\<close> the account on the ledger.\<close>

definition acct_inv ::
    "account_state option \<Rightarrow> account_update option \<Rightarrow> bool \<Rightarrow> local_account_state option \<Rightarrow> bool" where
  "acct_inv g u c x \<longleftrightarrow> (case x of
      None \<Rightarrow> g = None \<and> u = None \<and> \<not> c
    | Some l \<Rightarrow> uint (la_balance l) \<le> bal g + (case u of Some u \<Rightarrow> au_balance_delta u | None \<Rightarrow> 0)
        \<and> la_nonce l = (case u of Some u \<Rightarrow> au_new_nonce u
            | None \<Rightarrow> (case g of Some x \<Rightarrow> as_nonce x | None \<Rightarrow> 0)))"

definition ledger_inv :: "(address \<Rightarrow> account_state option) \<Rightarrow> ledger \<times> state_diff \<Rightarrow> bool" where
  "ledger_inv get md \<longleftrightarrow> (case md of (m, d) \<Rightarrow>
     hm_invar (sd_updates d) \<and> distinct (map na_address (sd_created_accounts d))
     \<and> (\<forall>c \<in> set (sd_created_accounts d). get (na_address c) = None \<and> na_initial_balance c = 0)
     \<and> (\<forall>a. acct_inv (get a) (map_of (sd_updates d) a) (a \<in> na_address ` set (sd_created_accounts d)) (m a)))"

lemma ledger_inv_acct:
  "ledger_inv get (m, d) \<Longrightarrow>
   acct_inv (get a) (map_of (sd_updates d) a) (a \<in> na_address ` set (sd_created_accounts d)) (m a)"
  by (simp add: ledger_inv_def)

lemma map_of_add_balance_change:
  "map_of (sd_updates (add_balance_change a x n d)) b =
     (if b = a then Some \<lparr>au_balance_delta = delta_of d a + x, au_new_nonce = n\<rparr> else map_of (sd_updates d) b)"
  by (auto simp: add_balance_change_def delta_of_def update_conv' split: option.splits)

lemma add_balance_change_created [simp]:
  "sd_created_accounts (add_balance_change a x n d) = sd_created_accounts d"
  by (simp add: add_balance_change_def split: option.splits)

lemma uint_saturating_add_le: "uint (saturating_add a b) \<le> uint a + uint b"
proof -
  have "unat (saturating_add a b) \<le> unat a + unat b" by (simp add: unat_saturating_add)
  then show ?thesis by (metis of_nat_add of_nat_mono uint_nat)
qed

lemma ledger_inv_init: "ledger_inv get (ledger_of get, state_diff_new)"
  by (auto simp: ledger_inv_def state_diff_new_def hm.invar_empty ledger_of_def bal_def acct_inv_def
      split: option.splits)

text \<open>Changing one account and recording the change in the diff.\<close>

lemma ledger_inv_change:
  assumes "ledger_inv get (m, d)" and "uint (la_balance l) \<le> bal (get a) + delta_of d a + x"
  shows "ledger_inv get (m(a \<mapsto> l), add_balance_change a x (la_nonce l) d)"
  using assms
  by (simp add: ledger_inv_def distinct_add_balance_change map_of_add_balance_change)
    (simp add: acct_inv_def add.assoc)

lemma ledger_inv_balance:
  assumes "ledger_inv get (m, d)"
  shows "uint (la_balance (acct_or_new m a)) \<le> bal (get a) + delta_of d a"
  using ledger_inv_acct [OF assms, of a]
  by (cases "m a") (auto simp: acct_inv_def acct_or_new_def bal_def delta_of_def)

lemma ledger_inv_credit:
  assumes "ledger_inv get md"
  shows "ledger_inv get (credit a amount md)"
proof -
  obtain m d where md: "md = (m, d)" by (cases md)
  let ?l = "(acct_or_new m a)\<lparr>la_balance := saturating_add (la_balance (acct_or_new m a)) amount\<rparr>"
  have "uint (la_balance ?l) \<le> bal (get a) + delta_of d a + uint amount"
    using ledger_inv_balance [of get m d a] assms md uint_saturating_add_le [of "la_balance (acct_or_new m a)" amount]
    by simp
  then show ?thesis
    using ledger_inv_change [of get m d ?l a "uint amount"] assms md by (simp add: credit_def Let_def)
qed

lemma uint_minus_le: "b \<le> a \<Longrightarrow> uint (a - b) = uint a - uint b" for a b :: u64
  by (simp add: uint_sub_lem [THEN iffD1] word_le_def)

lemma debit_Some:
  assumes "debit nonce a tot (m, d) = Some md'"
  obtains l where "m a = Some l" "nonce = la_nonce l" "tot \<le> la_balance l"
    "md' = (m(a \<mapsto> \<lparr>la_balance = la_balance l - tot, la_nonce = la_nonce l + 1\<rparr>),
            add_balance_change a (- uint tot) (la_nonce l + 1) d)"
  using assms by (auto simp: debit_def split: option.splits if_splits)

lemma ledger_inv_debit:
  assumes "ledger_inv get md" and "debit nonce a tot md = Some md'"
  shows "ledger_inv get md'"
proof -
  obtain m d where md: "md = (m, d)" by (cases md)
  obtain l where l: "m a = Some l" "tot \<le> la_balance l" and
    md': "md' = (m(a \<mapsto> \<lparr>la_balance = la_balance l - tot, la_nonce = la_nonce l + 1\<rparr>),
                 add_balance_change a (- uint tot) (la_nonce l + 1) d)"
    using debit_Some [of nonce a tot m d md'] assms(2) md by metis
  let ?l = "\<lparr>la_balance = la_balance l - tot, la_nonce = la_nonce l + 1\<rparr>"
  have "uint (la_balance ?l) \<le> bal (get a) + delta_of d a + (- uint tot)"
    using ledger_inv_balance [of get m d a] assms(1) md l by (simp add: acct_or_new_def uint_minus_le)
  then show ?thesis
    using ledger_inv_change [of get m d ?l a "- uint tot"] assms(1) md by (simp add: md')
qed

lemma ledger_inv_fees: "ledger_inv get md \<Longrightarrow> ledger_inv get (fees f md)"
  by (cases md) (simp add: ledger_inv_def fees_def add_collected_fees_def)

lemma ledger_inv_create:
  assumes "ledger_inv get (m, d)" and "m a = None"
  shows "ledger_inv get (m(a \<mapsto> \<lparr>la_balance = 0, la_nonce = 0\<rparr>), add_created_account a 0 d)"
proof -
  have a: "get a = None" "map_of (sd_updates d) a = None" "a \<notin> na_address ` set (sd_created_accounts d)"
    using ledger_inv_acct [OF assms(1), of a] assms(2) by (auto simp: acct_inv_def)
  then show ?thesis
    using assms(1)
    by (simp add: ledger_inv_def add_created_account_def) (simp add: acct_inv_def bal_def)
qed

lemma ledger_inv_step:
  assumes "ledger_inv get md" and "ledger_step tx instr md = Some md'"
  shows "ledger_inv get md'"
proof (cases instr)
  case (CreateAccount a)
  obtain m d where md: "md = (m, d)" by (cases md)
  obtain m1 d1 where deb: "debit (tx_nonce tx) (tx_sender tx) (tx_fee tx) md = Some (m1, d1)"
    and na: "m a = None"
    and md': "md' = fees (tx_fee tx) (m1(a \<mapsto> \<lparr>la_balance = 0, la_nonce = 0\<rparr>), add_created_account a 0 d1)"
    using assms(2) CreateAccount md by (auto split: if_splits)
  have "m1 a = None" using deb na md by (auto simp: debit_def split: option.splits if_splits)
  with ledger_inv_debit [OF assms(1) deb] show ?thesis
    unfolding md' by (intro ledger_inv_fees ledger_inv_create)
next
  case (Burn a amount)
  then show ?thesis using assms by (auto simp: bind_eq_Some_conv intro: ledger_inv_fees ledger_inv_debit)
next
  case (Mint r amount)
  then show ?thesis using assms by (auto split: option.splits intro: ledger_inv_credit ledger_inv_debit)
next
  case (Transfer r amount)
  then show ?thesis
    using assms by (auto simp: bind_eq_Some_conv intro: ledger_inv_fees ledger_inv_credit ledger_inv_debit)
qed

lemma ledger_inv_run: "ledger_inv get md \<Longrightarrow> ledger_run txs md = Some md' \<Longrightarrow> ledger_inv get md'"
  by (induction txs arbitrary: md) (auto simp: bind_eq_Some_conv intro: ledger_inv_step)

lemma validated_inv:
  assumes "ed_batch_law E" and "validate_block E get b = Inr d"
  obtains m where "ledger_run (b_transactions b) (ledger_of get, state_diff_new) = Some (m, d)"
    "ledger_inv get (m, d)"
  using assms validate_block_ledger [OF assms(1)] ledger_inv_run [OF ledger_inv_init] by metis

lemma ledger_inv_nonneg:
  assumes "ledger_inv get (m, d)"
  shows "0 \<le> bal (get a) + delta_of d a"
proof -
  have "0 \<le> uint (la_balance (acct_or_new m a))" by simp
  with ledger_inv_balance [OF assms, of a] show ?thesis by linarith
qed

lemma find_created:
  assumes "ledger_inv get (m, d)"
  shows "case List.find (\<lambda>c. na_address c = a) (sd_created_accounts d) of
      Some c \<Rightarrow> get a = None \<and> na_initial_balance c = 0 | None \<Rightarrow> True"
  using assms by (auto simp: ledger_inv_def find_Some_iff split: option.splits)

lemma bal_apply_update:
  assumes "0 \<le> uint (as_balance s) + au_balance_delta u" and "uint (as_balance s) + au_balance_delta u < 2 ^ 64"
  shows "uint (as_balance (apply_update u s)) = uint (as_balance s) + au_balance_delta u"
proof -
  let ?b = "uint (as_balance s)" and ?x = "au_balance_delta u"
  have b: "0 \<le> ?b" "?b < 18446744073709551616" using uint_bounded [of "as_balance s"] by simp_all
  have hi: "?b + ?x < 18446744073709551616" using assms(2) by simp
  show ?thesis
  proof (cases "0 \<le> ?x")
    case True
    have "?x < 18446744073709551616" using hi b(1) by linarith
    with True have x: "uint (word_of_int ?x :: u64) = ?x" by (intro word_of_int_inverse) simp_all
    then have "uint (as_balance s + word_of_int ?x) = ?b + ?x"
      using hi by (intro uint_add_lem [THEN iffD1, of "as_balance s" "word_of_int ?x", unfolded x]) simp
    with True hi x show ?thesis by (simp add: apply_update_def saturating_add_def)
  next
    case False
    have "- ?x < 18446744073709551616" using assms(1) b(2) by linarith
    with False have x: "uint (word_of_int (- ?x) :: u64) = - ?x" by (intro word_of_int_inverse) simp_all
    then have "(word_of_int (- ?x) :: u64) \<le> as_balance s" using assms(1) by (simp add: word_le_def)
    then have "uint (saturating_sub (as_balance s) (word_of_int (- ?x))) = ?b - uint (word_of_int (- ?x) :: u64)"
      by (simp add: saturating_sub_def uint_minus_le del: of_int_minus)
    with False x show ?thesis by (simp add: apply_update_def del: of_int_minus)
  qed
qed

lemma word_of_int_delta: "0 \<le> x \<Longrightarrow> x < 2 ^ 64 \<Longrightarrow> uint (word_of_int x :: u64) = x"
  by (intro word_of_int_inverse) simp_all

text \<open>C16: a validated diff is sound. For every account, the balance before the block plus the diff's
  delta is never negative; and as long as it fits in 64 bits, applying the diff as a
  pending overlay yields exactly that balance, whether the account existed, was created by the block
  or received its first funds in it.\<close>

theorem validated_diff_balances:
  assumes "ed_batch_law E" and "validate_block E get b = Inr d"
  shows "0 \<le> bal (get a) + delta_of d a
    \<and> (bal (get a) + delta_of d a < 2 ^ 64 \<longrightarrow> bal (overlay_diff a d (get a)) = bal (get a) + delta_of d a)"
proof (intro conjI impI)
  obtain m where inv: "ledger_inv get (m, d)" using validated_inv [OF assms] by blast
  show nn: "0 \<le> bal (get a) + delta_of d a" by (rule ledger_inv_nonneg [OF inv])
  assume hi: "bal (get a) + delta_of d a < 2 ^ 64"
  define s1 where "s1 = (case List.find (\<lambda>c. na_address c = a) (sd_created_accounts d) of
      Some c \<Rightarrow> Some \<lparr>as_balance = na_initial_balance c, as_nonce = 0, as_exists = True\<rparr>
    | None \<Rightarrow> get a)"
  have s1: "bal s1 = bal (get a)"
    using find_created [OF inv, of a] by (auto simp: s1_def bal_def split: option.splits)
  have ov: "overlay_diff a d (get a) = (case map_of (sd_updates d) a of None \<Rightarrow> s1 | Some u \<Rightarrow> update_state u s1)"
    by (simp only: overlay_diff_def s1_def Let_def)
  show "bal (overlay_diff a d (get a)) = bal (get a) + delta_of d a"
  proof (cases "map_of (sd_updates d) a")
    case None
    then show ?thesis using s1 by (simp add: ov delta_of_def)
  next
    case (Some u)
    then have x: "delta_of d a = au_balance_delta u" by (simp add: delta_of_def)
    show ?thesis
    proof (cases s1)
      case None
      then show ?thesis
        using Some s1 nn hi x by (auto simp: ov update_state_def bal_def word_of_int_delta)
    next
      case (Some s)
      with s1 have "bal (get a) = uint (as_balance s)" by (simp add: bal_def)
      with Some \<open>map_of (sd_updates d) a = Some u\<close> nn hi x show ?thesis
        by (simp add: ov update_state_def bal_apply_update) (simp add: bal_def bal_apply_update)
    qed
  qed
qed

subsection \<open>Conservation of supply\<close>

definition total_delta :: "state_diff \<Rightarrow> int" where
  "total_delta d = (\<Sum>e\<leftarrow>sd_updates d. au_balance_delta (snd e))"

definition supply_change :: "transaction \<Rightarrow> int" where
  "supply_change tx = (case tx_instruction tx of
      Transfer _ _ \<Rightarrow> - uint (tx_fee tx)
    | CreateAccount _ \<Rightarrow> - uint (tx_fee tx)
    | Burn _ amount \<Rightarrow> - (uint amount + uint (tx_fee tx))
    | Mint _ amount \<Rightarrow> uint amount)"

lemma sum_update:
  "distinct (map fst us) \<Longrightarrow> (\<Sum>e\<leftarrow>AList.update a v us. au_balance_delta (snd e))
     = (\<Sum>e\<leftarrow>us. au_balance_delta (snd e)) + au_balance_delta v
       - (case map_of us a of Some u \<Rightarrow> au_balance_delta u | None \<Rightarrow> 0)"
proof (induction us)
  case (Cons e us)
  have "map_of us a = None" if "fst e = a"
    using Cons.prems that by (auto simp: map_of_eq_None_iff)
  with Cons show ?case by (cases e) auto
qed simp

lemma total_delta_change:
  "hm_invar (sd_updates d) \<Longrightarrow> total_delta (add_balance_change a x n d) = total_delta d + x"
  by (simp add: total_delta_def add_balance_change_def hm_invar_def sum_update split: option.splits)

lemma total_delta_frame [simp]:
  "total_delta (add_created_account a v d) = total_delta d"
  "total_delta (add_collected_fees f d) = total_delta d"
  "total_delta state_diff_new = 0"
  by (simp_all add: total_delta_def add_created_account_def add_collected_fees_def state_diff_new_def)

lemma total_delta_credit:
  "ledger_inv get md \<Longrightarrow> total_delta (snd (credit a amount md)) = total_delta (snd md) + uint amount"
  by (cases md) (simp add: credit_def Let_def total_delta_change ledger_inv_def)

lemma total_delta_debit:
  "ledger_inv get md \<Longrightarrow> debit n a tot md = Some md' \<Longrightarrow> total_delta (snd md') = total_delta (snd md) - uint tot"
  by (cases md) (auto simp: debit_def total_delta_change ledger_inv_def split: option.splits if_splits)

lemma total_delta_fees [simp]: "total_delta (snd (fees f md)) = total_delta (snd md)"
  by (cases md) (simp add: fees_def)

lemma uint_checked_add: "checked_add a b = Some c \<Longrightarrow> uint c = uint a + uint b"
  using checked_add_unat [of a b c] by (metis of_nat_add uint_nat)

lemma total_delta_step:
  assumes "ledger_inv get md" and "ledger_step tx (tx_instruction tx) md = Some md'"
  shows "total_delta (snd md') = total_delta (snd md) + supply_change tx"
proof (cases "tx_instruction tx")
  case (CreateAccount a)
  then show ?thesis
    using assms by (auto simp: supply_change_def split: if_splits dest!: total_delta_debit [OF assms(1)])
next
  case (Burn a amount)
  then show ?thesis
    using assms by (auto simp: supply_change_def bind_eq_Some_conv uint_checked_add dest!: total_delta_debit [OF assms(1)])
next
  case (Mint r amount)
  show ?thesis
  proof (cases "fst md (tx_sender tx)")
    case None
    with Mint assms show ?thesis by (auto simp: supply_change_def total_delta_credit)
  next
    case (Some l)
    with Mint assms(2) obtain md1 where t: "debit (tx_nonce tx) (tx_sender tx) 0 md = Some md1"
      "md' = credit r amount md1" by auto
    with total_delta_debit [OF assms(1) t(1)] total_delta_credit [OF ledger_inv_debit [OF assms(1) t(1)]] Mint
    show ?thesis by (simp add: supply_change_def)
  qed
next
  case (Transfer r amount)
  then obtain tot md1 where t: "checked_add amount (tx_fee tx) = Some tot"
      "debit (tx_nonce tx) (tx_sender tx) tot md = Some md1" "md' = fees (tx_fee tx) (credit r amount md1)"
    using assms(2) by (auto simp: bind_eq_Some_conv)
  with total_delta_debit [OF assms(1) t(2)] total_delta_credit [OF ledger_inv_debit [OF assms(1) t(2)]] Transfer
  show ?thesis by (simp add: supply_change_def uint_checked_add)
qed

lemma total_delta_run:
  "ledger_inv get md \<Longrightarrow> ledger_run txs md = Some md' \<Longrightarrow>
   total_delta (snd md') = total_delta (snd md) + (\<Sum>tx\<leftarrow>txs. supply_change tx)"
proof (induction txs arbitrary: md)
  case (Cons tx txs)
  then obtain md1 where "ledger_step tx (tx_instruction tx) md = Some md1" "ledger_run txs md1 = Some md'"
    by (auto simp: bind_eq_Some_conv)
  with Cons.IH [of md1] ledger_inv_step [OF Cons.prems(1)] total_delta_step [OF Cons.prems(1)] show ?case by auto
qed simp

text \<open>C17: a block creates money only by minting. The deltas of a validated diff add up to the minted
  amounts minus the burned amounts minus all fees of transfers, account creations and burns:
  transfers move exactly what they debit, less the fee, which no account receives.\<close>

theorem validated_diff_conserves_supply:
  assumes "ed_batch_law E" and "validate_block E get b = Inr d"
  shows "total_delta d = (\<Sum>tx\<leftarrow>b_transactions b. supply_change tx)"
proof -
  obtain m where r: "ledger_run (b_transactions b) (ledger_of get, state_diff_new) = Some (m, d)"
    using validated_inv [OF assms] by blast
  from total_delta_run [OF ledger_inv_init r] show ?thesis by simp
qed

subsection \<open>Nonces\<close>

text \<open>The account whose nonce a transaction uses up.\<close>

definition actor :: "transaction \<Rightarrow> address" where
  "actor tx = (case tx_instruction tx of Burn a _ \<Rightarrow> a | _ \<Rightarrow> tx_sender tx)"

text \<open>The nonces a list of transactions uses on one account.\<close>

definition nonces_used :: "address \<Rightarrow> transaction list \<Rightarrow> u64 list" where
  "nonces_used a txs = map tx_nonce (filter (\<lambda>tx. actor tx = a) txs)"

definition nonce_in :: "ledger \<Rightarrow> address \<Rightarrow> u64 option" where
  "nonce_in m a = map_option la_nonce (m a)"

lemma nonce_in_credit: "nonce_in m a \<noteq> None \<Longrightarrow> nonce_in (fst (credit b amount (m, d))) a = nonce_in m a"
  by (auto simp: nonce_in_def credit_def acct_or_new_def Let_def)

lemma nonce_in_debit:
  "debit n b tot md = Some md' \<Longrightarrow>
   nonce_in (fst md') a = (if a = b then Some (n + 1) else nonce_in (fst md) a) \<and> nonce_in (fst md) b = Some n"
  by (cases md) (auto simp: debit_def nonce_in_def split: option.splits if_splits)

lemma fst_fees [simp]: "fst (fees f md) = fst md"
  by (cases md) (simp add: fees_def)

lemma nonce_in_credit': "nonce_in (fst md) a \<noteq> None \<Longrightarrow> nonce_in (fst (credit b amount md)) a = nonce_in (fst md) a"
  by (cases md) (simp add: nonce_in_credit)

lemma nonce_step:
  assumes "nonce_in (fst md) a = Some n" and "ledger_step tx (tx_instruction tx) md = Some md'"
  shows "if actor tx = a then tx_nonce tx = n \<and> nonce_in (fst md') a = Some (n + 1)
         else nonce_in (fst md') a = Some n"
proof (cases "tx_instruction tx")
  case (CreateAccount b)
  then obtain md1 where b: "fst md b = None" "debit (tx_nonce tx) (tx_sender tx) (tx_fee tx) md = Some md1"
    "fst md' = (fst md1)(b \<mapsto> \<lparr>la_balance = 0, la_nonce = 0\<rparr>)"
    using assms(2) by (auto split: if_splits)
  from b(1) assms(1) have "a \<noteq> b" by (auto simp: nonce_in_def)
  then have "nonce_in (fst md') a = nonce_in (fst md1) a" by (simp add: b(3) nonce_in_def)
  with nonce_in_debit [OF b(2), of a] assms(1) CreateAccount show ?thesis by (auto simp: actor_def)
next
  case (Burn b amount)
  then obtain tot md1 where t: "debit (tx_nonce tx) b tot md = Some md1" "fst md' = fst md1"
    using assms(2) by (auto simp: bind_eq_Some_conv)
  with nonce_in_debit [OF t(1), of a] assms(1) Burn show ?thesis by (auto simp: actor_def)
next
  case (Mint r amount)
  show ?thesis
  proof (cases "fst md (tx_sender tx)")
    case None
    with Mint assms show ?thesis by (auto simp: actor_def nonce_in_def [of "fst md"] nonce_in_credit')
  next
    case (Some l)
    with Mint assms(2) obtain md1 where t: "debit (tx_nonce tx) (tx_sender tx) 0 md = Some md1"
      "md' = credit r amount md1" by auto
    with nonce_in_debit [OF t(1), of a] assms(1) Mint show ?thesis by (auto simp: actor_def nonce_in_credit')
  qed
next
  case (Transfer r amount)
  then obtain tot md1 where t: "debit (tx_nonce tx) (tx_sender tx) tot md = Some md1"
      "fst md' = fst (credit r amount md1)"
    using assms(2) by (auto simp: bind_eq_Some_conv)
  with nonce_in_debit [OF t(1), of a] assms(1) Transfer show ?thesis by (auto simp: actor_def nonce_in_credit')
qed

lemma nonces_run:
  "nonce_in (fst md) a = Some n \<Longrightarrow> ledger_run txs md = Some md' \<Longrightarrow>
   nonces_used a txs = map (\<lambda>i. n + of_nat i) [0..<length (nonces_used a txs)]
   \<and> nonce_in (fst md') a = Some (n + of_nat (length (nonces_used a txs)))"
proof (induction txs arbitrary: md n)
  case (Cons tx txs)
  then obtain md1 where t: "ledger_step tx (tx_instruction tx) md = Some md1" "ledger_run txs md1 = Some md'"
    by (auto simp: bind_eq_Some_conv)
  show ?case
  proof (cases "actor tx = a")
    case True
    with nonce_step [OF Cons.prems(1) t(1)] have n: "tx_nonce tx = n" "nonce_in (fst md1) a = Some (n + 1)"
      by simp_all
    from True n(1) have u: "nonces_used a (tx # txs) = n # nonces_used a txs" by (simp add: nonces_used_def)
    have "[0..<Suc k] = 0 # map Suc [0..<k]" for k by (simp add: map_Suc_upt upt_conv_Cons)
    with Cons.IH [OF n(2) t(2)] show ?thesis
      unfolding u by (simp add: o_def add.assoc)
  next
    case False
    with nonce_step [OF Cons.prems(1) t(1)] Cons.IH [of md1 n] t(2) show ?thesis by (simp add: nonces_used_def)
  qed
qed (simp add: nonces_used_def)

lemma overlay_nonce:
  assumes "ledger_inv get (m, d)" and "get a = Some s"
  shows "map_option as_nonce (overlay_diff a d (get a)) = nonce_in m a"
proof -
  have c: "List.find (\<lambda>c. na_address c = a) (sd_created_accounts d) = None"
    using find_created [OF assms(1), of a] assms(2) by (auto split: option.splits)
  show ?thesis
    using ledger_inv_acct [OF assms(1), of a] assms(2) c
    by (auto simp: overlay_diff_def acct_inv_def nonce_in_def update_state_def apply_update_def
        split: option.splits)
qed

lemma validated_nonces:
  assumes "ed_batch_law E" and "validate_block E get b = Inr d" and "get a = Some s"
  shows "nonces_used a (b_transactions b) = map (\<lambda>i. as_nonce s + of_nat i) [0..<length (nonces_used a (b_transactions b))]
    \<and> map_option as_nonce (overlay_diff a d (get a)) = Some (as_nonce s + of_nat (length (nonces_used a (b_transactions b))))"
proof -
  obtain m where r: "ledger_run (b_transactions b) (ledger_of get, state_diff_new) = Some (m, d)"
    "ledger_inv get (m, d)" using validated_inv [OF assms(1,2)] by blast
  have "nonce_in (ledger_of get) a = Some (as_nonce s)" by (simp add: nonce_in_def ledger_of_def assms(3))
  with nonces_run [OF _ r(1), of a "as_nonce s"] overlay_nonce [OF r(2) assms(3)] show ?thesis by simp
qed

text \<open>Nonces of an existing account. In a validated block the transactions that act for the account
  (transfers, mints and account creations it sends, burns on it) carry consecutive nonces starting
  at the account's nonce, and after the diff the account's nonce is the next one.\<close>

theorem validated_block_uses_consecutive_nonces:
  assumes "ed_batch_law E" and "validate_block E get b = Inr d" and "get a = Some s"
  shows "nonces_used a (b_transactions b) = map (\<lambda>i. as_nonce s + of_nat i) [0..<length (nonces_used a (b_transactions b))]
    \<and> map_option as_nonce (overlay_diff a d (get a)) = Some (as_nonce s + of_nat (length (nonces_used a (b_transactions b))))"
  by (rule validated_nonces [OF assms])

lemma word_upt_disjoint:
  fixes n :: u64
  assumes "j + k < 2 ^ 64"
  shows "set (map (\<lambda>i. n + of_nat i) [0..<j]) \<inter> set (map (\<lambda>i. n + of_nat j + of_nat i) [0..<k]) = {}"
proof -
  have "x = j + y" if "n + of_nat x = n + of_nat j + of_nat y" "x < j" "y < k" for x y
  proof -
    have "(of_nat x :: u64) = of_nat (j + y)" using that(1) by (simp add: add.assoc)
    then have "unat (of_nat x :: u64) = unat (of_nat (j + y) :: u64)" by (simp only:)
    moreover have "x < 2 ^ 64" "j + y < 2 ^ 64" using that assms by linarith+
    ultimately show ?thesis by (simp add: unat_of_nat take_bit_nat_eq_self del: of_nat_add)
  qed
  then show ?thesis by force
qed

text \<open>C18: no replay in the next block. If a block is validated, its diff applied, and a further block
  validated against the resulting state, then no transaction of the second block acts for an
  account that already existed with a nonce the first block has used for that account (for blocks
  of less than 2^64 transactions together).\<close>

theorem no_replay_in_next_block:
  assumes "ed_batch_law E"
    and "validate_block E get b = Inr d" and "get a \<noteq> None"
    and "validate_block E (\<lambda>x. overlay_diff x d (get x)) b' = Inr d'"
    and "length (b_transactions b) + length (b_transactions b') < 2 ^ 64"
  shows "set (nonces_used a (b_transactions b)) \<inter> set (nonces_used a (b_transactions b')) = {}"
proof -
  obtain s where s: "get a = Some s" using assms(3) by blast
  let ?j = "length (nonces_used a (b_transactions b))" and ?k = "length (nonces_used a (b_transactions b'))"
  note v = validated_nonces [OF assms(1,2) s]
  then obtain s' where s': "overlay_diff a d (get a) = Some s'" "as_nonce s' = as_nonce s + of_nat ?j" by auto
  note v' = validated_nonces [OF assms(1,4), of a s', OF s'(1)]
  have "?j \<le> length (b_transactions b)" "?k \<le> length (b_transactions b')" by (simp_all add: nonces_used_def)
  with assms(5) have "?j + ?k < 2 ^ 64" by linarith
  note disj = word_upt_disjoint [OF this, of "as_nonce s"]
  show ?thesis
    unfolding arg_cong [where f = set, OF v [THEN conjunct1]] arg_cong [where f = set, OF v' [THEN conjunct1]] s'(2)
    by (rule disj)
qed

subsection \<open>Concrete blocks\<close>

definition toy_get :: "address \<Rightarrow> account_state option" where
  "toy_get a = (if a = [1] then Some \<lparr>as_balance = 100, as_nonce = 4, as_exists = True\<rparr>
     else if a = [2] then Some \<lparr>as_balance = 7, as_nonce = 0, as_exists = True\<rparr> else None)"

definition toy_tx :: "address \<Rightarrow> transaction_instruction \<Rightarrow> u64 \<Rightarrow> u64 \<Rightarrow> transaction" where
  "toy_tx a instr nonce fee = create_signed toy_env a instr nonce fee a 0"

definition toy_txs :: "transaction list" where
  "toy_txs = [toy_tx [1] (Transfer [2] 10) 4 1, toy_tx [2] (CreateAccount [3]) 0 2,
     toy_tx [1] (Transfer [4] 5) 5 1, toy_tx [1] (Burn [1] 20) 6 3, toy_tx [5] (Mint [2] 30) 9 0]"

definition toy_vblock :: "transaction list \<Rightarrow> block" where
  "toy_vblock txs = block_new toy_env 1 3 [9] txs 0 7 False 1"

definition toy_block_diff :: state_diff where
  "toy_block_diff = (case validate_block toy_env toy_get (toy_vblock toy_txs) of Inr d \<Rightarrow> d | Inl _ \<Rightarrow> state_diff_new)"

lemma toy_block_valid: "validate_block toy_env toy_get (toy_vblock toy_txs) = Inr toy_block_diff"
proof -
  have "case validate_block toy_env toy_get (toy_vblock toy_txs) of Inr d \<Rightarrow> True | Inl _ \<Rightarrow> False"
    by code_simp
  then show ?thesis by (simp add: toy_block_diff_def split: sum.splits)
qed

theorem validate_block_refines_ledger_witness:
  "ed_batch_law toy_env
   \<and> (\<exists>m. ledger_run (b_transactions (toy_vblock toy_txs)) (ledger_of toy_get, state_diff_new) = Some (m, toy_block_diff))"
  using validate_block_refines_ledger [OF toy_env_ed_batch_law, of toy_get "toy_vblock toy_txs" toy_block_diff]
    toy_block_valid toy_env_ed_batch_law by blast

theorem validated_diff_balances_witness:
  "ed_batch_law toy_env \<and> delta_of toy_block_diff [1] = - 40 \<and> 0 \<le> bal (toy_get [1]) + delta_of toy_block_diff [1]
   \<and> bal (overlay_diff [1] toy_block_diff (toy_get [1])) = 60"
proof -
  have d: "delta_of toy_block_diff [1] = - 40" by code_simp
  have g: "bal (toy_get [1]) = 100" by (simp add: toy_get_def bal_def)
  from validated_diff_balances [OF toy_env_ed_batch_law toy_block_valid, of "[1]"] d g toy_env_ed_batch_law
  show ?thesis by simp
qed

theorem validated_diff_conserves_supply_witness:
  "ed_batch_law toy_env \<and> total_delta toy_block_diff = 3"
proof -
  have "(\<Sum>tx\<leftarrow>b_transactions (toy_vblock toy_txs). supply_change tx) = 3" by code_simp
  with validated_diff_conserves_supply [OF toy_env_ed_batch_law toy_block_valid] toy_env_ed_batch_law
  show ?thesis by simp
qed

theorem validated_block_uses_consecutive_nonces_witness:
  "ed_batch_law toy_env \<and> nonces_used [1] toy_txs = [4, 5, 6]
   \<and> map_option as_nonce (overlay_diff [1] toy_block_diff (toy_get [1])) = Some 7"
proof -
  have n: "nonces_used [1] toy_txs = [4, 5, 6]" by code_simp
  have b: "b_transactions (toy_vblock toy_txs) = toy_txs" by (simp add: toy_vblock_def block_new_def Let_def)
  have g: "toy_get [1] = Some \<lparr>as_balance = 100, as_nonce = 4, as_exists = True\<rparr>" by (simp add: toy_get_def)
  from validated_block_uses_consecutive_nonces [OF toy_env_ed_batch_law toy_block_valid g] n toy_env_ed_batch_law
  show ?thesis unfolding b by simp
qed

theorem no_replay_in_next_block_witness:
  "let b' = toy_vblock [toy_tx [1] (Transfer [2] 10) 7 1]
   in (case validate_block toy_env (\<lambda>x. overlay_diff x toy_block_diff (toy_get x)) b' of Inr _ \<Rightarrow> True | Inl _ \<Rightarrow> False)
     \<and> set (nonces_used [1] (b_transactions (toy_vblock toy_txs))) \<inter> set (nonces_used [1] (b_transactions b')) = {}"
proof -
  let ?b' = "toy_vblock [toy_tx [1] (Transfer [2] 10) 7 1]"
  let ?v = "validate_block toy_env (\<lambda>x. overlay_diff x toy_block_diff (toy_get x)) ?b'"
  have ok: "case ?v of Inr _ \<Rightarrow> True | Inl _ \<Rightarrow> False" by code_simp
  then obtain d' where d': "?v = Inr d'" by (cases ?v) auto
  have l: "length (b_transactions (toy_vblock toy_txs)) + length (b_transactions ?b') < 2 ^ 64"
    by (simp add: toy_vblock_def block_new_def Let_def toy_txs_def)
  have g: "toy_get [1] \<noteq> None" by (simp add: toy_get_def)
  from no_replay_in_next_block [OF toy_env_ed_batch_law toy_block_valid g d' l] ok
  show ?thesis by (simp add: Let_def)
qed

text \<open>A burn needs no signature of the account it debits. The block below is valid although its
  only transaction, sent and signed by the non-existing account [5], burns 50 coins of account [1]
  (\<open>validate_burn\<close> takes the account from the instruction and never compares it with the sender).\<close>

theorem burn_without_owner_signature:
  "let b = toy_vblock [toy_tx [5] (Burn [1] 50) 4 0]
   in map tx_sender (b_transactions b) = [[5]] \<and>
     (case validate_block toy_env toy_get b of
        Inr d \<Rightarrow> delta_of d [1] = - 50 \<and> bal (overlay_diff [1] d (toy_get [1])) = 50
      | Inl _ \<Rightarrow> False)"
  by code_simp

text \<open>An account that a block both funds and empties forgets its nonce, and its transaction can be
  replayed. The first block pays 10 coins to the new account [3], which spends them with nonce 0;
  the diff's delta for [3] is 0, so applying the diff creates no account. A second block that pays
  [3] again and repeats the very same transaction of [3] is valid against the resulting state.\<close>

theorem emptied_new_account_can_be_replayed:
  "let spend = toy_tx [3] (Transfer [4] 9) 0 1;
       b1 = toy_vblock [toy_tx [1] (Transfer [3] 10) 4 1, spend];
       b2 = toy_vblock [toy_tx [1] (Transfer [3] 10) 5 1, spend]
   in case validate_block toy_env toy_get b1 of
        Inl _ \<Rightarrow> False
      | Inr d \<Rightarrow> overlay_diff [3] d (toy_get [3]) = None \<and>
          (case validate_block toy_env (\<lambda>x. overlay_diff x d (toy_get x)) b2 of Inr _ \<Rightarrow> True | Inl _ \<Rightarrow> False)"
  by code_simp

end
