(* ===== verification/View_Manager.thy ===== *)
theory View_Manager
  imports View_Chain Leader_Manager Validator
begin

text \<open>
  The view progress manager (\<open>consensus_manager/view_manager.rs\<close> and the events of
  \<open>consensus_manager/events.rs\<close>): it hands each consensus message to the view chain, turns what the
  chain reports into one event for the state machine, and decides at every tick what is due. The
  clock is the argument \<open>now\<close>, in milliseconds. A handler returns its \<open>Result\<close> with the manager it
  leaves; \<open>None\<close> is a call that never returns, which finalization and the processing of pending
  blocks can be.
\<close>

subsection \<open>Events and state\<close>

datatype view_progress_event =
    ShouldProposeBlock view_no hash
  | ShouldVote view_no hash
  | ShouldNullify view_no
  | ShouldBroadcastNullification view_no
  | ShouldMNotarize view_no hash bool
  | ShouldVoteAndMNotarize view_no hash bool
  | ShouldVoteAndProgressToNextView view_no hash view_no peer_id bool
  | ProgressToNextView view_no peer_id hash bool
  | ShouldFinalize view_no hash
  | ShouldVoteAndFinalize view_no hash
  | ProgressToNextViewOnNullification view_no peer_id hash bool
  | BroadcastConsensusMessage consensus_message
  | NoOp
  | Await
  | ShouldUpdateView view_no peer_id
  | ShouldNullifyView view_no
  | ShouldCascadeNullification view_no bool
  | ShouldNullifyRange view_no
  | ShouldRequestBlock view_no hash
  | ShouldRequestBlocks "(view_no \<times> hash) list"

text \<open>The block validator reads through the shared snapshot of the chain's writer, so it needs no
  field of its own.\<close>

record view_manager =
  vm_view_timeout :: nat
  vm_leader_manager :: round_robin_leader_manager
  vm_view_chain :: view_chain
  vm_replica_id :: peer_id
  vm_peers :: peer_set
  vm_cooldowns :: "(view_no \<times> instant) list"
  vm_recovery_pending :: "(view_no \<times> hash) list"

definition on_chain :: "(view_chain \<Rightarrow> 'a \<times> view_chain) \<Rightarrow> view_manager \<Rightarrow> 'a \<times> view_manager" where
  "on_chain f m = (case f (vm_view_chain m) of (r, s) \<Rightarrow> (r, m\<lparr>vm_view_chain := s\<rparr>))"

text \<open>The leader of a view, through the leader manager.\<close>

definition compute_leader_for_view :: "view_no \<Rightarrow> view_manager \<Rightarrow> peer_id result" where
  "compute_leader_for_view v m = map_sum id l_peer_id (leader_for_view (vm_leader_manager m) v)"

text \<open>\<open>pks\<close> is what parsing the configured peers gave; \<open>None\<close> in it is the failed \<open>expect\<close>.\<close>

definition manager_of ::
    "nat \<Rightarrow> round_robin_leader_manager \<Rightarrow> view_chain \<Rightarrow> peer_id \<Rightarrow> peer_set \<Rightarrow> view_manager" where
  "manager_of timeout lm s me P =
     \<lparr>vm_view_timeout = timeout, vm_leader_manager = lm, vm_view_chain = s, vm_replica_id = me,
      vm_peers = P, vm_cooldowns = [], vm_recovery_pending = []\<rparr>"

definition parsed_peers :: "env \<Rightarrow> bls_public_key option list \<Rightarrow> peer_set result" where
  "parsed_peers E pks = (case those pks of
      None \<Rightarrow> Inl (Panic UnwrapOnNone)
    | Some ks \<Rightarrow> (case peer_set_new E ks of None \<Rightarrow> Inl (Panic DuplicatePeers) | Some P \<Rightarrow> Inr P))"

definition view_manager_new ::
    "env \<Rightarrow> instant \<Rightarrow> nat \<Rightarrow> bls_public_key option list \<Rightarrow> genesis_account list \<Rightarrow> peer_id
      \<Rightarrow> round_robin_leader_manager \<Rightarrow> writer \<Rightarrow> view_manager result" where
  "view_manager_new E now timeout pks gas me lm w =
     (case parsed_peers E pks of Inl e \<Rightarrow> Inl e | Inr P \<Rightarrow>
      (case leader_for_view lm 0 of Inl e \<Rightarrow> Inl e | Inr l0 \<Rightarrow>
      (case put_finalized_block E (genesis E (l_peer_id l0) (g1_zero E)) (pw_store w) of
         Inl e \<Rightarrow> Inl e | Inr st \<Rightarrow>
      (case initialize_genesis_accounts E gas st of Inl e \<Rightarrow> Inl e | Inr st' \<Rightarrow>
      (case leader_for_view lm 1 of Inl e \<Rightarrow> Inl e | Inr l1 \<Rightarrow>
         Inr (manager_of timeout lm
           (view_chain_new E (view_context_new now 1 (l_peer_id l1) me (genesis_hash E))
              (w\<lparr>pw_store := st'\<rparr>)) me P))))))"

definition from_genesis ::
    "env \<Rightarrow> instant \<Rightarrow> nat \<Rightarrow> nat \<Rightarrow> leader_selection_strategy \<Rightarrow> bls_public_key option list \<Rightarrow> peer_id
      \<Rightarrow> writer \<Rightarrow> view_manager result" where
  "from_genesis E now timeout n strategy pks me w =
     (case parsed_peers E pks of Inl e \<Rightarrow> Inl e | Inr P \<Rightarrow>
      (case strategy of
         RoundRobin \<Rightarrow> (case round_robin_new n (sorted_peer_ids P) of
             None \<Rightarrow> Inl (Panic ReplicasMismatch)
           | Some lm \<Rightarrow> (case leader_for_view lm 1 of Inl e \<Rightarrow> Inl e | Inr l1 \<Rightarrow>
               Inr (manager_of timeout lm
                 (view_chain_new E (view_context_new now 1 (l_peer_id l1) me (genesis_hash E)) w)
                 me P)))
       | _ \<Rightarrow> Inl (Panic NotImplemented)))"

subsection \<open>Small operations\<close>

definition leader_of_view :: "view_no \<Rightarrow> view_manager \<Rightarrow> peer_id result" where
  "leader_of_view v m = (case find_view_context v (vm_view_chain m) of
      None \<Rightarrow> Inl ViewUnknown | Some ctx \<Rightarrow> Inr (vc_leader_id ctx))"

definition drain_recovery :: "view_manager \<Rightarrow> view_manager" where
  "drain_recovery m =
     (let s = vm_view_chain m
      in m\<lparr>vm_view_chain := s\<lparr>ch_recovery := []\<rparr>,
           vm_recovery_pending := fold (\<lambda>e ps. if fst e \<in> fst ` set ps then ps else ps @ [e])
             (ch_recovery s) (vm_recovery_pending m)\<rparr>)"

definition finalize_view :: "env \<Rightarrow> cfg \<Rightarrow> view_no \<Rightarrow> view_manager \<Rightarrow> (unit result \<times> view_manager) option" where
  "finalize_view E c v m =
     (case finalize_with_l_notarization E c (vm_peers m) v (vm_view_chain m) of
        None \<Rightarrow> None
      | Some (Inl e, s) \<Rightarrow> Some (Inl e, m\<lparr>vm_view_chain := s\<rparr>)
      | Some (Inr _, s) \<Rightarrow> Some (Inr (), drain_recovery (m\<lparr>vm_view_chain := s\<rparr>)))"

definition mark_proposed :: "view_no \<Rightarrow> view_manager \<Rightarrow> unit result \<times> view_manager" where
  "mark_proposed v = on_chain (\<lambda>s.
     if v = ch_current_view s then
       (case current s of
          Inl e \<Rightarrow> (Inl e, s)
        | Inr ctx \<Rightarrow> (Inr (), set_ctx v (ctx\<lparr>vc_has_proposed := True\<rparr>) s))
     else (Inl NotCurrentView, s))"

definition mark_voted :: "view_no \<Rightarrow> view_manager \<Rightarrow> unit result \<times> view_manager" where
  "mark_voted v = on_chain (\<lambda>s. case find_view_context v s of
      None \<Rightarrow> (Inl ViewUnknown, s)
    | Some ctx \<Rightarrow> (Inr (), set_ctx v (ctx\<lparr>vc_has_voted := True\<rparr>) s))"

definition mark_nullified :: "view_no \<Rightarrow> view_manager \<Rightarrow> unit result \<times> view_manager" where
  "mark_nullified v = on_chain (\<lambda>s. case find_view_context v s of
      None \<Rightarrow> (Inl ViewUnknown, s)
    | Some ctx \<Rightarrow>
        (Inr (), remove_pending_diff v (set_ctx v (ctx\<lparr>vc_has_nullified := True\<rparr>) s)))"

definition vm_rollback_pending_diffs_in_range :: "view_no \<Rightarrow> view_no \<Rightarrow> view_manager \<Rightarrow> view_manager" where
  "vm_rollback_pending_diffs_in_range start_view end_view m =
     m\<lparr>vm_view_chain := rollback_pending_diffs_in_range start_view end_view (vm_view_chain m)\<rparr>"

definition vm_progress_after_cascade ::
    "instant \<Rightarrow> view_no \<Rightarrow> view_manager \<Rightarrow> (peer_id \<times> hash) result \<times> view_manager" where
  "vm_progress_after_cascade now new_view m =
     (case compute_leader_for_view new_view m of
        Inl e \<Rightarrow> (Inl e, m)
      | Inr l \<Rightarrow>
          let p = select_parent new_view (vm_view_chain m)
          in case on_chain (progress_after_cascade
                 (view_context_new now new_view l (vm_replica_id m) p)) m of
               (Inl e, m') \<Rightarrow> (Inl e, m')
             | (Inr _, m') \<Rightarrow> (Inr (l, p), m'))"

definition get_m_notarization :: "view_no \<Rightarrow> view_manager \<Rightarrow> m_notarization result" where
  "get_m_notarization v m = (case find_view_context v (vm_view_chain m) of
      None \<Rightarrow> Inl ViewUnknown
    | Some ctx \<Rightarrow> (case vc_m_notarization ctx of None \<Rightarrow> Inl NoMNotarization | Some x \<Rightarrow> Inr x))"

definition vm_get_nullification :: "view_no \<Rightarrow> view_manager \<Rightarrow> nullification result" where
  "vm_get_nullification v m = (case find_view_context v (vm_view_chain m) of
      None \<Rightarrow> Inl ViewUnknown
    | Some ctx \<Rightarrow> (case vc_nullification ctx of None \<Rightarrow> Inl NoNullification | Some x \<Rightarrow> Inr x))"

definition get_block_tx_hashes :: "view_no \<Rightarrow> view_manager \<Rightarrow> hash list result" where
  "get_block_tx_hashes v m = (case find_view_context v (vm_view_chain m) of
      None \<Rightarrow> Inl ViewUnknown
    | Some ctx \<Rightarrow> (case vc_block ctx of
          None \<Rightarrow> Inl NoBlock | Some b \<Rightarrow> Inr (map tx_hash (b_transactions b))))"

text \<open>The operations of one view, reached through \<open>find_view_context_mut\<close>.\<close>

definition in_view ::
    "view_no \<Rightarrow> (view_context \<Rightarrow> 'a result \<times> view_context) \<Rightarrow> view_manager \<Rightarrow> 'a result \<times> view_manager" where
  "in_view v f = on_chain (\<lambda>s. case find_view_context v s of
      None \<Rightarrow> (Inl ViewUnknown, s)
    | Some ctx \<Rightarrow> (case f ctx of (r, ctx') \<Rightarrow> (r, set_ctx v ctx' s)))"

definition vm_add_own_vote ::
    "view_no \<Rightarrow> hash \<Rightarrow> bls_signature \<Rightarrow> view_manager \<Rightarrow> unit result \<times> view_manager" where
  "vm_add_own_vote v h sig = in_view v (add_own_vote h sig)"

definition vm_add_leader_vote ::
    "env \<Rightarrow> view_no \<Rightarrow> block \<Rightarrow> bls_signature \<Rightarrow> view_manager \<Rightarrow> unit result \<times> view_manager" where
  "vm_add_leader_vote E v b sig = in_view v (add_leader_vote_for_block_proposal E b sig)"

definition shutdown :: "env \<Rightarrow> view_manager \<Rightarrow> unit result \<times> view_manager" where
  "shutdown E = on_chain (persist_all_views E)"

subsection \<open>Pending proposals\<close>

text \<open>One pass over the M-notarized views: whether any of them had pending children.\<close>

fun process_children ::
    "env \<Rightarrow> cfg \<Rightarrow> peer_set \<Rightarrow> view_no list \<Rightarrow> view_chain \<Rightarrow> bool result \<times> view_chain" where
  "process_children E c P [] s = (Inr False, s)"
| "process_children E c P (v # vs) s =
     (case process_pending_child_proposals E c P v s of
        (Inl e, s1) \<Rightarrow> (Inl e, s1)
      | (Inr results, s1) \<Rightarrow> (case process_children E c P vs s1 of
            (Inl e, s2) \<Rightarrow> (Inl e, s2)
          | (Inr made_progress, s2) \<Rightarrow> (Inr (results \<noteq> [] \<or> made_progress), s2)))"

definition views_with_m_not :: "view_chain \<Rightarrow> view_no list" where
  "views_with_m_not s = map fst (filter (\<lambda>(_, ctx). vc_m_notarization ctx \<noteq> None) (ch_views s))"

partial_function (option) process_all_pending_blocks ::
    "env \<Rightarrow> cfg \<Rightarrow> peer_set \<Rightarrow> view_chain \<Rightarrow> (unit result \<times> view_chain) option" where
  "process_all_pending_blocks E c peers s =
     (case process_children E c peers (views_with_m_not s) s of
        (Inl e, s1) \<Rightarrow> Some (Inl e, s1)
      | (Inr made_progress, s1) \<Rightarrow>
          if made_progress then process_all_pending_blocks E c peers s1 else Some (Inr (), s1))"

declare process_all_pending_blocks.simps [code]

type_synonym handler = "view_manager \<Rightarrow> (view_progress_event result \<times> view_manager) option"

definition return :: "view_progress_event \<Rightarrow> handler" where
  "return ev m = Some (Inr ev, m)"

definition after_pending :: "env \<Rightarrow> cfg \<Rightarrow> view_progress_event \<Rightarrow> handler" where
  "after_pending E c ev m =
     (case process_all_pending_blocks E c (vm_peers m) (vm_view_chain m) of
        None \<Rightarrow> None
      | Some (Inl e, s) \<Rightarrow> Some (Inl e, m\<lparr>vm_view_chain := s\<rparr>)
      | Some (Inr _, s) \<Rightarrow> Some (Inr ev, m\<lparr>vm_view_chain := s\<rparr>))"

subsection \<open>Handlers\<close>

text \<open>A message for a future view: where the message names a leader (\<open>Some\<close>), it has to be the
  leader of that view.\<close>

definition future_view :: "view_no \<Rightarrow> (peer_id \<times> error) option \<Rightarrow> handler" where
  "future_view v claimed m =
     (case compute_leader_for_view v m of
        Inl e \<Rightarrow> Some (Inl e, m)
      | Inr leader_id \<Rightarrow>
          (case claimed of
             Some (l, e) \<Rightarrow>
               if leader_id \<noteq> l then Some (Inl e, m) else return (ShouldUpdateView v leader_id) m
           | None \<Rightarrow> return (ShouldUpdateView v leader_id) m))"

definition handle_block_proposal :: "env \<Rightarrow> cfg \<Rightarrow> block \<Rightarrow> handler" where
  "handle_block_proposal E c b m =
     (let v = b_view b; s = vm_view_chain m in
      if v > ch_current_view s then future_view v (Some (b_leader b, WrongBlockLeader)) m
      else case validate_block E (reader_get_account E (ch_writer s)) b of
        Inl errors \<Rightarrow> return (ShouldNullify v) m
      | Inr d \<Rightarrow>
          (case on_chain (add_block_proposal E c (vm_peers m) v b d) m of
             (Inl e, m1) \<Rightarrow> Some (Inl e, m1)
           | (Inr r, m1) \<Rightarrow>
               let h = lp_block_hash r in
               if lp_should_await r then return Await m1
               else if lp_should_nullify r then return (ShouldNullify v) m1
               else if lp_is_enough_to_finalize r \<and> lp_should_vote r
               then return (ShouldVoteAndFinalize v h) m1
               else if lp_is_enough_to_m_notarize r \<and> lp_should_vote r
               then after_pending E c (ShouldVoteAndMNotarize v h True) m1
               else if lp_is_enough_to_finalize r then return (ShouldFinalize v h) m1
               else if lp_is_enough_to_m_notarize r then return (ShouldMNotarize v h True) m1
               else if lp_should_vote r then return (ShouldVote v h) m1
               else return NoOp m1))"

definition process_validated_block :: "env \<Rightarrow> cfg \<Rightarrow> block \<Rightarrow> state_diff \<Rightarrow> handler" where
  "process_validated_block E c b d m =
     handle_block_proposal E c b (m\<lparr>vm_view_chain := store_state_diff (b_view b) d (vm_view_chain m)\<rparr>)"

definition handle_vote :: "env \<Rightarrow> cfg \<Rightarrow> vote \<Rightarrow> handler" where
  "handle_vote E c vt m =
     (let v = v_view vt; h = v_block_hash vt; current_view = ch_current_view (vm_view_chain m) in
      if v > current_view then future_view v None m
      else case on_chain (route_vote E c (vm_peers m) vt) m of
        (Inl e, m1) \<Rightarrow> Some (Inl e, m1)
      | (Inr r, m1) \<Rightarrow>
          if cv_should_await r then return Await m1
          else if cv_should_nullify r
          then return (if v < current_view then ShouldNullifyRange v else ShouldNullify v) m1
          else if cv_is_enough_to_m_notarize r \<and> cv_should_vote r
          then after_pending E c (ShouldVoteAndMNotarize v h True) m1
          else if cv_is_enough_to_finalize r \<and> cv_should_vote r
          then return (if v = ch_current_view (vm_view_chain m1) then ShouldVote v h
                       else ShouldVoteAndFinalize v h) m1
          else if cv_is_enough_to_m_notarize r
          then after_pending E c (ShouldMNotarize v h True) m1
          else if cv_is_enough_to_finalize r
          then return (if v = ch_current_view (vm_view_chain m1) then NoOp else ShouldFinalize v h) m1
          else if cv_should_vote r then return (ShouldVote v h) m1
          else return NoOp m1)"

text \<open>\<open>was_m_notarized\<close> of the two nullification handlers.\<close>

definition m_notarized :: "view_no \<Rightarrow> view_manager \<Rightarrow> bool" where
  "m_notarized v m \<longleftrightarrow> (case find_view_context v (vm_view_chain m) of
      None \<Rightarrow> False | Some ctx \<Rightarrow> vc_m_notarization ctx \<noteq> None)"

definition handle_nullify :: "env \<Rightarrow> cfg \<Rightarrow> nullify \<Rightarrow> handler" where
  "handle_nullify E c n m =
     (let v = nf_view n; current_view = ch_current_view (vm_view_chain m) in
      if v > current_view then future_view v (Some (nf_leader_id n, NullifyWrongLeader)) m
      else case on_chain (route_nullify E c (vm_peers m) n) m of
        (Inl e, m1) \<Rightarrow> Some (Inl e, m1)
      | (Inr has_nullification, m1) \<Rightarrow>
          if has_nullification
          then return (if v < current_view \<and> m_notarized v m1 then ShouldCascadeNullification v True
                       else ShouldBroadcastNullification v) m1
          else return NoOp m1)"

definition handle_m_notarization :: "env \<Rightarrow> cfg \<Rightarrow> instant \<Rightarrow> m_notarization \<Rightarrow> handler" where
  "handle_m_notarization E c now mn m =
     (let v = mn_view mn; h = mn_block_hash mn; current_view = ch_current_view (vm_view_chain m) in
      if v > current_view then future_view v (Some (mn_leader_id mn, MNotWrongLeader)) m
      else case on_chain (route_m_notarization E c (vm_peers m) mn) m of
        (Inl e, m1) \<Rightarrow> Some (Inl e, m1)
      | (Inr r, m1) \<Rightarrow>
          if sm_should_await r then return Await m1
          else if sm_should_nullify r then return (ShouldNullifyView v) m1
          else if v = current_view then
            (case compute_leader_for_view (v + 1) m1 of
               Inl e \<Rightarrow> Some (Inl e, m1)
             | Inr l \<Rightarrow>
                 (case on_chain (progress_with_m_notarization
                          (view_context_new now (v + 1) l (vm_replica_id m1) h)) m1 of
                    (Inl e, m2) \<Rightarrow> Some (Inl e, m2)
                  | (Inr _, m2) \<Rightarrow>
                      (case finalize_view E c v m2 of
                         None \<Rightarrow> None
                       | Some (fin, m3) \<Rightarrow>
                           if is_panic fin then Some (Inl (projl fin), m3)
                           else return (if sm_should_vote r
                             then ShouldVoteAndProgressToNextView v h (v + 1) l (sm_should_forward r)
                             else ProgressToNextView (v + 1) l h (sm_should_forward r)) m3)))
          else if sm_should_notarize r \<and> sm_should_vote r
          then after_pending E c (ShouldVoteAndMNotarize v h (sm_should_forward r)) m1
          else if sm_should_notarize r
          then after_pending E c (ShouldMNotarize v h (sm_should_forward r)) m1
          else if sm_should_vote r then return (ShouldVote v h) m1
          else return NoOp m1)"

definition handle_nullification :: "env \<Rightarrow> instant \<Rightarrow> nullification \<Rightarrow> handler" where
  "handle_nullification E now n m =
     (let v = nfn_view n; current_view = ch_current_view (vm_view_chain m) in
      if v > current_view then future_view v (Some (nfn_leader_id n, NullificationWrongLeader)) m
      else case on_chain (route_nullification E (vm_peers m) n) m of
        (Inl e, m1) \<Rightarrow> Some (Inl e, m1)
      | (Inr r, m1) \<Rightarrow>
          let bc = cn_should_broadcast_nullification r in
          if v < current_view \<and> bc \<and> m_notarized v m1 then return (ShouldCascadeNullification v bc) m1
          else if v = current_view then
            (case compute_leader_for_view (v + 1) m1 of
               Inl e \<Rightarrow> Some (Inl e, m1)
             | Inr l \<Rightarrow>
                 let p = select_parent (v + 1) (vm_view_chain m1)
                 in case on_chain (progress_with_nullification
                          (view_context_new now (v + 1) l (vm_replica_id m1) p)) m1 of
                      (Inl e, m2) \<Rightarrow> Some (Inl e, m2)
                    | (Inr _, m2) \<Rightarrow> return (ProgressToNextViewOnNullification (v + 1) l p bc) m2)
          else if bc then return (ShouldBroadcastNullification v) m1
          else return (ShouldNullify v) m1)"

subsection \<open>Block recovery\<close>

text \<open>The leader of the view and the \<open>F\<close> replicas after it in the schedule answer requests. The view
  comes from the message, so the sum can wrap.\<close>

definition is_responder :: "cfg \<Rightarrow> view_no \<Rightarrow> view_manager \<Rightarrow> bool" where
  "is_responder c v m \<longleftrightarrow>
     list_ex (\<lambda>offset. case compute_leader_for_view (u64_add v offset) m of
         Inl _ \<Rightarrow> False | Inr l \<Rightarrow> l = vm_replica_id m) [0..<cF c + 1]"

definition handle_block_recovery_request :: "cfg \<Rightarrow> view_no \<Rightarrow> hash \<Rightarrow> handler" where
  "handle_block_recovery_request c v h m =
     (if \<not> is_responder c v m then return NoOp m
      else case get_block_for_recovery v h (vm_view_chain m) of
        Some b \<Rightarrow> return (BroadcastConsensusMessage (BlockRecoveryResponse v b)) m
      | None \<Rightarrow> return NoOp m)"

definition clear_cooldown :: "view_no \<Rightarrow> view_manager \<Rightarrow> view_manager" where
  "clear_cooldown v m = m\<lparr>vm_cooldowns := AList.delete v (vm_cooldowns m)\<rparr>"

definition handle_block_recovery_response :: "env \<Rightarrow> cfg \<Rightarrow> view_no \<Rightarrow> block \<Rightarrow> handler" where
  "handle_block_recovery_response E c v b m =
     (case on_chain (add_recovered_block E c v b) m of
        (Inl e, m1) \<Rightarrow> return NoOp (clear_cooldown v m1)
      | (Inr has_l_notarization, m1) \<Rightarrow>
          let m2 = clear_cooldown v m1 in
          if has_l_notarization then
            (case Option.bind (find_view_context v (vm_view_chain m2)) vc_block_hash of
               None \<Rightarrow> Some (Inl NoBlockHash, m2)
             | Some h \<Rightarrow> return (ShouldFinalize v h) m2)
          else (case oldest_finalizable_view c (vm_view_chain m2) of
               None \<Rightarrow> return NoOp m2
             | Some (Inl e) \<Rightarrow> Some (Inl e, m2)
             | Some (Inr (u, h)) \<Rightarrow> return (ShouldFinalize u h) m2))"

definition process_consensus_msg :: "env \<Rightarrow> cfg \<Rightarrow> instant \<Rightarrow> consensus_message \<Rightarrow> handler" where
  "process_consensus_msg E c now msg =
     (case msg of
        BlockProposal b \<Rightarrow> handle_block_proposal E c b
      | VoteMsg v \<Rightarrow> handle_vote E c v
      | NullifyMsg n \<Rightarrow> handle_nullify E c n
      | MNotarizationMsg mn \<Rightarrow> handle_m_notarization E c now mn
      | NullificationMsg n \<Rightarrow> handle_nullification E now n
      | BlockRecoveryRequest v h \<Rightarrow> handle_block_recovery_request c v h
      | BlockRecoveryResponse v b \<Rightarrow> handle_block_recovery_response E c v b)"

subsection \<open>The periodic tick\<close>

text \<open>Entries whose view still misses its block are kept.\<close>

definition still_missing :: "view_chain \<Rightarrow> view_no \<times> hash \<Rightarrow> bool" where
  "still_missing s e \<longleftrightarrow> (case find_view_context (fst e) s of
      None \<Rightarrow> False | Some ctx \<Rightarrow> vc_block ctx = None)"

definition range_contexts :: "view_chain \<Rightarrow> (view_no \<times> view_context) list" where
  "range_contexts s = (case non_finalized_view_numbers_range s of (lo, hi) \<Rightarrow>
     List.map_filter (\<lambda>v. map_option (Pair v) (find_view_context v s)) [lo..<hi + 1])"

definition timed_out :: "instant \<Rightarrow> nat \<Rightarrow> view_context \<Rightarrow> view_no \<times> view_context \<Rightarrow> bool" where
  "timed_out now timeout ctx0 e \<longleftrightarrow> vc_view_number ctx0 \<noteq> vc_view_number (snd e)
     \<and> should_timeout_nullify now timeout (snd e)"

definition can_propose :: "view_context \<Rightarrow> view_chain \<Rightarrow> bool" where
  "can_propose ctx0 s \<longleftrightarrow> (case find_parent_view (vc_parent_block_hash ctx0) s of
      Some pv \<Rightarrow> (case find_view_context pv s of None \<Rightarrow> False
          | Some ctx \<Rightarrow> vc_m_notarization ctx \<noteq> None)
        \<and> intermediates_nullified pv (vc_view_number ctx0) s
    | None \<Rightarrow> vc_parent_block_hash ctx0 = ch_committed_hash s)"

definition conflicting_count :: "hash \<Rightarrow> view_context \<Rightarrow> nat" where
  "conflicting_count h ctx0 = length (vc_nullify_messages ctx0)
     + length (filter (\<lambda>v. v_block_hash v \<noteq> h) (vc_votes ctx0))"

definition MAX_BATCH_RECOVERY :: nat where
  "MAX_BATCH_RECOVERY = 5"

definition cooled_down :: "instant \<Rightarrow> (view_no \<times> instant) list \<Rightarrow> view_no \<Rightarrow> bool" where
  "cooled_down now cooldowns v \<longleftrightarrow> (case map_of cooldowns v of
      None \<Rightarrow> True | Some t \<Rightarrow> now - t \<ge> 500)"

text \<open>One iteration of the loops that collect recovery requests, with the requests and the
  cooldowns so far.\<close>

definition request_block ::
    "instant \<Rightarrow> view_no \<times> hash \<Rightarrow> (view_no \<times> hash) list \<times> (view_no \<times> instant) list
      \<Rightarrow> (view_no \<times> hash) list \<times> (view_no \<times> instant) list" where
  "request_block now e acc = (case acc of (requests, cooldowns) \<Rightarrow>
     if length requests \<ge> MAX_BATCH_RECOVERY then acc
     else if cooled_down now cooldowns (fst e)
     then (requests @ [e], AList.update (fst e) now cooldowns) else acc)"

definition request_canonical ::
    "instant \<Rightarrow> view_no \<times> hash \<Rightarrow> (view_no \<times> hash) list \<times> (view_no \<times> instant) list
      \<Rightarrow> (view_no \<times> hash) list \<times> (view_no \<times> instant) list" where
  "request_canonical now e acc =
     (if fst e \<in> fst ` set (fst acc) then acc else request_block now e acc)"

definition recovery_candidate :: "view_no \<Rightarrow> view_no \<times> view_context \<Rightarrow> (view_no \<times> hash) option" where
  "recovery_candidate current_view e = (case e of (v, ctx) \<Rightarrow>
     if v < current_view \<and> vc_m_notarization ctx \<noteq> None \<and> vc_block ctx = None
        \<and> vc_pending_block ctx = None \<and> \<not> vc_has_nullified ctx \<and> vc_nullification ctx = None
     then map_option (Pair v) (vc_block_hash ctx) else None)"

definition recovery_requests ::
    "instant \<Rightarrow> view_context \<Rightarrow> view_manager \<Rightarrow> (view_no \<times> hash) list \<times> (view_no \<times> instant) list" where
  "recovery_requests now ctx0 m =
     fold (request_canonical now) (vm_recovery_pending m)
       (fold (request_block now)
          (List.map_filter (recovery_candidate (vc_view_number ctx0)) (range_contexts (vm_view_chain m)))
          ([], vm_cooldowns m))"

text \<open>The part of the tick before block recovery: the first thing that is due, if any.\<close>

definition tick_view :: "env \<Rightarrow> cfg \<Rightarrow> instant \<Rightarrow> view_context \<Rightarrow> view_manager \<Rightarrow> view_progress_event option" where
  "tick_view E c now ctx0 m =
     (let s = vm_view_chain m; v = vc_view_number ctx0;
          idle = (\<not> vc_has_voted ctx0 \<and> \<not> vc_has_nullified ctx0)
      in case List.find (timed_out now (vm_view_timeout m) ctx0) (range_contexts s) of
        Some (_, ctx) \<Rightarrow> Some (ShouldNullify (vc_view_number ctx))
      | None \<Rightarrow>
          if is_leader ctx0 \<and> \<not> vc_has_proposed ctx0 \<and> can_propose ctx0 s
          then Some (ShouldProposeBlock v (vc_parent_block_hash ctx0))
          else if idle \<and> vc_block ctx0 \<noteq> None
          then map_option (\<lambda>b. ShouldVote v (get_hash E b)) (vc_block ctx0)
          else if idle \<and> vc_nullification ctx0 = None \<and> vc_m_notarization ctx0 \<noteq> None
          then map_option (\<lambda>mn. ShouldVote v (mn_block_hash mn)) (vc_m_notarization ctx0)
          else if idle \<and> now - vc_entered_at ctx0 \<ge> vm_view_timeout m then Some (ShouldNullify v)
          else case vc_block_hash ctx0 of
            None \<Rightarrow> None
          | Some h \<Rightarrow>
              if vc_has_voted ctx0 \<and> \<not> vc_has_nullified ctx0 \<and> conflicting_count h ctx0 > 2 * cF c
              then Some (ShouldNullify v)
              else if length (vc_votes ctx0) \<ge> cN c - cF c then Some (ShouldFinalize v h)
              else None)"

definition tick :: "env \<Rightarrow> cfg \<Rightarrow> instant \<Rightarrow> view_manager \<Rightarrow> view_progress_event result \<times> view_manager" where
  "tick E c now m =
     (let m1 = m\<lparr>vm_recovery_pending := filter (still_missing (vm_view_chain m)) (vm_recovery_pending m)\<rparr>
      in case current (vm_view_chain m1) of
        Inl e \<Rightarrow> (Inl e, m1)
      | Inr ctx0 \<Rightarrow>
          (case tick_view E c now ctx0 m1 of
             Some ev \<Rightarrow> (Inr ev, m1)
           | None \<Rightarrow>
               (case recovery_requests now ctx0 m1 of (requests, cooldowns) \<Rightarrow>
                  let m2 = m1\<lparr>vm_cooldowns := cooldowns\<rparr> in
                  (Inr (case requests of
                      [] \<Rightarrow> if \<not> vc_has_voted ctx0 \<and> \<not> vc_has_nullified ctx0 \<and> vc_block ctx0 = None
                             then Await else NoOp
                    | [(v, h)] \<Rightarrow> ShouldRequestBlock v h
                    | _ \<Rightarrow> ShouldRequestBlocks requests), m2))))"

subsection \<open>What a handler does to the chain\<close>

text \<open>The chain operations that messages and ticks trigger. Unlike the steps of the chain alone
  they only finalize views below the current one, and they contain none of the replica's own votes.\<close>

inductive msg_step ::
    "env \<Rightarrow> cfg \<Rightarrow> peer_set \<Rightarrow> peer_id \<Rightarrow> round_robin_leader_manager \<Rightarrow> view_chain \<Rightarrow> view_chain \<Rightarrow> bool"
  for E c P me lm where
  vote: "msg_step E c P me lm s (snd (route_vote E c P vt s))"
| nullify: "msg_step E c P me lm s (snd (route_nullify E c P nf s))"
| m_notarization: "msg_step E c P me lm s (snd (route_m_notarization E c P m s))"
| nullification: "msg_step E c P me lm s (snd (route_nullification E P nn s))"
| proposal: "msg_step E c P me lm s (snd (add_block_proposal E c P v b d s))"
| pending: "msg_step E c P me lm s (snd (process_pending_child_proposals E c P v s))"
| recovered: "msg_step E c P me lm s (snd (add_recovered_block E c v b s))"
| state_diff: "msg_step E c P me lm s (store_state_diff v d s)"
| remove_diff: "msg_step E c P me lm s (remove_pending_diff v s)"
| rollback: "msg_step E c P me lm s (rollback_pending_diffs_in_range v u s)"
| recovery: "msg_step E c P me lm s (s\<lparr>ch_recovery := rs\<rparr>)"
| progress_m: "leader_for_view lm v = Inr l \<Longrightarrow> msg_step E c P me lm s
    (snd (progress_with_m_notarization (view_context_new now v (l_peer_id l) me parent) s))"
| progress_n: "leader_for_view lm v = Inr l \<Longrightarrow> msg_step E c P me lm s
    (snd (progress_with_nullification (view_context_new now v (l_peer_id l) me parent) s))"
| progress_c: "leader_for_view lm v = Inr l \<Longrightarrow> msg_step E c P me lm s
    (snd (progress_after_cascade (view_context_new now v (l_peer_id l) me parent) s))"
| finalize: "v < ch_current_view s \<Longrightarrow> finalize_with_l_notarization E c P v s = Some (r, s') \<Longrightarrow>
    msg_step E c P me lm s s'"

text \<open>Two managers that differ by such steps, and in nothing but the chain and the bookkeeping of
  block recovery.\<close>

definition same_replica :: "view_manager \<Rightarrow> view_manager \<Rightarrow> bool" where
  "same_replica m m' \<longleftrightarrow> vm_peers m' = vm_peers m \<and> vm_leader_manager m' = vm_leader_manager m
     \<and> vm_replica_id m' = vm_replica_id m \<and> vm_view_timeout m' = vm_view_timeout m"

definition moves :: "env \<Rightarrow> cfg \<Rightarrow> view_manager \<Rightarrow> view_manager \<Rightarrow> bool" where
  "moves E c m m' \<longleftrightarrow> same_replica m m'
     \<and> (msg_step E c (vm_peers m) (vm_replica_id m) (vm_leader_manager m))\<^sup>*\<^sup>* (vm_view_chain m) (vm_view_chain m')"

lemma moves_refl [simp]: "moves E c m m"
  by (simp add: moves_def same_replica_def)

lemma moves_trans: "moves E c m m' \<Longrightarrow> moves E c m' m'' \<Longrightarrow> moves E c m m''"
  by (auto simp: moves_def same_replica_def)

lemma moves_frame [simp]:
  "moves E c m (m'\<lparr>vm_cooldowns := cd\<rparr>) = moves E c m m'"
  "moves E c m (m'\<lparr>vm_recovery_pending := rp\<rparr>) = moves E c m m'"
  by (simp_all add: moves_def same_replica_def)

lemma moves_clear_cooldown [simp]: "moves E c m (clear_cooldown v m') = moves E c m m'"
  by (simp add: clear_cooldown_def)

lemma moves_chain:
  "(msg_step E c (vm_peers m) (vm_replica_id m) (vm_leader_manager m))\<^sup>*\<^sup>* (vm_view_chain m) s \<Longrightarrow> moves E c m (m\<lparr>vm_view_chain := s\<rparr>)"
  by (simp add: moves_def same_replica_def)

lemma moves_on_chain:
  assumes "on_chain f m = (r, m')"
    and "\<And>s. msg_step E c (vm_peers m) (vm_replica_id m) (vm_leader_manager m) s (snd (f s))"
  shows "moves E c m m'"
  using assms(1) assms(2) [of "vm_view_chain m"] moves_chain [of E c m "snd (f (vm_view_chain m))"]
  by (auto simp: on_chain_def split: prod.splits)

lemma process_all_pending_preserve:
  assumes "process_all_pending_blocks E c P s = Some (r, s')"
    and "\<And>v t. Q t \<Longrightarrow> Q (snd (process_pending_child_proposals E c P v t))" and "Q s"
  shows "Q s'"
proof -
  have kids: "Q t \<Longrightarrow> Q (snd (process_children E c P vs t))" for vs t
  proof (induction vs arbitrary: t)
    case (Cons v vs)
    from assms(2) [OF Cons(2), of v] Cons(1) show ?case
      by (auto split: prod.splits sum.splits) (metis snd_conv)+
  qed simp
  have "E' = E \<longrightarrow> c' = c \<longrightarrow> P' = P \<longrightarrow> Q t \<longrightarrow> Q (snd q)"
    if "process_all_pending_blocks E' c' P' t = Some q" for E' c' P' t q
    using that
  proof (induction rule: process_all_pending_blocks.raw_induct [rotated 1, consumes 1, case_names loop])
    case (loop rec E' c' P' t q)
    show ?case
    proof (intro impI)
      assume eqs: "E' = E" "c' = c" "P' = P" and t: "Q t"
      obtain r1 s1 where p: "process_children E c P (views_with_m_not t) t = (r1, s1)"
        by (cases "process_children E c P (views_with_m_not t) t")
      have s1: "Q s1" using kids [OF t, of "views_with_m_not t"] p by simp
      from loop(2) p have "snd q = s1 \<or> rec E c P s1 = Some q"
        by (auto simp: eqs split: sum.splits if_splits)
      with loop(1) [of E c P s1 q] s1 show "Q (snd q)" by auto
    qed
  qed
  with assms(1,3) show ?thesis by fastforce
qed

lemma process_all_pending_steps:
  assumes "process_all_pending_blocks E c P s = Some (r, s')"
  shows "(msg_step E c P me lm)\<^sup>*\<^sup>* s s'"
  by (rule process_all_pending_preserve [OF assms])
    (auto intro: rtranclp.rtrancl_into_rtrancl msg_step.pending)

lemma after_pending_moves: "after_pending E c ev m = Some (r, m') \<Longrightarrow> moves E c m m'"
  by (auto simp: after_pending_def split: option.splits sum.splits
      intro!: moves_chain dest: process_all_pending_steps)

lemma finalize_view_moves:
  assumes "finalize_view E c v m = Some (r, m')" and "v < ch_current_view (vm_view_chain m)"
  shows "moves E c m m'"
proof -
  from assms(1) obtain r1 s1 where f: "finalize_with_l_notarization E c (vm_peers m) v (vm_view_chain m) = Some (r1, s1)"
    by (auto simp: finalize_view_def split: option.splits)
  have s1: "(msg_step E c (vm_peers m) (vm_replica_id m) (vm_leader_manager m))\<^sup>*\<^sup>* (vm_view_chain m) s1"
    by (rule r_into_rtranclp) (rule msg_step.finalize [OF assms(2) f])
  then have "(msg_step E c (vm_peers m) (vm_replica_id m) (vm_leader_manager m))\<^sup>*\<^sup>* (vm_view_chain m) (s1\<lparr>ch_recovery := []\<rparr>)"
    by (rule rtranclp.rtrancl_into_rtrancl) (rule msg_step.recovery)
  with s1 show ?thesis
    using assms(1) f
    by (auto simp: finalize_view_def drain_recovery_def Let_def moves_def same_replica_def split: sum.splits)
qed

lemma future_view_same: "future_view v claimed m = Some (r, m') \<Longrightarrow> m' = m"
  by (auto simp: future_view_def return_def split: sum.splits option.splits if_splits)

lemma compute_leader_Inr:
  "compute_leader_for_view v m = Inr p \<longleftrightarrow>
     (\<exists>l. leader_for_view (vm_leader_manager m) v = Inr l \<and> l_peer_id l = p)"
  by (cases "leader_for_view (vm_leader_manager m) v") (auto simp: compute_leader_for_view_def)

lemmas handler_simps = return_def Let_def
lemmas handler_splits = sum.splits option.splits prod.splits if_splits

lemma handle_block_proposal_moves:
  assumes "handle_block_proposal E c b m = Some (r, m')"
  shows "moves E c m m'"
proof -
  have *: "moves E c m m1" if "on_chain (add_block_proposal E c (vm_peers m) v b d) m = (r1, m1)" for v d r1 m1
    using that by (rule moves_on_chain) (rule msg_step.proposal)
  show ?thesis
    using assms
    by (auto simp: handle_block_proposal_def handler_simps split: handler_splits
        dest!: future_view_same after_pending_moves * intro: moves_trans)
qed

lemma handle_vote_moves:
  assumes "handle_vote E c vt m = Some (r, m')"
  shows "moves E c m m'"
proof -
  have *: "moves E c m m1" if "on_chain (route_vote E c (vm_peers m) vt) m = (r1, m1)" for r1 m1
    using that by (rule moves_on_chain) (rule msg_step.vote)
  show ?thesis
    using assms
    by (auto simp: handle_vote_def handler_simps split: handler_splits
        dest!: future_view_same after_pending_moves * intro: moves_trans)
qed

lemma handle_nullify_moves:
  assumes "handle_nullify E c n m = Some (r, m')"
  shows "moves E c m m'"
proof -
  have *: "moves E c m m1" if "on_chain (route_nullify E c (vm_peers m) n) m = (r1, m1)" for r1 m1
    using that by (rule moves_on_chain) (rule msg_step.nullify)
  show ?thesis
    using assms
    by (auto simp: handle_nullify_def handler_simps split: handler_splits dest!: future_view_same *)
qed

lemma handle_nullification_moves:
  assumes "handle_nullification E now n m = Some (r, m')"
  shows "moves E c m m'"
proof -
  have 1: "moves E c m m1" if "on_chain (route_nullification E (vm_peers m) n) m = (r1, m1)" for r1 m1
    using that by (rule moves_on_chain) (rule msg_step.nullification)
  have 2: "moves E c m1 m2"
    if "on_chain (progress_with_nullification (view_context_new now v l (vm_replica_id m1) p)) m1 = (r1, m2)"
      "compute_leader_for_view v m1 = Inr l" for v l p r1 m1 m2
    using that(1) by (rule moves_on_chain)
      (use that(2) in \<open>auto simp: compute_leader_Inr intro: msg_step.progress_n\<close>)
  show ?thesis
    using assms 
    by (auto simp: handle_nullification_def handler_simps split: handler_splits dest!: future_view_same 1 2
      intro: moves_trans)
qed

lemma handle_m_notarization_moves:
  assumes "handle_m_notarization E c now mn m = Some (r, m')"
  shows "moves E c m m'"
proof -
  have 1: "moves E c m m1 \<and> ch_current_view (vm_view_chain m1) = ch_current_view (vm_view_chain m)"
    if "on_chain (route_m_notarization E c (vm_peers m) mn) m = (r1, m1)" for r1 m1
    using moves_on_chain [OF that msg_step.m_notarization] that
    by (auto simp: on_chain_def route_m_notarization_def set_ctx_def split: prod.splits option.splits sum.splits if_splits)
  have 2: "moves E c m1 m2 \<and> (\<forall>x. r1 = Inr x \<longrightarrow> ch_current_view (vm_view_chain m2) = v)"
    if "on_chain (progress_with_m_notarization (view_context_new now v l (vm_replica_id m1) p)) m1 = (r1, m2)"
      "compute_leader_for_view v m1 = Inr l" for v l p r1 m1 m2
    using moves_on_chain [OF that(1), of E c] that
    by (auto simp: compute_leader_Inr intro: msg_step.progress_m)
      (auto simp: on_chain_def progress_with_m_notarization_def enter_view_def view_context_new_def
        split: prod.splits sum.splits if_splits)
  have 3: "moves E c m2 m3"
    if "finalize_view E c v m2 = Some (r1, m3)" "ch_current_view (vm_view_chain m2) = Suc v" for v r1 m2 m3
    using finalize_view_moves [OF that(1)] that(2) by simp
  show ?thesis
    using assms
    by (auto simp: handle_m_notarization_def handler_simps split: handler_splits
        dest!: future_view_same 1 2 after_pending_moves intro: moves_trans dest: 3)
qed

lemma handle_recovery_moves:
  "handle_block_recovery_request c v h m = Some (r, m') \<Longrightarrow> m' = m"
  "handle_block_recovery_response E c v b m = Some (r, m') \<Longrightarrow> moves E c m m'"
proof -
  show "moves E c m m'" if h: "handle_block_recovery_response E c v b m = Some (r, m')"
  proof -
    have 1: "moves E c m m1" if "on_chain (add_recovered_block E c v b) m = (r1, m1)" for r1 m1
      using that by (rule moves_on_chain) (rule msg_step.recovered)
    show ?thesis using h
      by (auto simp: handle_block_recovery_response_def handler_simps split: handler_splits dest!: 1)
  qed
qed (auto simp: handle_block_recovery_request_def handler_simps split: handler_splits)

lemma process_consensus_msg_moves:
  "process_consensus_msg E c now msg m = Some (r, m') \<Longrightarrow> moves E c m m'"
  by (cases msg) (auto simp: process_consensus_msg_def dest: handle_block_proposal_moves
      handle_vote_moves handle_nullify_moves handle_m_notarization_moves handle_nullification_moves
      handle_recovery_moves)

lemma tick_moves: "tick E c now m = (r, m') \<Longrightarrow> moves E c m m'"
  by (auto simp: tick_def Let_def split: sum.splits option.splits prod.splits)

subsection \<open>Messages never make the replica vote by themselves\<close>

definition own_flags :: "view_context \<Rightarrow> bool \<times> peer_id \<times> peer_id" where
  "own_flags ctx = (vc_has_voted ctx, vc_replica_id ctx, vc_leader_id ctx)"

definition same_flags :: "view_context \<Rightarrow> view_context \<Rightarrow> bool" where
  "same_flags ctx ctx' \<longleftrightarrow> own_flags ctx' = own_flags ctx \<and> (vc_has_nullified ctx \<longrightarrow> vc_has_nullified ctx')"

lemma same_flags_refl [simp]: "same_flags ctx ctx"
  by (simp add: same_flags_def)

lemma same_flags_trans: "same_flags a b \<Longrightarrow> same_flags b c \<Longrightarrow> same_flags a c"
  by (simp add: same_flags_def)

lemma same_flags_update [simp]:
  "same_flags a (ctx\<lparr>vc_block := b\<rparr>) = same_flags a ctx"
  "same_flags a (ctx\<lparr>vc_state_diff := d\<rparr>) = same_flags a ctx"
  "same_flags a (ctx\<lparr>vc_pending_block := p\<rparr>) = same_flags a ctx"
  by (simp_all add: same_flags_def own_flags_def)

lemma same_flags_ops [simp]:
  "same_flags s (snd (add_new_view_block E c b d P s))"
  "same_flags s (snd (add_vote E c v P s))"
  "same_flags s (snd (add_nullify E c n P s))"
  "same_flags s (snd (add_m_notarization E c m P s))"
  "same_flags s (snd (add_nullification E nn P s))"
proof -
  show "same_flags s (snd (add_new_view_block E c b d P s))"
    by (cases "block_admissible E P b s") (simp_all add: add_new_view_block_admissible
      add_new_view_block_inadmissible same_flags_def own_flags_def Let_def)
  show "same_flags s (snd (add_vote E c v P s))"
    by (auto simp: add_vote_def same_flags_def own_flags_def Let_def split: sum.splits option.splits prod.splits)
  show "same_flags s (snd (add_nullify E c n P s))"
    by (auto simp: add_nullify_def same_flags_def own_flags_def Let_def split: sum.splits option.splits prod.splits)
  show "same_flags s (snd (add_m_notarization E c m P s))"
    by (auto simp: add_m_notarization_def same_flags_def own_flags_def Let_def
        split: sum.splits option.splits bool.splits)
  show "same_flags s (snd (add_nullification E nn P s))"
    by (auto simp: add_nullification_def same_flags_def own_flags_def Let_def finalize_flag_def
        split: sum.splits option.splits bool.splits)
qed

text \<open>What a replica has voted for is not affected: a view that was there keeps its flags (it may
  become nullified, but does not cease to be), and a view that appears lies above the current one, has no vote of the replica and has the scheduled
  leader.\<close>

definition fresh :: "peer_id \<Rightarrow> round_robin_leader_manager \<Rightarrow> view_no \<Rightarrow> view_context \<Rightarrow> bool" where
  "fresh me lm v ctx \<longleftrightarrow> \<not> vc_has_voted ctx \<and> vc_replica_id ctx = me
     \<and> map_sum id l_peer_id (leader_for_view lm v) = Inr (vc_leader_id ctx)"

definition flag_kept ::
    "peer_id \<Rightarrow> round_robin_leader_manager \<Rightarrow> view_chain \<Rightarrow> view_no \<Rightarrow> view_context \<Rightarrow> bool" where
  "flag_kept me lm s v ctx' \<longleftrightarrow>
     (if v \<le> ch_current_view s
      then pred_option (\<lambda>ctx. same_flags ctx ctx') (map_of (ch_views s) v)
        \<and> map_of (ch_views s) v \<noteq> None
      else fresh me lm v ctx')"

definition quiet ::
    "peer_id \<Rightarrow> round_robin_leader_manager \<Rightarrow> view_chain \<Rightarrow> view_chain \<Rightarrow> bool" where
  "quiet me lm s t \<longleftrightarrow> ch_current_view s \<le> ch_current_view t
     \<and> (\<forall>v. pred_option (flag_kept me lm s v) (map_of (ch_views t) v))"

lemma quietI:
  assumes "ch_current_view s \<le> ch_current_view t"
    and "\<And>v ctx. map_of (ch_views t) v = Some ctx \<Longrightarrow> flag_kept me lm s v ctx"
  shows "quiet me lm s t"
  using assms by (auto simp: quiet_def option.pred_set)

lemma quietD: "quiet me lm s t \<Longrightarrow> map_of (ch_views t) v = Some ctx \<Longrightarrow> flag_kept me lm s v ctx"
  by (metis quiet_def option.pred_inject(2))

lemma quiet_trans:
  assumes "quiet me lm s t" and "quiet me lm t u"
  shows "quiet me lm s u"
proof (rule quietI)
  fix v ctx assume u: "map_of (ch_views u) v = Some ctx"
  have k: "flag_kept me lm t v ctx" by (rule quietD [OF assms(2) u])
  show "flag_kept me lm s v ctx"
  proof (cases "v \<le> ch_current_view t")
    case True
    with k obtain ctx' where "map_of (ch_views t) v = Some ctx'" "same_flags ctx' ctx"
      by (auto simp: flag_kept_def)
    then show ?thesis
      using quietD [OF assms(1), of v ctx']
      by (auto simp: flag_kept_def fresh_def same_flags_def own_flags_def)
  next
    case False
    with k assms(1) show ?thesis by (auto simp: flag_kept_def quiet_def)
  qed
qed (use assms in \<open>simp add: quiet_def\<close>)

text \<open>A step that keeps the current view and whose contexts come, with their flag, from before.\<close>

lemma quiet_same_view:
  assumes "ch_inv E P s" and "ch_current_view t = ch_current_view s"
    and "\<And>v ctx. map_of (ch_views t) v = Some ctx \<Longrightarrow>
      \<exists>ctx0. map_of (ch_views s) v = Some ctx0 \<and> same_flags ctx0 ctx"
  shows "quiet me lm s t"
proof (rule quietI)
  fix v ctx assume "map_of (ch_views t) v = Some ctx"
  from assms(3) [OF this] obtain ctx0 where
    "map_of (ch_views s) v = Some ctx0" "same_flags ctx0 ctx" by blast
  moreover from ch_invD [OF assms(1) this(1)] have "v \<le> ch_current_view s" by (simp add: ctx_ok_def)
  ultimately show "flag_kept me lm s v ctx" by (simp add: flag_kept_def)
qed (simp add: assms(2))

lemma quiet_set_ctx:
  assumes "ch_inv E P s" and "map_of (ch_views s) v = Some ctx" and "same_flags ctx ctx'"
    and "ch_views t = AList.update v ctx' (ch_views s)" and "ch_current_view t = ch_current_view s"
  shows "quiet me lm s t"
  by (rule quiet_same_view [OF assms(1)]) (use assms in \<open>auto simp: update_conv' split: if_splits\<close>)

lemma quiet_refl: "ch_inv E P s \<Longrightarrow> ch_views t = ch_views s \<Longrightarrow> ch_current_view t = ch_current_view s \<Longrightarrow> quiet me lm s t"
  by (rule quiet_same_view) auto

lemma set_ctx_sel [simp]:
  "ch_views (set_ctx v ctx s) = AList.update v ctx (ch_views s)"
  "ch_current_view (set_ctx v ctx s) = ch_current_view s"
  by (simp_all add: set_ctx_def)

lemma route_vote_quiet:
  assumes "ch_inv E P s"
  shows "quiet me lm s (snd (route_vote E c P vt s))"
proof (cases "map_of (ch_views s) (v_view vt)")
  case (Some ctx)
  have "quiet me lm s (set_ctx (v_view vt) (snd (add_vote E c vt P ctx)) s)"
    by (rule quiet_set_ctx [OF assms Some]) simp_all
  with Some show ?thesis
    by (auto simp: route_vote_def quiet_refl [OF assms] split: sum.splits prod.splits)
qed (simp add: route_vote_def quiet_refl [OF assms])

lemma route_nullify_quiet:
  assumes "ch_inv E P s"
  shows "quiet me lm s (snd (route_nullify E c P n s))"
proof (cases "map_of (ch_views s) (nf_view n)")
  case (Some ctx)
  have "quiet me lm s (set_ctx (nf_view n) (snd (add_nullify E c n P ctx)) s)"
    by (rule quiet_set_ctx [OF assms Some]) simp_all
  with Some show ?thesis
    by (auto simp: route_nullify_def quiet_refl [OF assms] split: sum.splits prod.splits)
qed (simp add: route_nullify_def quiet_refl [OF assms])

lemma route_m_notarization_quiet:
  assumes "ch_inv E P s"
  shows "quiet me lm s (snd (route_m_notarization E c P m s))"
proof (cases "map_of (ch_views s) (mn_view m)")
  case (Some ctx)
  have "quiet me lm s (set_ctx (mn_view m) (snd (add_m_notarization E c m P ctx)) s)"
    by (rule quiet_set_ctx [OF assms Some]) simp_all
  with Some show ?thesis
    by (auto simp: route_m_notarization_def quiet_refl [OF assms] split: sum.splits prod.splits)
qed (simp add: route_m_notarization_def quiet_refl [OF assms])

lemma route_nullification_quiet:
  assumes "ch_inv E P s"
  shows "quiet me lm s (snd (route_nullification E P nn s))"
proof (cases "map_of (ch_views s) (nfn_view nn)")
  case (Some ctx)
  have "quiet me lm s (set_ctx (nfn_view nn) (snd (add_nullification E nn P ctx)) s)"
    by (rule quiet_set_ctx [OF assms Some]) simp_all
  with Some show ?thesis
    by (auto simp: route_nullification_def quiet_refl [OF assms] split: sum.splits prod.splits)
qed (simp add: route_nullification_def quiet_refl [OF assms])

lemma add_recovered_block_quiet:
  assumes "ch_inv E P s"
  shows "quiet me lm s (snd (add_recovered_block E c v b s))"
proof (cases "map_of (ch_views s) v")
  case (Some ctx)
  have "quiet me lm s (set_ctx v (ctx\<lparr>vc_block := Some b\<rparr>) s)"
    by (rule quiet_set_ctx [OF assms Some]) simp_all
  with Some show ?thesis
    by (auto simp: add_recovered_block_def quiet_refl [OF assms] split: option.splits)
qed (simp add: add_recovered_block_def quiet_refl [OF assms])

lemma store_state_diff_quiet:
  assumes "ch_inv E P s"
  shows "quiet me lm s (store_state_diff v d s)"
proof (cases "map_of (ch_views s) v")
  case (Some ctx)
  show ?thesis
    by (rule quiet_set_ctx [OF assms Some, of "ctx\<lparr>vc_state_diff := Some d\<rparr>"])
      (simp_all add: store_state_diff_def Some Let_def)
qed (simp add: store_state_diff_def quiet_refl [OF assms])

lemma add_block_proposal_quiet:
  assumes "ch_inv E P s"
  shows "quiet me lm s (snd (add_block_proposal E c P v b d s))"
proof (cases "map_of (ch_views s) v")
  case (Some ctx)
  have 1: "quiet me lm s (on_m_notarization v (set_ctx v (snd (add_new_view_block E c b d P ctx)) s))"
    by (rule quiet_set_ctx [OF assms Some]) simp_all
  have 2: "quiet me lm s (set_ctx v (ctx\<lparr>vc_pending_block := Some b, vc_state_diff := Some d\<rparr>) s)"
    by (rule quiet_set_ctx [OF assms Some]) simp_all
  from 1 2 show ?thesis
    by (auto simp: add_block_proposal_def Some quiet_refl [OF assms] split: sum.splits bool.splits prod.splits)
qed (simp add: add_block_proposal_def quiet_refl [OF assms])

lemma add_proposals_quiet:
  assumes "ch_inv E P s"
  shows "quiet me lm s (snd (add_proposals E c P ps s))"
  using assms
proof (induction E c P ps s rule: add_proposals.induct)
  case (1 E c P s)
  then show ?case by (simp add: quiet_refl [OF 1])
next
  case (2 E c P v b d ps s)
  obtain r s1 where a: "add_block_proposal E c P v b d s = (r, s1)"
    by (cases "add_block_proposal E c P v b d s")
  from add_block_proposal_quiet [OF 2(2), of me lm c v b d] add_block_proposal_inv [OF 2(2), of c v b d]
  have s1: "quiet me lm s s1" "ch_inv E P s1" by (simp_all add: a)
  show ?case
  proof (cases r)
    case (Inr x)
    from 2(1) [OF a [symmetric] Inr s1(2)] have "quiet me lm s1 (snd (add_proposals E c P ps s1))" .
    with s1(1) have "quiet me lm s (snd (add_proposals E c P ps s1))" by (rule quiet_trans)
    then show ?thesis by (auto simp: a Inr split: sum.splits prod.splits)
  qed (simp add: a s1)
qed

lemma process_pending_quiet:
  assumes "ch_inv E P s"
  shows "quiet me lm s (snd (process_pending_child_proposals E c P n s))"
proof -
  obtain ps m where t: "take_pending n (ch_views s) = (ps, m)" by (cases "take_pending n (ch_views s)")
  let ?s = "s\<lparr>ch_views := m\<rparr>"
  have m: "map_of m v = map_option (cleared n v) (map_of (ch_views s) v)" for v
    using map_of_take_pending [of n "ch_views s" v] by (simp add: t)
  have "quiet me lm s ?s" by (rule quiet_same_view [OF assms]) (auto simp: m cleared_def)
  moreover have "ch_inv E P ?s" by (rule take_pending_inv [OF assms t])
  ultimately show ?thesis
    by (auto simp: process_pending_child_proposals_def t intro: quiet_trans add_proposals_quiet)
qed

lemma enter_view_quiet:
  assumes "ch_inv E P s" and "ch_views t = ch_views s" and "ch_current_view t = ch_current_view s"
    and "vc_view_number ctx = ch_current_view s + 1" and "fresh me lm (vc_view_number ctx) ctx"
  shows "quiet me lm s (enter_view ctx t)"
proof (rule quietI)
  fix v ctx' assume v: "map_of (ch_views (enter_view ctx t)) v = Some ctx'"
  show "flag_kept me lm s v ctx'"
  proof (cases "v = ch_current_view s + 1")
    case False
    with v assms have "map_of (ch_views s) v = Some ctx'" by (simp add: enter_view_def update_conv')
    with ch_invD [OF assms(1) this] show ?thesis by (simp add: flag_kept_def ctx_ok_def)
  qed (use v assms in \<open>simp add: enter_view_def update_conv' flag_kept_def\<close>)
qed (use assms in \<open>simp add: enter_view_def\<close>)

lemma progress_quiet:
  assumes "ch_inv E P s" and "fresh me lm (vc_view_number ctx) ctx"
  shows "quiet me lm s (snd (progress_with_m_notarization ctx s))"
    and "quiet me lm s (snd (progress_with_nullification ctx s))"
    and "quiet me lm s (snd (progress_after_cascade ctx s))"
  using assms enter_view_quiet [OF assms(1), of s ctx me lm]
    enter_view_quiet [OF assms(1), of "on_m_notarization (ch_current_view s) s" ctx me lm] quiet_refl [OF assms(1), of s]
  by (auto simp: progress_with_m_notarization_def progress_with_nullification_def progress_after_cascade_def
      split: sum.splits)

lemma collect_view_subset:
  "map_of (ch_views (snd (collect_view E c P fv can v s))) u = Some ctx \<Longrightarrow> map_of (ch_views s) u = Some ctx"
  by (auto simp: collect_view_views delete_conv' split: option.splits if_splits)

lemma finalize_subset:
  assumes "finalize_with_l_notarization E c P v s = Some (r, s')"
  shows "map_of (ch_views s') u = Some ctx \<Longrightarrow> map_of (ch_views s) u = Some ctx"
    and "ch_current_view s' = ch_current_view s"
proof -
  define Q where "Q t \<longleftrightarrow> ch_current_view t = ch_current_view s
    \<and> (\<forall>u ctx. map_of (ch_views t) u = Some ctx \<longrightarrow> map_of (ch_views s) u = Some ctx)" for t :: view_chain
  have "Q s'" using assms
  proof (cases rule: finalize_cases)
    case (2 ctx b canonical missing)
    have "Q (snd (finish E c P v canonical missing s))"
      by (rule finish_preserve) (auto simp: Q_def dest: collect_view_subset)
    with 2(3) show ?thesis by (metis snd_conv)
  qed (simp add: Q_def)
  then show "map_of (ch_views s') u = Some ctx \<Longrightarrow> map_of (ch_views s) u = Some ctx"
    and "ch_current_view s' = ch_current_view s" by (simp_all add: Q_def)
qed

lemma finalize_quiet:
  assumes "ch_inv E P s" and "finalize_with_l_notarization E c P v s = Some (r, s')"
  shows "quiet me lm s s'"
  using finalize_subset [OF assms(2)] by (intro quiet_same_view [OF assms(1)]) auto

lemma msg_step_quiet: "msg_step E c P me lm s t \<Longrightarrow> ch_inv E P s \<Longrightarrow> quiet me lm s t"
  by (induction rule: msg_step.induct)
    (auto simp: remove_pending_diff_def rollback_pending_diffs_in_range_def view_context_new_def fresh_def
      intro: route_vote_quiet route_nullify_quiet route_m_notarization_quiet route_nullification_quiet
        add_block_proposal_quiet process_pending_quiet add_recovered_block_quiet store_state_diff_quiet
        progress_quiet finalize_quiet quiet_refl)

subsection \<open>The current view is always there\<close>

definition present :: "view_chain \<Rightarrow> bool" where
  "present s \<longleftrightarrow> map_of (ch_views s) (ch_current_view s) \<noteq> None"

lemma finalize_above:
  assumes "finalize_with_l_notarization E c P v s = Some (r, s')" and "v < u"
  shows "map_of (ch_views s') u = map_of (ch_views s) u"
  using assms(1)
proof (cases rule: finalize_cases)
  case (2 ctx b canonical missing)
  have "map_of (ch_views (snd (finish E c P v canonical missing s))) u = map_of (ch_views s) u"
    by (rule finish_preserve) (use assms(2) in \<open>auto simp: collect_view_views delete_conv' split: option.splits\<close>)
  with 2(3) show ?thesis by (metis snd_conv)
qed simp

text \<open>No operation but finalization takes a context away.\<close>

definition keeps_views :: "view_chain \<Rightarrow> view_chain \<Rightarrow> bool" where
  "keeps_views s t \<longleftrightarrow> ch_current_view t = ch_current_view s \<and> dom (map_of (ch_views t)) = dom (map_of (ch_views s))"

lemma keeps_views_refl: "ch_views t = ch_views s \<Longrightarrow> ch_current_view t = ch_current_view s \<Longrightarrow> keeps_views s t"
  by (simp add: keeps_views_def)

lemma keeps_views_set_ctx:
  "map_of (ch_views s) v = Some ctx \<Longrightarrow> ch_views t = AList.update v ctx' (ch_views s) \<Longrightarrow>
   ch_current_view t = ch_current_view s \<Longrightarrow> keeps_views s t"
  by (auto simp: keeps_views_def update_conv')

lemma keeps_views_trans: "keeps_views s t \<Longrightarrow> keeps_views t u \<Longrightarrow> keeps_views s u"
  by (simp add: keeps_views_def)

lemma keeps_views_present: "keeps_views s t \<Longrightarrow> present t = present s"
  by (auto simp: keeps_views_def present_def)

lemma route_keeps_views:
  "keeps_views s (snd (route_vote E c P vt s))"
  "keeps_views s (snd (route_nullify E c P n s))"
  "keeps_views s (snd (route_m_notarization E c P m s))"
  "keeps_views s (snd (route_nullification E P nn s))"
  "keeps_views s (snd (add_recovered_block E c v b s))"
  "keeps_views s (store_state_diff v d s)"
  "keeps_views s (snd (add_block_proposal E c P v b d s))"
proof -
  note k = keeps_views_refl keeps_views_set_ctx
  show "keeps_views s (snd (route_vote E c P vt s))"
    by (auto simp: route_vote_def split: option.splits sum.splits prod.splits intro: k)
  show "keeps_views s (snd (route_nullify E c P n s))"
    by (auto simp: route_nullify_def split: option.splits sum.splits prod.splits intro: k)
  show "keeps_views s (snd (route_m_notarization E c P m s))"
    by (auto simp: route_m_notarization_def split: option.splits sum.splits prod.splits intro: k)
  show "keeps_views s (snd (route_nullification E P nn s))"
    by (auto simp: route_nullification_def split: option.splits sum.splits prod.splits intro: k)
  show "keeps_views s (snd (add_recovered_block E c v b s))"
    by (auto simp: add_recovered_block_def split: option.splits intro: k)
  show "keeps_views s (store_state_diff v d s)"
    by (auto simp: store_state_diff_def Let_def split: option.splits intro: k)
  show "keeps_views s (snd (add_block_proposal E c P v b d s))"
    by (auto simp: add_block_proposal_def split: option.splits sum.splits prod.splits bool.splits intro: k)
qed

lemma add_proposals_keeps_views: "keeps_views s (snd (add_proposals E c P ps s))"
proof (induction E c P ps s rule: add_proposals.induct)
  case (2 E c P v b d ps s)
  from route_keeps_views(7) [of s E c P v b d] 2 show ?case
    by (auto split: prod.splits sum.splits intro: keeps_views_trans)
qed (simp add: keeps_views_def)

lemma process_pending_keeps_views: "keeps_views s (snd (process_pending_child_proposals E c P n s))"
proof -
  obtain ps m where t: "take_pending n (ch_views s) = (ps, m)" by (cases "take_pending n (ch_views s)")
  have "keeps_views s (s\<lparr>ch_views := m\<rparr>)"
    using arg_cong [OF take_pending_keys [of n "ch_views s"], of set]
    by (simp add: t keeps_views_def dom_map_of_conv_image_fst)
  then show ?thesis
    by (auto simp: process_pending_child_proposals_def t intro: keeps_views_trans add_proposals_keeps_views)
qed

lemma progress_present:
  "present s \<Longrightarrow> present (snd (progress_with_m_notarization ctx s))"
  "present s \<Longrightarrow> present (snd (progress_with_nullification ctx s))"
  "present s \<Longrightarrow> present (snd (progress_after_cascade ctx s))"
  by (auto simp: progress_with_m_notarization_def progress_with_nullification_def progress_after_cascade_def
      present_def enter_view_def update_conv' split: sum.splits)

lemma msg_step_inv: "msg_step E c P me lm s t \<Longrightarrow> ark_laws E r \<Longrightarrow> ch_inv E P s \<Longrightarrow> ch_inv E P t"
  by (induction rule: msg_step.induct)
    (auto simp: remove_pending_diff_def rollback_pending_diffs_in_range_def vc_inv_new
      intro: route_vote_inv route_nullify_inv route_m_notarization_inv route_nullification_inv
        add_block_proposal_inv process_pending_inv add_recovered_block_inv store_state_diff_inv
        progress_inv finalize_inv)

lemma msg_step_present: "msg_step E c P me lm s t \<Longrightarrow> present s \<Longrightarrow> present t"
proof (induction rule: msg_step.induct)
  case (finalize v s r s')
  then show ?case
    using finalize_above [OF finalize(2,1)] finalize_subset(2) [OF finalize(2)] by (simp add: present_def)
qed (simp_all add: keeps_views_present [OF route_keeps_views(1)] keeps_views_present [OF route_keeps_views(2)]
    keeps_views_present [OF route_keeps_views(3)] keeps_views_present [OF route_keeps_views(4)]
    keeps_views_present [OF route_keeps_views(5)] keeps_views_present [OF route_keeps_views(6)]
    keeps_views_present [OF route_keeps_views(7)] keeps_views_present [OF process_pending_keeps_views]
    progress_present, simp_all add: present_def remove_pending_diff_def rollback_pending_diffs_in_range_def)

lemma msg_steps:
  assumes "(msg_step E c P me lm)\<^sup>*\<^sup>* s t" and "ark_laws E r" and "ch_inv E P s"
  shows "ch_inv E P t \<and> quiet me lm s t \<and> (present s \<longrightarrow> present t)"
  using assms(1)
proof (induction rule: rtranclp_induct)
  case base
  then show ?case using assms(3) quiet_refl [OF assms(3)] by simp
next
  case (step t u)
  then show ?case
    using msg_step_inv [OF step(2) assms(2)] msg_step_quiet [OF step(2)] msg_step_present [OF step(2)]
    by (auto intro: quiet_trans)
qed

subsection \<open>Runs of a replica\<close>

definition scheduled :: "peer_id \<Rightarrow> round_robin_leader_manager \<Rightarrow> view_no \<Rightarrow> view_context \<Rightarrow> bool" where
  "scheduled me lm v ctx \<longleftrightarrow> vc_replica_id ctx = me
     \<and> map_sum id l_peer_id (leader_for_view lm v) = Inr (vc_leader_id ctx)"

definition owned :: "peer_id \<Rightarrow> round_robin_leader_manager \<Rightarrow> view_chain \<Rightarrow> bool" where
  "owned me lm s \<longleftrightarrow> (\<forall>v. pred_option (scheduled me lm v) (map_of (ch_views s) v))"

definition vm_inv :: "env \<Rightarrow> view_manager \<Rightarrow> bool" where
  "vm_inv E m \<longleftrightarrow> ch_inv E (vm_peers m) (vm_view_chain m) \<and> present (vm_view_chain m)
     \<and> owned (vm_replica_id m) (vm_leader_manager m) (vm_view_chain m)"

lemma ownedD: "owned me lm s \<Longrightarrow> map_of (ch_views s) v = Some ctx \<Longrightarrow> scheduled me lm v ctx"
  by (metis owned_def option.pred_inject(2))

lemma ownedI: "(\<And>v ctx. map_of (ch_views s) v = Some ctx \<Longrightarrow> scheduled me lm v ctx) \<Longrightarrow> owned me lm s"
  by (auto simp: owned_def option.pred_set)

lemma quiet_owned:
  assumes "quiet me lm s t" and "owned me lm s"
  shows "owned me lm t"
proof (rule ownedI)
  fix v ctx assume "map_of (ch_views t) v = Some ctx"
  from quietD [OF assms(1) this] ownedD [OF assms(2), of v] show "scheduled me lm v ctx"
    by (auto simp: flag_kept_def fresh_def same_flags_def own_flags_def scheduled_def split: if_splits)
qed

lemma moves_inv:
  assumes "moves E c m m'" and "ark_laws E r" and "vm_inv E m"
  shows "vm_inv E m' \<and> quiet (vm_replica_id m) (vm_leader_manager m) (vm_view_chain m) (vm_view_chain m')"
proof -
  have "ch_inv E (vm_peers m) (vm_view_chain m)" using assms(3) by (simp add: vm_inv_def)
  from msg_steps [OF _ assms(2) this, of c "vm_replica_id m" "vm_leader_manager m" "vm_view_chain m'"] assms(1,3)
  show ?thesis
    using quiet_owned [of "vm_replica_id m" "vm_leader_manager m" "vm_view_chain m" "vm_view_chain m'"]
    by (simp add: moves_def vm_inv_def same_replica_def)
qed

text \<open>The steps of a replica: messages, ticks and validated blocks, the finalization of views below
  the current one, and what the replica itself does in a view. They may occur in any order and with any
  arguments, so there are more runs of these steps than runs of the state machine, which takes them
  only on the events it is given; an invariant of all runs of these steps holds for the state machine.\<close>

inductive vm_step :: "env \<Rightarrow> cfg \<Rightarrow> view_manager \<Rightarrow> view_manager \<Rightarrow> bool" for E c where
  msg: "process_consensus_msg E c now msg m = Some (r, m') \<Longrightarrow> vm_step E c m m'"
| tick: "tick E c now m = (r, m') \<Longrightarrow> vm_step E c m m'"
| validated: "process_validated_block E c b d m = Some (r, m') \<Longrightarrow> vm_step E c m m'"
| finalize: "v < ch_current_view (vm_view_chain m) \<Longrightarrow> finalize_view E c v m = Some (r, m') \<Longrightarrow> vm_step E c m m'"
| cascade: "vm_step E c m (snd (vm_progress_after_cascade now v m))"
| rollback: "vm_step E c m (vm_rollback_pending_diffs_in_range v u m)"
| own_vote: "get_public_key (vm_peers m) (vm_replica_id m) = Inr pk \<Longrightarrow> bls_verify E pk h sig \<Longrightarrow>
    vm_step E c m (snd (vm_add_own_vote v h sig m))"
| timeout: "vm_step E c m (snd (in_view v (create_nullify_for_timeout E sk) m))"
| byzantine: "vm_step E c m (snd (in_view v (create_nullify_for_byzantine E sk) m))"
| cascade_nullify: "vm_step E c m (snd (in_view v (create_nullify_for_cascade E sk) m))"
| proposed: "vm_step E c m (snd (mark_proposed v m))"
| nullified: "vm_step E c m (snd (mark_nullified v m))"

lemma vm_inv_set_ctx:
  assumes "vm_inv E m" and "map_of (ch_views (vm_view_chain m)) v = Some ctx"
    and "vc_step E c (vm_peers m) ctx ctx'" and "ark_laws E r"
  shows "vm_inv E (m\<lparr>vm_view_chain := set_ctx v ctx' (vm_view_chain m)\<rparr>)"
proof -
  let ?s = "vm_view_chain m" let ?t = "set_ctx v ctx' ?s"
  have "ch_inv E (vm_peers m) ?t" using assms by (auto simp: vm_inv_def intro: ch_inv_ctx_step)
  moreover have "present ?t"
    using keeps_views_present [OF keeps_views_set_ctx [OF assms(2)], of ?t ctx'] assms(1) by (simp add: vm_inv_def)
  moreover have "owned (vm_replica_id m) (vm_leader_manager m) ?t"
  proof (rule ownedI)
    fix u x assume "map_of (ch_views ?t) u = Some x"
    then show "scheduled (vm_replica_id m) (vm_leader_manager m) u x"
      using assms(1,2) vc_step_le [OF assms(3)] ownedD [of "vm_replica_id m" "vm_leader_manager m" ?s]
      by (auto simp: vm_inv_def update_conv' scheduled_def vc_le_def split: if_splits)
  qed
  ultimately show ?thesis by (simp add: vm_inv_def)
qed

lemma in_view_inv:
  assumes "vm_inv E m" and "ark_laws E r"
    and "\<And>ctx. map_of (ch_views (vm_view_chain m)) v = Some ctx \<Longrightarrow> vc_step E c (vm_peers m) ctx (snd (f ctx))"
  shows "vm_inv E (snd (in_view v f m))"
proof (cases "map_of (ch_views (vm_view_chain m)) v")
  case None
  then show ?thesis using assms(1) by (simp add: in_view_def on_chain_def find_view_context_def)
next
  case (Some ctx)
  from vm_inv_set_ctx [OF assms(1) Some assms(3) [OF Some] assms(2)] Some show ?thesis
    by (auto simp: in_view_def on_chain_def find_view_context_def split: prod.splits)
qed

lemma process_validated_block_moves:
  assumes "process_validated_block E c b d m = Some (r, m')"
  shows "moves E c m m'"
proof -
  have "moves E c m (m\<lparr>vm_view_chain := store_state_diff (b_view b) d (vm_view_chain m)\<rparr>)"
    by (rule moves_chain) (auto intro: msg_step.state_diff)
  with assms show ?thesis
    unfolding process_validated_block_def using handle_block_proposal_moves moves_trans by meson
qed

lemma cascade_moves: "moves E c m (snd (vm_progress_after_cascade now v m))"
proof (cases "compute_leader_for_view v m")
  case (Inr l)
  obtain r1 m1 where p: "on_chain (progress_after_cascade (view_context_new now v l (vm_replica_id m)
      (select_parent v (vm_view_chain m)))) m = (r1, m1)" by (rule prod.exhaust)
  have "moves E c m m1"
    by (rule moves_on_chain [OF p]) (use Inr in \<open>auto simp: compute_leader_Inr intro: msg_step.progress_c\<close>)
  then show ?thesis by (simp add: vm_progress_after_cascade_def Inr p Let_def split: sum.splits)
qed (simp add: vm_progress_after_cascade_def)

lemma rollback_moves: "moves E c m (vm_rollback_pending_diffs_in_range v u m)"
  unfolding vm_rollback_pending_diffs_in_range_def by (rule moves_chain) (auto intro: msg_step.rollback)

lemma vm_step_inv:
  assumes "vm_step E c m m'" and "ark_laws E r" and "vm_inv E m"
  shows "vm_inv E m'"
  using assms
proof (induction rule: vm_step.induct)
  case (msg now msg m r m')
  then show ?case using moves_inv process_consensus_msg_moves by blast
next
  case (tick now m r m')
  then show ?case using moves_inv tick_moves by blast
next
  case (validated b d m r m')
  then show ?case using moves_inv process_validated_block_moves by blast
next
  case (finalize v m r m')
  then show ?case using moves_inv finalize_view_moves by blast
next
  case (cascade m now v)
  then show ?case using moves_inv cascade_moves by blast
next
  case (rollback m v u)
  then show ?case using moves_inv rollback_moves by blast
next
  case (own_vote m pk h sig v)
  have "vc_step E c (vm_peers m) ctx (snd (add_own_vote h sig ctx))"
    if "map_of (ch_views (vm_view_chain m)) v = Some ctx" for ctx
  proof (rule vc_step.own_vote [OF _ own_vote(2)])
    show "get_public_key (vm_peers m) (vc_replica_id ctx) = Inr pk"
      using own_vote(1,4) that by (auto simp: vm_inv_def scheduled_def dest: ownedD)
  qed
  then show ?case unfolding vm_add_own_vote_def by (rule in_view_inv [OF own_vote(4,3)])
next
  case (timeout m v sk)
  then show ?case by (intro in_view_inv) (auto intro: vc_step.timeout)
next
  case (byzantine m v sk)
  then show ?case by (intro in_view_inv) (auto intro: vc_step.byzantine)
next
  case (cascade_nullify m v sk)
  then show ?case by (intro in_view_inv) (auto intro: vc_step.cascade)
next
  case (proposed m v)
  then show ?case
    using vm_inv_set_ctx [OF proposed(2) _ vc_step.proposed proposed(1)]
    by (auto simp: mark_proposed_def on_chain_def current_def split: option.splits)
next
  case (nullified m v)
  then show ?case
    using vm_inv_set_ctx [OF nullified(2) _ vc_step.nullified nullified(1)]
    by (auto simp: mark_nullified_def on_chain_def find_view_context_def remove_pending_diff_def vm_inv_def
        present_def owned_def split: option.splits)
qed

definition vm_init :: "env \<Rightarrow> view_manager \<Rightarrow> bool" where
  "vm_init E m \<longleftrightarrow> (\<exists>r. ark_laws E r)
     \<and> ((\<exists>now timeout pks gas me lm w. view_manager_new E now timeout pks gas me lm w = Inr m)
      \<or> (\<exists>now timeout n strategy pks me w. from_genesis E now timeout n strategy pks me w = Inr m))"

definition vm_machine_inv :: "env \<Rightarrow> view_manager \<Rightarrow> bool" where
  "vm_machine_inv E m \<longleftrightarrow> (\<exists>r. ark_laws E r) \<and> vm_inv E m"

lemma vm_inv_manager_of:
  assumes "leader_for_view lm 1 = Inr l"
  shows "vm_inv E (manager_of timeout lm (view_chain_new E (view_context_new now 1 (l_peer_id l) me p) w) me P)"
  using assms ch_inv_new [OF vc_inv_new, of E P now 1 "l_peer_id l" me p w]
  by (simp add: vm_inv_def manager_of_def present_def owned_def view_chain_new_def view_context_new_def scheduled_def)

lemma view_manager_new_inv: "view_manager_new E now timeout pks gas me lm w = Inr m \<Longrightarrow> vm_inv E m"
  unfolding view_manager_new_def
  by (auto split: sum.split_asm intro!: vm_inv_manager_of [where p = "genesis_hash E"] simp del: One_nat_def)

lemma from_genesis_inv: "from_genesis E now timeout n strategy pks me w = Inr m \<Longrightarrow> vm_inv E m"
  unfolding from_genesis_def
  by (auto split: sum.split_asm option.split_asm leader_selection_strategy.split_asm
      intro!: vm_inv_manager_of [where p = "genesis_hash E"] simp del: One_nat_def)

interpretation vmm: invariant_machine "vm_init E" "vm_step E c" "vm_machine_inv E" for E c
  by unfold_locales
    (auto simp: vm_machine_inv_def vm_init_def intro: view_manager_new_inv from_genesis_inv vm_step_inv)

text \<open>C7: in every run of a replica, whatever messages arrive and whichever handlers fail, the
  invariant of the chain holds, the current view has a context (so \<open>ViewChain::current\<close> never
  panics), and the leader recorded in every context is the one the schedule gives for its view.\<close>

theorem manager_invariant:
  assumes "ark_laws E r" and "from_genesis E now timeout n strategy pks me w = Inr m0"
    and "(vm_step E c)\<^sup>*\<^sup>* m0 m"
  shows "ch_inv E (vm_peers m) (vm_view_chain m) \<and> (\<exists>ctx. current (vm_view_chain m) = Inr ctx)
    \<and> owned (vm_replica_id m) (vm_leader_manager m) (vm_view_chain m)"
proof -
  have "vm_init E m0" using assms(1,2) unfolding vm_init_def by blast
  from vmm.inv_reachable [OF this assms(3)] show ?thesis
    by (auto simp: vm_machine_inv_def vm_inv_def present_def current_def)
qed

end
