(* ===== verification/Manager_Decisions.thy ===== *)
theory Manager_Decisions
  imports View_Manager
begin

text \<open>
  The decisions of the view progress manager: when a message may move a replica to another view,
  when the replica may be asked to vote, what a tick may ask for, who answers recovery requests,
  and a run in which a handler never returns. At the end, a network of two peers on which the
  theorems are instantiated.
\<close>

subsection \<open>View changes need a proof\<close>

abbreviation view_of :: "view_manager \<Rightarrow> view_no" where
  "view_of m \<equiv> ch_current_view (vm_view_chain m)"

lemma on_chain_view:
  assumes "on_chain f m = (r, m')" and "\<And>s. keeps_views s (snd (f s))"
  shows "view_of m' = view_of m"
  using assms(1) assms(2) [of "vm_view_chain m"] by (auto simp: on_chain_def keeps_views_def split: prod.splits)

lemma after_pending_view: "after_pending E c ev m = Some (r, m') \<Longrightarrow> view_of m' = view_of m"
proof -
  have "ch_current_view s' = ch_current_view s"
    if "process_all_pending_blocks E c (vm_peers m) s = Some (r1, s')" for s r1 s'
    by (rule process_all_pending_preserve [OF that])
      (use process_pending_keeps_views in \<open>auto simp: keeps_views_def\<close>)
  then show "after_pending E c ev m = Some (r, m') \<Longrightarrow> view_of m' = view_of m"
    by (auto simp: after_pending_def split: option.splits sum.splits)
qed

lemma handlers_keep_view:
  "handle_block_proposal E c b m = Some (r, m') \<Longrightarrow> view_of m' = view_of m"
  "handle_vote E c vt m = Some (r, m') \<Longrightarrow> view_of m' = view_of m"
  "handle_nullify E c n m = Some (r, m') \<Longrightarrow> view_of m' = view_of m"
  "handle_block_recovery_request c v h m = Some (r, m') \<Longrightarrow> view_of m' = view_of m"
  "handle_block_recovery_response E c v b m = Some (r, m') \<Longrightarrow> view_of m' = view_of m"
proof -
  show "handle_block_proposal E c b m = Some (r, m') \<Longrightarrow> view_of m' = view_of m"
    by (auto simp: handle_block_proposal_def handler_simps split: handler_splits
        dest!: future_view_same after_pending_view on_chain_view [OF _ route_keeps_views(7)])
  show "handle_vote E c vt m = Some (r, m') \<Longrightarrow> view_of m' = view_of m"
    by (auto simp: handle_vote_def handler_simps split: handler_splits
        dest!: future_view_same after_pending_view on_chain_view [OF _ route_keeps_views(1)])
  show "handle_nullify E c n m = Some (r, m') \<Longrightarrow> view_of m' = view_of m"
    by (auto simp: handle_nullify_def handler_simps split: handler_splits
        dest!: future_view_same on_chain_view [OF _ route_keeps_views(2)])
  show "handle_block_recovery_request c v h m = Some (r, m') \<Longrightarrow> view_of m' = view_of m"
    using handle_recovery_moves(1) by blast
  show "handle_block_recovery_response E c v b m = Some (r, m') \<Longrightarrow> view_of m' = view_of m"
    by (auto simp: handle_block_recovery_response_def handler_simps clear_cooldown_def split: handler_splits
        dest!: on_chain_view [OF _ route_keeps_views(5)])
qed

lemma finalize_view_view: "finalize_view E c v m = Some (r, m') \<Longrightarrow> view_of m' = view_of m"
  by (auto simp: finalize_view_def drain_recovery_def Let_def split: handler_splits dest: finalize_subset(2))

lemma route_verified:
  "route_m_notarization E c P mn s = (Inr x, t) \<Longrightarrow> map_of (ch_views s) (mn_view mn) \<noteq> None \<Longrightarrow>
     mnot_verify E P mn = Some True"
  "route_nullification E P n s = (Inr y, t) \<Longrightarrow> nullification_verify E P n = Some True"
  by (auto simp: route_m_notarization_def add_m_notarization_def route_nullification_def add_nullification_def
      split: option.splits sum.splits prod.splits bool.splits if_splits)

lemma on_chain_progress:
  assumes "on_chain (progress_with_m_notarization ctx) m = (r, m') \<or> on_chain (progress_with_nullification ctx) m = (r, m')"
  shows "view_of m' = (case r of Inl _ \<Rightarrow> view_of m | Inr _ \<Rightarrow> view_of m + 1)"
  using assms
  by (auto simp: on_chain_def progress_with_m_notarization_def progress_with_nullification_def enter_view_def
      split: sum.splits prod.splits if_splits)

lemma handle_m_notarization_view:
  assumes "handle_m_notarization E c now mn m = Some (r, m')" and "view_of m' \<noteq> view_of m" and "present (vm_view_chain m)"
  shows "mn_view mn = view_of m \<and> view_of m' = view_of m + 1 \<and> mnot_verify E (vm_peers m) mn = Some True"
proof -
  obtain x m1 where r: "on_chain (route_m_notarization E c (vm_peers m) mn) m = (x, m1)" by (rule prod.exhaust)
  note v1 = on_chain_view [OF r route_keeps_views(3)]
  have v: "mn_view mn = view_of m \<and> view_of m' = view_of m + 1 \<and> (\<exists>y. x = Inr y)"
    using assms(1,2) v1
    by (auto simp: handle_m_notarization_def r handler_simps split: handler_splits
        dest!: future_view_same after_pending_view finalize_view_view on_chain_progress [OF disjI1])
  then obtain y where "route_m_notarization E c (vm_peers m) mn (vm_view_chain m) = (Inr y, vm_view_chain m1)"
    using r by (auto simp: on_chain_def split: prod.splits)
  with v assms(3) show ?thesis by (auto simp: present_def dest: route_verified)
qed

lemma handle_nullification_view:
  assumes "handle_nullification E now n m = Some (r, m')" and "view_of m' \<noteq> view_of m"
  shows "nfn_view n = view_of m \<and> view_of m' = view_of m + 1 \<and> nullification_verify E (vm_peers m) n = Some True"
proof -
  obtain x m1 where r: "on_chain (route_nullification E (vm_peers m) n) m = (x, m1)" by (rule prod.exhaust)
  note v1 = on_chain_view [OF r route_keeps_views(4)]
  have v: "nfn_view n = view_of m \<and> view_of m' = view_of m + 1 \<and> (\<exists>y. x = Inr y)"
    using assms(1,2) v1
    by (auto simp: handle_nullification_def r handler_simps split: handler_splits
        dest!: future_view_same on_chain_progress [OF disjI2])
  then show ?thesis
    using r by (auto simp: on_chain_def split: prod.splits dest: route_verified)
qed

text \<open>C9: what the manager's handling of one message (\<open>process_consensus_msg\<close>) does to the current view.
  It leaves the view alone or moves to the next one, and moves only when the message is an
  M-notarization or a nullification of the current view whose aggregate signature verifies. This is
  about the manager: the state machine also leaves a view in a cascade, after a nullification of an
  earlier view, and by an M-notarization it has assembled itself.\<close>

theorem view_change_has_proof:
  assumes "vm_inv E m" and "process_consensus_msg E c now msg m = Some (r, m')"
    and "ch_current_view (vm_view_chain m') \<noteq> ch_current_view (vm_view_chain m)"
  shows "ch_current_view (vm_view_chain m') = ch_current_view (vm_view_chain m) + 1
    \<and> ((\<exists>mn. msg = MNotarizationMsg mn \<and> mn_view mn = ch_current_view (vm_view_chain m)
            \<and> mnot_verify E (vm_peers m) mn = Some True)
      \<or> (\<exists>n. msg = NullificationMsg n \<and> nfn_view n = ch_current_view (vm_view_chain m)
            \<and> nullification_verify E (vm_peers m) n = Some True))"
  using assms
  by (cases msg) (auto simp: process_consensus_msg_def vm_inv_def
      dest: handlers_keep_view handle_m_notarization_view handle_nullification_view)

subsection \<open>When the replica is asked to vote\<close>

definition vote_request :: "view_progress_event \<Rightarrow> (view_no \<times> hash) option" where
  "vote_request ev = (case ev of
      ShouldVote v h \<Rightarrow> Some (v, h)
    | ShouldVoteAndMNotarize v h _ \<Rightarrow> Some (v, h)
    | ShouldVoteAndProgressToNextView v h _ _ _ \<Rightarrow> Some (v, h)
    | ShouldVoteAndFinalize v h \<Rightarrow> Some (v, h)
    | _ \<Rightarrow> None)"

lemma vote_request_simps [simp]:
  "vote_request (ShouldVote v h) = Some (v, h)"
  "vote_request (ShouldVoteAndMNotarize v h f) = Some (v, h)"
  "vote_request (ShouldVoteAndProgressToNextView v h w l f) = Some (v, h)"
  "vote_request (ShouldVoteAndFinalize v h) = Some (v, h)"
  "vote_request (ShouldProposeBlock v h) = None" "vote_request (ShouldNullify v) = None"
  "vote_request (ShouldBroadcastNullification v) = None" "vote_request (ShouldMNotarize v h f) = None"
  "vote_request (ProgressToNextView v l h f) = None" "vote_request (ShouldFinalize v h) = None"
  "vote_request (ProgressToNextViewOnNullification v l h f) = None"
  "vote_request (BroadcastConsensusMessage msg) = None" "vote_request NoOp = None"
  "vote_request Await = None" "vote_request (ShouldUpdateView v l) = None"
  "vote_request (ShouldNullifyView v) = None" "vote_request (ShouldCascadeNullification v f) = None"
  "vote_request (ShouldNullifyRange v) = None" "vote_request (ShouldRequestBlock v h) = None"
  "vote_request (ShouldRequestBlocks rs) = None"
  by (simp_all add: vote_request_def)

lemma future_view_no_vote: "future_view v claimed m = Some (Inr ev, m') \<Longrightarrow> vote_request ev = None"
  by (auto simp: future_view_def return_def split: handler_splits)

lemma after_pending_event: "after_pending E c ev m = Some (Inr ev', m') \<Longrightarrow> ev' = ev"
  by (auto simp: after_pending_def split: handler_splits)

lemma add_vote_no_vote: "add_vote E c vt P ctx = (Inr r, ctx') \<Longrightarrow> cv_should_vote r \<Longrightarrow> cv_should_await r"
  by (auto simp: add_vote_def Let_def split: if_splits sum.splits option.splits prod.splits)

lemma route_vote_no_vote: "route_vote E c P vt s = (Inr r, s') \<Longrightarrow> cv_should_vote r \<Longrightarrow> cv_should_await r"
  by (auto simp: route_vote_def no_votes_result_def split: handler_splits dest: add_vote_no_vote)

lemma handle_vote_never_votes_lemma:
  assumes "handle_vote E c vt m = Some (Inr ev, m')"
  shows "vote_request ev = None"
proof -
  obtain x m1 where r: "on_chain (route_vote E c (vm_peers m) vt) m = (x, m1)" by (rule prod.exhaust)
  have nv: "cv_should_vote y \<Longrightarrow> cv_should_await y" if "x = Inr y" for y
    using r that by (auto simp: on_chain_def split: prod.splits dest: route_vote_no_vote)
  show ?thesis
    using assms nv
    by (auto simp: handle_vote_def r handler_simps split: handler_splits
        dest!: after_pending_event future_view_no_vote)
qed

text \<open>Votes never make a replica vote. \<open>ViewContext::add_vote\<close> reports that the replica should
  vote for a block it has not seen once more than \<open>2F\<close> votes for it have arrived, but it always
  reports at the same time that the block is awaited, and \<open>handle_vote\<close> looks at that first: none
  of its branches that ask for a vote is ever taken.\<close>

theorem handle_vote_never_votes:
  assumes "handle_vote E c vt m = Some (Inr ev, m')"
  shows "vote_request ev = None"
  by (rule handle_vote_never_votes_lemma [OF assms])

text \<open>A context in which a vote for \<open>h\<close> is in order: the replica has neither voted nor nullified,
  and \<open>h\<close> is the hash of the block or of the M-notarization that the context has.\<close>

definition ready_to_vote :: "hash \<Rightarrow> view_context \<Rightarrow> bool" where
  "ready_to_vote h ctx \<longleftrightarrow> \<not> vc_has_voted ctx \<and> \<not> vc_has_nullified ctx \<and> vc_block_hash ctx = Some h
     \<and> (vc_block ctx \<noteq> None \<or> pred_option (\<lambda>mn. mn_block_hash mn = h) (vc_m_notarization ctx)
          \<and> vc_m_notarization ctx \<noteq> None)"

definition vote_ready :: "view_no \<Rightarrow> hash \<Rightarrow> view_chain \<Rightarrow> bool" where
  "vote_ready v h s \<longleftrightarrow> pred_option (ready_to_vote h) (map_of (ch_views s) v)"

lemma promote_votes_sel [simp]:
  "vc_has_voted (promote_votes h s) = vc_has_voted s"
  "vc_has_nullified (promote_votes h s) = vc_has_nullified s"
  "vc_block_hash (promote_votes h s) = vc_block_hash s"
  "vc_block (promote_votes h s) = vc_block s"
  "vc_m_notarization (promote_votes h s) = vc_m_notarization s"
  by (simp_all add: promote_votes_def Let_def)

lemma add_new_view_block_ready:
  assumes "ready_to_vote h ctx"
  shows "ready_to_vote h (snd (add_new_view_block E c b d P ctx))"
  using assms
  by (auto simp: add_new_view_block_def ready_to_vote_def Let_def adopt_block_def finalize_flag_def
      split: sum.splits option.splits)

lemma add_block_proposal_ready:
  assumes "vote_ready v h s"
  shows "vote_ready v h (snd (add_block_proposal E c P u b d s))"
proof (cases "map_of (ch_views s) u")
  case (Some ctx)
  have "vote_ready v h (on_m_notarization u (set_ctx u (snd (add_new_view_block E c b d P ctx)) s))"
    using assms Some add_new_view_block_ready [of h ctx E c b d P] by (auto simp: vote_ready_def update_conv')
  moreover have "vote_ready v h (set_ctx u (ctx\<lparr>vc_pending_block := Some b, vc_state_diff := Some d\<rparr>) s)"
    using assms Some by (auto simp: vote_ready_def update_conv' ready_to_vote_def)
  ultimately show ?thesis
    using assms Some by (auto simp: add_block_proposal_def split: sum.splits bool.splits prod.splits)
qed (use assms in \<open>simp add: add_block_proposal_def\<close>)

lemma add_proposals_ready: "vote_ready v h s \<Longrightarrow> vote_ready v h (snd (add_proposals E c P ps s))"
proof (induction E c P ps s rule: add_proposals.induct)
  case (2 E c P u b d ps s)
  from add_block_proposal_ready [OF 2(2), of E c P u b d] 2(1) show ?case
    by (auto split: prod.splits sum.splits)
qed simp

lemma process_pending_ready:
  assumes "vote_ready v h s"
  shows "vote_ready v h (snd (process_pending_child_proposals E c P n s))"
proof -
  obtain ps m where t: "take_pending n (ch_views s) = (ps, m)" by (cases "take_pending n (ch_views s)")
  have "map_of m v = map_option (cleared n v) (map_of (ch_views s) v)"
    using map_of_take_pending [of n "ch_views s" v] by (simp add: t)
  then have "vote_ready v h (s\<lparr>ch_views := m\<rparr>)"
    using assms by (cases "map_of (ch_views s) v") (simp_all add: vote_ready_def cleared_def ready_to_vote_def)
  then show ?thesis by (simp add: process_pending_child_proposals_def t add_proposals_ready)
qed

lemma after_pending_ready:
  assumes "after_pending E c ev m = Some (r, m')" and "vote_ready v h (vm_view_chain m)"
  shows "vote_ready v h (vm_view_chain m')"
proof -
  from assms(1) obtain r1 s1 where
    p: "process_all_pending_blocks E c (vm_peers m) (vm_view_chain m) = Some (r1, s1)" "vm_view_chain m' = s1"
    by (auto simp: after_pending_def split: handler_splits)
  show ?thesis
    unfolding p(2) by (rule process_all_pending_preserve [OF p(1) process_pending_ready assms(2)])
qed

lemma after_pending_eventD:
  "after_pending E c ev m = Some (Inr ev', m') \<Longrightarrow>
     ev' = ev \<and> (\<forall>v h. vote_ready v h (vm_view_chain m) \<longrightarrow> vote_ready v h (vm_view_chain m'))"
  using after_pending_event after_pending_ready by blast

lemma finalize_ready:
  assumes "finalize_view E c u m = Some (r, m')" and "vote_ready v h (vm_view_chain m)"
  shows "vote_ready v h (vm_view_chain m')"
proof -
  from assms(1) obtain r1 s1 where
    f: "finalize_with_l_notarization E c (vm_peers m) u (vm_view_chain m) = Some (r1, s1)"
      "ch_views (vm_view_chain m') = ch_views s1"
    by (auto simp: finalize_view_def drain_recovery_def Let_def split: handler_splits)
  show ?thesis
    using assms(2) finalize_subset(1) [OF f(1), of v] f(2)
    by (cases "map_of (ch_views s1) v") (auto simp: vote_ready_def)
qed

lemma add_new_view_block_vote:
  assumes "add_new_view_block E c b d P ctx = (Inr r, ctx')" and "lp_should_vote r"
  shows "ready_to_vote (lp_block_hash r) ctx'"
  using assms
  by (auto simp: add_new_view_block_def ready_to_vote_def Let_def adopt_block_def finalize_flag_def
      split: sum.splits option.splits if_splits)

lemma add_block_proposal_vote:
  assumes "add_block_proposal E c P v b d s = (Inr r, s')" and "lp_should_vote r"
  shows "vote_ready v (lp_block_hash r) s'"
  using assms
  by (auto simp: add_block_proposal_def vote_ready_def update_conv' split: option.splits if_splits sum.splits
      bool.splits prod.splits dest: add_new_view_block_vote)

lemma handle_block_proposal_vote:
  assumes "handle_block_proposal E c b m = Some (Inr ev, m')" and "vote_request ev = Some (v, h)"
  shows "vote_ready v h (vm_view_chain m')"
proof -
  have *: "vote_ready (b_view b) (lp_block_hash r) (vm_view_chain m1)"
    if "on_chain (add_block_proposal E c (vm_peers m) (b_view b) b d) m = (Inr r, m1)" "lp_should_vote r" for d r m1
    using that by (auto simp: on_chain_def split: prod.splits dest: add_block_proposal_vote)
  show ?thesis
    using assms
    by (auto simp: handle_block_proposal_def handler_simps split: handler_splits
        dest!: future_view_no_vote after_pending_eventD dest: *)
qed

lemma add_m_notarization_vote:
  assumes "add_m_notarization E c mn P ctx = (Inr r, ctx')" and "sm_should_vote r" and "vc_inv E P ctx"
  shows "ready_to_vote (mn_block_hash mn) ctx'"
  using assms
  by (auto simp: add_m_notarization_def ready_to_vote_def Let_def vc_inv_def hash_inv_def
      split: option.splits bool.splits if_splits)

lemma route_m_notarization_vote:
  assumes "route_m_notarization E c P mn s = (Inr r, s')" and "sm_should_vote r" and "ch_inv E P s"
  shows "vote_ready (mn_view mn) (mn_block_hash mn) s'"
  using assms ch_invD [OF assms(3), of "mn_view mn"]
  by (auto simp: route_m_notarization_def vote_ready_def update_conv' ctx_ok_def
      split: option.splits sum.splits prod.splits if_splits dest: add_m_notarization_vote)

lemma progress_ready:
  assumes "on_chain (progress_with_m_notarization (view_context_new now (Suc v) l me p)) m = (r, m')"
    and "vote_ready v h (vm_view_chain m)"
  shows "vote_ready v h (vm_view_chain m')"
  using assms
  by (auto simp: on_chain_def progress_with_m_notarization_def enter_view_def vote_ready_def update_conv'
      view_context_new_def split: prod.splits sum.splits if_splits)

lemma handle_m_notarization_vote:
  assumes "handle_m_notarization E c now mn m = Some (Inr ev, m')" and "vote_request ev = Some (v, h)"
    and "ch_inv E (vm_peers m) (vm_view_chain m)"
  shows "vote_ready v h (vm_view_chain m')"
proof -
  have *: "vote_ready (mn_view mn) (mn_block_hash mn) (vm_view_chain m1)"
    if "on_chain (route_m_notarization E c (vm_peers m) mn) m = (Inr r, m1)" "sm_should_vote r" for r m1
    using that assms(3) by (auto simp: on_chain_def split: prod.splits dest: route_m_notarization_vote)
  show ?thesis
    using assms(1,2)
    by (auto simp: handle_m_notarization_def handler_simps split: handler_splits
        dest!: future_view_no_vote after_pending_eventD dest: *)
      (blast intro: finalize_ready progress_ready *)
qed

lemma other_handlers_no_vote:
  "handle_nullify E c n m = Some (Inr ev, m') \<Longrightarrow> vote_request ev = None"
  "handle_nullification E now nn m = Some (Inr ev, m') \<Longrightarrow> vote_request ev = None"
  "handle_block_recovery_request c v h m = Some (Inr ev, m') \<Longrightarrow> vote_request ev = None"
  "handle_block_recovery_response E c v b m = Some (Inr ev, m') \<Longrightarrow> vote_request ev = None"
  subgoal by (auto simp: handle_nullify_def handler_simps split: handler_splits dest: future_view_no_vote)
  subgoal by (auto simp: handle_nullification_def handler_simps split: handler_splits dest: future_view_no_vote)
  subgoal by (auto simp: handle_block_recovery_request_def handler_simps split: handler_splits)
  subgoal by (auto simp: handle_block_recovery_response_def handler_simps split: handler_splits)
  done

lemma process_msg_vote:
  assumes "vm_inv E m" and "process_consensus_msg E c now msg m = Some (Inr ev, m')"
    and "vote_request ev = Some (v, h)"
  shows "vote_ready v h (vm_view_chain m')"
  using assms
  by (cases msg) (auto simp: process_consensus_msg_def vm_inv_def
      dest: handle_block_proposal_vote handle_m_notarization_vote handle_vote_never_votes_lemma other_handlers_no_vote)

lemma tick_view_cases:
  assumes "tick_view E c now ctx m = Some ev"
  shows "(\<exists>e. List.find (timed_out now (vm_view_timeout m) ctx) (range_contexts (vm_view_chain m)) = Some e
        \<and> ev = ShouldNullify (vc_view_number (snd e)))
    \<or> is_leader ctx \<and> \<not> vc_has_proposed ctx \<and> can_propose ctx (vm_view_chain m)
        \<and> ev = ShouldProposeBlock (vc_view_number ctx) (vc_parent_block_hash ctx)
    \<or> \<not> vc_has_voted ctx \<and> \<not> vc_has_nullified ctx
        \<and> (\<exists>b. vc_block ctx = Some b \<and> ev = ShouldVote (vc_view_number ctx) (get_hash E b))
    \<or> \<not> vc_has_voted ctx \<and> \<not> vc_has_nullified ctx
        \<and> (\<exists>mn. vc_m_notarization ctx = Some mn \<and> ev = ShouldVote (vc_view_number ctx) (mn_block_hash mn))
    \<or> \<not> vc_has_voted ctx \<and> \<not> vc_has_nullified ctx \<and> now - vc_entered_at ctx \<ge> vm_view_timeout m
        \<and> ev = ShouldNullify (vc_view_number ctx)
    \<or> (\<exists>h. vc_block_hash ctx = Some h \<and>
         (vc_has_voted ctx \<and> \<not> vc_has_nullified ctx \<and> conflicting_count h ctx > 2 * cF c
            \<and> ev = ShouldNullify (vc_view_number ctx)
        \<or> length (vc_votes ctx) \<ge> cN c - cF c \<and> ev = ShouldFinalize (vc_view_number ctx) h))"
proof (cases "List.find (timed_out now (vm_view_timeout m) ctx) (range_contexts (vm_view_chain m))")
  case None
  show ?thesis
    using assms unfolding tick_view_def Let_def None option.case
    by (simp split: if_splits option.splits)
next
  case (Some e)
  then show ?thesis using assms by (cases e) (simp add: tick_view_def Let_def)
qed

lemma tick_vote:
  assumes "vm_inv E m" and "tick E c now m = (Inr ev, m')" and "vote_request ev = Some (v, h)"
  shows "vote_ready v h (vm_view_chain m')"
proof -
  let ?s = "vm_view_chain m"
  obtain ctx where ctx: "map_of (ch_views ?s) (ch_current_view ?s) = Some ctx"
    using assms(1) by (auto simp: vm_inv_def present_def)
  have i: "vc_view_number ctx = ch_current_view ?s" "hash_inv E ctx"
    using ch_invD [OF _ ctx, of E "vm_peers m"] assms(1) by (simp_all add: vm_inv_def ctx_ok_def vc_inv_def)
  have ev: "\<exists>m1. tick_view E c now ctx m1 = Some ev" and s: "vm_view_chain m' = ?s"
    using assms(2,3) by (auto simp: tick_def current_def ctx Let_def split: option.splits prod.splits list.splits if_splits)
  from ev assms(3) have "v = ch_current_view ?s" and "ready_to_vote h ctx"
    using i by (auto simp: ready_to_vote_def hash_inv_def dest!: tick_view_cases)
  then show ?thesis by (simp add: s vote_ready_def ctx)
qed

text \<open>C10: whenever a message or a tick makes the manager ask for a vote for block \<open>h\<close> in view \<open>v\<close>, and
  the chain still has that view, the replica has neither voted nor nullified there and \<open>h\<close> is the
  hash of the block or of the M-notarization recorded for the view, so that casting the vote
  cannot fail.\<close>

theorem vote_requests_sound:
  assumes "vm_inv E m"
    and "process_consensus_msg E c now msg m = Some (Inr ev, m') \<or> tick E c now m = (Inr ev, m')"
    and "vote_request ev = Some (v, h)" and "find_view_context v (vm_view_chain m') = Some ctx"
  shows "\<not> vc_has_voted ctx \<and> \<not> vc_has_nullified ctx \<and> vc_block_hash ctx = Some h
    \<and> fst (vm_add_own_vote v h sig m') = Inr ()"
proof -
  have "vote_ready v h (vm_view_chain m')" using assms(1-3) process_msg_vote tick_vote by blast
  then have r: "ready_to_vote h ctx" using assms(4) by (simp add: vote_ready_def find_view_context_def)
  then show ?thesis
    using assms(4)
    by (auto simp: ready_to_vote_def vm_add_own_vote_def in_view_def on_chain_def add_own_vote_def
        split: prod.splits)
qed

subsection \<open>What a tick asks for\<close>

definition missing_block :: "view_chain \<Rightarrow> view_no \<times> hash \<Rightarrow> bool" where
  "missing_block s e \<longleftrightarrow> pred_option (\<lambda>ctx. vc_block ctx = None) (find_view_context (fst e) s)
     \<and> find_view_context (fst e) s \<noteq> None"

definition requests_of :: "view_progress_event \<Rightarrow> (view_no \<times> hash) list" where
  "requests_of ev = (case ev of ShouldRequestBlock v h \<Rightarrow> [(v, h)] | ShouldRequestBlocks rs \<Rightarrow> rs | _ \<Rightarrow> [])"

text \<open>Why each event may be due.\<close>

definition justified :: "cfg \<Rightarrow> instant \<Rightarrow> view_manager \<Rightarrow> view_progress_event \<Rightarrow> bool" where
  "justified c now m ev \<longleftrightarrow> (let s = vm_view_chain m; ctx_at = (\<lambda>v Q. \<exists>ctx. find_view_context v s = Some ctx \<and> Q ctx) in
     case ev of
       ShouldNullify v \<Rightarrow> ctx_at v (\<lambda>ctx. \<not> vc_has_nullified ctx \<and>
         (\<not> vc_has_voted ctx \<and> vm_view_timeout m \<le> now - vc_entered_at ctx
          \<or> v = ch_current_view s \<and> vc_has_voted ctx \<and>
              (\<exists>h. vc_block_hash ctx = Some h \<and> 2 * cF c < conflicting_count h ctx)))
     | ShouldProposeBlock v p \<Rightarrow> v = ch_current_view s \<and> compute_leader_for_view v m = Inr (vm_replica_id m)
         \<and> ctx_at v (\<lambda>ctx. \<not> vc_has_proposed ctx \<and> p = vc_parent_block_hash ctx \<and> can_propose ctx s)
     | ShouldVote v h \<Rightarrow> v = ch_current_view s \<and> ctx_at v (ready_to_vote h)
     | ShouldFinalize v h \<Rightarrow> v = ch_current_view s
         \<and> ctx_at v (\<lambda>ctx. vc_block_hash ctx = Some h \<and> cN c - cF c \<le> length (vc_votes ctx))
     | ShouldRequestBlock v h \<Rightarrow> missing_block s (v, h)
     | ShouldRequestBlocks rs \<Rightarrow> list_all (missing_block s) rs
     | Await \<Rightarrow> True
     | NoOp \<Rightarrow> True
     | _ \<Rightarrow> False)"

lemma range_contexts_at: "e \<in> set (range_contexts s) \<Longrightarrow> find_view_context (fst e) s = Some (snd e)"
  by (auto simp: range_contexts_def map_filter_def)

lemma find_Some: "List.find Q xs = Some x \<Longrightarrow> x \<in> set xs \<and> Q x"
  by (induction xs) (auto split: if_splits)

lemma request_block_new:
  "e \<in> set (fst (request_block now x acc)) \<Longrightarrow> e = x \<or> e \<in> set (fst acc)"
  by (auto simp: request_block_def split: prod.splits if_splits)

lemma fold_collects:
  assumes "\<And>x acc. set (fst (f x acc)) \<subseteq> insert x (set (fst acc))"
  shows "set (fst (fold f xs acc)) \<subseteq> set xs \<union> set (fst acc)"
proof (induction xs arbitrary: acc)
  case (Cons x xs)
  from Cons [of "f x acc"] assms [of x acc] show ?case by auto
qed simp

lemma fold_requests_new:
  "set (fst (fold (request_block now) xs acc)) \<subseteq> set xs \<union> set (fst acc)"
  "set (fst (fold (request_canonical now) xs acc)) \<subseteq> set xs \<union> set (fst acc)"
  subgoal by (rule fold_collects) (auto dest: request_block_new)
  subgoal by (rule fold_collects) (auto simp: request_canonical_def dest: request_block_new split: if_splits)
  done

lemma recovery_requests_missing:
  assumes "e \<in> set (fst (recovery_requests now ctx m))"
    and "list_all (still_missing (vm_view_chain m)) (vm_recovery_pending m)"
  shows "missing_block (vm_view_chain m) e"
proof -
  have 1: "missing_block (vm_view_chain m) e" if "still_missing (vm_view_chain m) e"
    using that by (simp add: still_missing_def missing_block_def split: option.splits)
  have 2: "missing_block (vm_view_chain m) e"
    if "x \<in> set (range_contexts (vm_view_chain m))" "recovery_candidate v x = Some e" for x v
    using range_contexts_at [OF that(1)] that(2)
    by (auto simp: recovery_candidate_def missing_block_def split: prod.splits if_splits)
  let ?cs = "List.map_filter (recovery_candidate (vc_view_number ctx)) (range_contexts (vm_view_chain m))"
  have "e \<in> set (vm_recovery_pending m) \<or> e \<in> set ?cs"
    using assms(1) fold_requests_new(2) [of now "vm_recovery_pending m"] fold_requests_new(1) [of now ?cs]
    unfolding recovery_requests_def by fastforce
  then show ?thesis
    using assms(2) 1 2 by (auto simp: list_all_iff map_filter_def)
qed

text \<open>The collected requests: at most a batch, one per view, only for views whose cooldown has passed,
  which are then the views whose cooldown starts anew.\<close>

definition batch_ok ::
    "instant \<Rightarrow> (view_no \<times> instant) list \<Rightarrow> (view_no \<times> hash) list \<times> (view_no \<times> instant) list \<Rightarrow> bool" where
  "batch_ok now cds0 acc \<longleftrightarrow> length (fst acc) \<le> MAX_BATCH_RECOVERY \<and> distinct (map fst (fst acc))
     \<and> list_all (\<lambda>e. cooled_down now cds0 (fst e)) (fst acc)
     \<and> (\<forall>v. map_of (snd acc) v = (if v \<in> fst ` set (fst acc) then Some now else map_of cds0 v))"

lemma request_block_ok:
  assumes "batch_ok now cds0 acc"
  shows "batch_ok now cds0 (request_block now e acc)"
proof -
  obtain rs cds where acc: "acc = (rs, cds)" by (cases acc)
  have m: "map_of cds v = (if v \<in> fst ` set rs then Some now else map_of cds0 v)" for v
    using assms by (simp add: batch_ok_def acc)
  have "fst e \<notin> fst ` set rs" and "cooled_down now cds0 (fst e)" if "cooled_down now cds (fst e)"
    using that m [of "fst e"] by (auto simp: cooled_down_def split: if_splits)
  then show ?thesis
    using assms m by (auto simp: batch_ok_def request_block_def acc update_conv' simp del: image_iff)
qed

lemma fold_requests_ok:
  "batch_ok now cds0 acc \<Longrightarrow> batch_ok now cds0 (fold (request_block now) xs acc)"
  "batch_ok now cds0 acc \<Longrightarrow> batch_ok now cds0 (fold (request_canonical now) xs acc)"
  by (induction xs arbitrary: acc) (simp_all add: request_canonical_def request_block_ok)

lemma recovery_requests_ok: "batch_ok now (vm_cooldowns m) (recovery_requests now ctx m)"
  unfolding recovery_requests_def
  by (intro fold_requests_ok) (simp add: batch_ok_def)

lemma tick_cases:
  assumes "tick E c now m = (Inr ev, m')" and "vm_inv E m"
  obtains (due) ctx m1 where "find_view_context (ch_current_view (vm_view_chain m)) (vm_view_chain m) = Some ctx"
      "vm_view_chain m1 = vm_view_chain m" "vm_view_timeout m1 = vm_view_timeout m"
      "tick_view E c now ctx m1 = Some ev" "vm_cooldowns m' = vm_cooldowns m"
  | (recovery) ctx m1 where "vm_view_chain m1 = vm_view_chain m" "vm_cooldowns m1 = vm_cooldowns m"
      "list_all (still_missing (vm_view_chain m1)) (vm_recovery_pending m1)"
      "requests_of ev = fst (recovery_requests now ctx m1)" "vm_cooldowns m' = snd (recovery_requests now ctx m1)"
      "ev = Await \<or> ev = NoOp \<or> (\<exists>v h. ev = ShouldRequestBlock v h) \<or> (\<exists>rs. ev = ShouldRequestBlocks rs)"
proof -
  let ?m = "m\<lparr>vm_recovery_pending := filter (still_missing (vm_view_chain m)) (vm_recovery_pending m)\<rparr>"
  obtain ctx where ctx: "map_of (ch_views (vm_view_chain m)) (ch_current_view (vm_view_chain m)) = Some ctx"
    using assms(2) by (auto simp: vm_inv_def present_def)
  show thesis
  proof (cases "tick_view E c now ctx ?m")
    case (Some ev')
    with assms(1) ctx show thesis
      by (intro due [of ctx ?m]) (auto simp: tick_def current_def find_view_context_def)
  next
    case None
    obtain rs cds where r: "recovery_requests now ctx ?m = (rs, cds)" by (rule prod.exhaust)
    from assms(1) None ctx r show thesis
      by (intro recovery [of ?m ctx])
        (auto simp: tick_def current_def find_view_context_def list_all_iff requests_of_def Let_def split: list.splits if_splits)
  qed
qed

text \<open>Everything a tick asks for is due. The replica is told to nullify a view only if it has not
  nullified it and either has not voted there and the timeout has passed, or has voted in the
  current view and holds more than \<open>2F\<close> conflicting messages; it proposes only in the current view,
  as its scheduled leader, once, on the parent of the view and with the views in between
  nullified; it votes only in the current view, where it has neither voted nor nullified; it is
  told to finalize only with \<open>N - F\<close> votes; and it requests only blocks that it misses.\<close>

theorem tick_justified:
  assumes "vm_inv E m" and "tick E c now m = (Inr ev, m')"
  shows "justified c now m ev"
  using assms(2,1)
proof (cases rule: tick_cases)
  case (due ctx m1)
  let ?s = "vm_view_chain m"
  have ctx: "map_of (ch_views ?s) (ch_current_view ?s) = Some ctx" using due(1) by (simp add: find_view_context_def)
  have i: "vc_view_number ctx = ch_current_view ?s" "hash_inv E ctx"
    using ch_invD [OF _ ctx, of E "vm_peers m"] assms(1) by (simp_all add: vm_inv_def ctx_ok_def vc_inv_def)
  have own: "vc_replica_id ctx = vm_replica_id m" "compute_leader_for_view (ch_current_view ?s) m = Inr (vc_leader_id ctx)"
    using ownedD [OF _ ctx, of "vm_replica_id m" "vm_leader_manager m"] assms(1)
    by (simp_all add: vm_inv_def scheduled_def compute_leader_for_view_def)
  have late: "justified c now m (ShouldNullify (vc_view_number (snd e)))"
    if f: "List.find (timed_out now (vm_view_timeout m) ctx) (range_contexts ?s) = Some e" for e
  proof -
    from find_Some [OF f] have e: "find_view_context (fst e) ?s = Some (snd e)" "timed_out now (vm_view_timeout m) ctx e"
      by (auto dest: range_contexts_at)
    then have "vc_view_number (snd e) = fst e"
      using ch_invD [of E "vm_peers m" ?s "fst e" "snd e"] assms(1) by (simp add: find_view_context_def vm_inv_def ctx_ok_def)
    with e show ?thesis by (auto simp: justified_def timed_out_def should_timeout_nullify_def)
  qed
  from tick_view_cases [OF due(4)] show ?thesis
    using late i own due(1-3)
    by (elim disjE exE conjE)
      (auto simp: justified_def Let_def is_leader_def ready_to_vote_def hash_inv_def)
next
  case (recovery ctx m1)
  have "missing_block (vm_view_chain m) e" if "e \<in> set (requests_of ev)" for e
    using recovery_requests_missing [of e now ctx m1] that recovery by simp
  with recovery(6) show ?thesis by (auto simp: justified_def requests_of_def list_all_iff)
qed

text \<open>C36: block recovery is rate limited. One tick requests at most five blocks, at most one per view,
  and only for views whose last request is at least 500 ms old; exactly the requested views have
  their cooldown restarted.\<close>

theorem tick_recovery_bounded:
  assumes "vm_inv E m" and "tick E c now m = (Inr ev, m')"
  shows "length (requests_of ev) \<le> 5 \<and> distinct (map fst (requests_of ev))
    \<and> list_all (\<lambda>e. cooled_down now (vm_cooldowns m) (fst e)) (requests_of ev)
    \<and> (\<forall>v. map_of (vm_cooldowns m') v =
         (if v \<in> fst ` set (requests_of ev) then Some now else map_of (vm_cooldowns m) v))"
  using assms(2,1)
proof (cases rule: tick_cases)
  case (due ctx m1)
  have "requests_of ev = []" using tick_view_cases [OF due(4)] by (auto simp: requests_of_def)
  then show ?thesis by (simp add: due)
next
  case (recovery ctx m1)
  from recovery_requests_ok [of now m1 ctx] show ?thesis
    by (simp add: batch_ok_def MAX_BATCH_RECOVERY_def recovery)
qed

subsection \<open>Who answers recovery requests\<close>

text \<open>Among the leaders of \<open>F + 1\<close> views in a row, one is not faulty.\<close>

lemma honest_leader_in_window:
  assumes "rr_valid lm" and "k < rr_n lm" and "finite faulty" and "card faulty \<le> k"
  shows "\<exists>u. v \<le> u \<and> u < v + k + 1 \<and> rr_replicas lm ! (u mod rr_n lm) \<in> set (rr_replicas lm) - faulty"
proof -
  let ?n = "rr_n lm"
  let ?l = "\<lambda>u. rr_replicas lm ! (u mod ?n)"
  have d: "distinct (rr_replicas lm)" "length (rr_replicas lm) = ?n" "0 < ?n"
    using assms(1) by (auto simp: rr_valid_def strict_sorted_iff)
  have "inj_on ?l {v..<v + ?n}"
  proof (rule inj_onI)
    fix x y assume xy: "x \<in> {v..<v + ?n}" "y \<in> {v..<v + ?n}" "?l x = ?l y"
    have "x mod ?n = y mod ?n" using xy(3) d by (simp add: nth_eq_iff_index_eq)
    then show "x = y" by (rule inj_onD [OF mod_window_inj _ xy(1,2)])
  qed
  then have "inj_on ?l {v..<v + k + 1}" by (rule inj_on_subset) (use assms(2) in auto)
  then have "card (?l ` {v..<v + k + 1}) = k + 1" by (simp add: card_image)
  with assms(3,4) have "\<not> ?l ` {v..<v + k + 1} \<subseteq> faulty"
    using card_mono [of faulty "?l ` {v..<v + k + 1}"] by linarith
  then obtain u where "u \<in> {v..<v + k + 1}" "?l u \<notin> faulty" by blast
  then show ?thesis using d by (intro exI [of _ u]) simp
qed

text \<open>C35: one of the replicas that answer a request for a missing block is honest. With a valid schedule
  of more than \<open>F\<close> replicas and a view number whose \<open>F\<close> successors do not wrap, whichever set of at most
  \<open>F\<close> replicas is faulty, there is a replica outside of it whose manager answers the request with the
  block whenever it has the block (in the chain, finalized, nullified or not finalized).\<close>

theorem recovery_has_honest_responder:
  assumes "rr_valid lm" and "cF c < rr_n lm" and "finite faulty" and "card faulty \<le> cF c"
    and "v + cF c < 2 ^ 64"
    and "\<forall>p \<in> set (rr_replicas lm) - faulty. vm_leader_manager (M p) = lm \<and> vm_replica_id (M p) = p"
  shows "\<exists>p \<in> set (rr_replicas lm) - faulty. \<forall>b. get_block_for_recovery v h (vm_view_chain (M p)) = Some b
    \<longrightarrow> process_consensus_msg E c now (BlockRecoveryRequest v h) (M p)
          = Some (Inr (BroadcastConsensusMessage (BlockRecoveryResponse v b)), M p)"
proof -
  let ?l = "\<lambda>u. rr_replicas lm ! (u mod rr_n lm)"
  obtain u where u: "v \<le> u" "u < v + cF c + 1" "?l u \<in> set (rr_replicas lm) - faulty"
    using honest_leader_in_window [OF assms(1-4)] by blast
  moreover have "is_responder c v (M (?l u))"
  proof -
    have "u64_add v (u - v) = u" using u(1,2) assms(5) by (simp add: u64_add_exact)
    then show ?thesis
      using u assms(6) rr_valid_leader [OF assms(1), of u]
      by (auto simp: is_responder_def list_ex_iff compute_leader_for_view_def simp del: upt_Suc
          intro!: bexI [of _ "u - v"])
  qed
  ultimately show ?thesis
    by (intro bexI [of _ "?l u"]) (simp_all add: process_consensus_msg_def handle_block_recovery_request_def return_def)
qed

subsection \<open>A replica of a network of two\<close>

text \<open>Two peers, no faults tolerated (so one vote notarizes a block), round robin: peer 2 leads the
  odd views, peer 1 the even ones.\<close>

definition toy_mgr :: "peer_id \<Rightarrow> view_manager" where
  "toy_mgr me = manager_of 100 \<lparr>rr_n = 2, rr_replicas = [1, 2]\<rparr>
     (view_chain_new small_env (view_context_new 0 1 2 me (genesis_hash small_env)) (writer_new init_tables 0))
     me toy_two"

lemma toy_mgr_from_genesis:
  "from_genesis small_env 0 100 2 RoundRobin [Some 1, Some 2] me (writer_new init_tables 0) = Inr (toy_mgr me)"
proof -
  have "parsed_peers small_env [Some 1, Some 2] = Inr toy_two" by code_simp
  moreover have "round_robin_new 2 (sorted_peer_ids toy_two) = Some \<lparr>rr_n = 2, rr_replicas = [1, 2]\<rparr>" by code_simp
  moreover have "leader_for_view \<lparr>rr_n = 2, rr_replicas = [1, 2]\<rparr> 1 = Inr \<lparr>l_peer_id = 2, l_view = 1\<rparr>" by code_simp
  ultimately show ?thesis by (simp add: from_genesis_def toy_mgr_def)
qed

lemma toy_mgr_init: "vm_init small_env (toy_mgr me)"
  unfolding vm_init_def using small_env_ark_laws toy_mgr_from_genesis by blast

definition toy_block_of :: "peer_id \<Rightarrow> view_no \<Rightarrow> hash \<Rightarrow> hash \<Rightarrow> block" where
  "toy_block_of leader v h parent = \<lparr>b_leader = leader,
     b_header = \<lparr>h_view = v, h_parent_block_hash = parent, h_timestamp = 0\<rparr>,
     b_leader_signature = bls_sign small_env (uint leader) h, b_transactions = [], b_hash = Some h,
     b_is_finalized = False, b_height = v\<rparr>"

definition toy_mnot_of :: "peer_id \<Rightarrow> view_no \<Rightarrow> hash \<Rightarrow> m_notarization" where
  "toy_mnot_of leader v h = \<lparr>mn_view = v, mn_block_hash = h,
     mn_aggregated_signature = aggregate_signatures small_env [bls_sign small_env (uint leader) h],
     mn_peer_ids = [leader], mn_leader_id = leader\<rparr>"

definition toy_nullification :: "peer_id \<Rightarrow> view_no \<Rightarrow> nullification" where
  "toy_nullification leader v = \<lparr>nfn_view = v, nfn_leader_id = leader,
     nfn_aggregated_signature = aggregate_signatures small_env
       [bls_sign small_env 1 (nullify_message small_env v leader)],
     nfn_peer_ids = [1]\<rparr>"

definition run_msg :: "consensus_message \<Rightarrow> view_manager \<Rightarrow> view_manager" where
  "run_msg msg m = (case process_consensus_msg small_env toy_cfg2 0 msg m of Some (_, m') \<Rightarrow> m' | None \<Rightarrow> m)"

lemma run_msg_steps: "(vm_step small_env toy_cfg2)\<^sup>*\<^sup>* m m' \<Longrightarrow> (vm_step small_env toy_cfg2)\<^sup>*\<^sup>* m (run_msg msg m')"
  by (auto simp: run_msg_def split: option.splits intro: rtranclp.rtrancl_into_rtrancl vm_step.msg)

text \<open>View 1 is notarized by a message, without its block.\<close>

definition toy_m1 :: "peer_id \<Rightarrow> view_manager" where
  "toy_m1 me = run_msg (MNotarizationMsg (toy_mnot_of 2 1 [2])) (toy_mgr me)"

lemma toy_m1_steps: "(vm_step small_env toy_cfg2)\<^sup>*\<^sup>* (toy_mgr me) (toy_m1 me)"
  unfolding toy_m1_def by (rule run_msg_steps) simp

lemma toy_reachable_inv: "(vm_step small_env toy_cfg2)\<^sup>*\<^sup>* (toy_mgr me) m \<Longrightarrow> vm_inv small_env m"
  using vmm.inv_reachable [OF toy_mgr_init] by (simp add: vm_machine_inv_def)

subsection \<open>A pending block can keep a handler busy forever\<close>

lemma process_all_pending_loops:
  assumes "process_children E c P (views_with_m_not s) s = (Inr True, s)"
  shows "process_all_pending_blocks E c P s = None"
proof -
  have False if "process_all_pending_blocks E c P s = Some q" for q
  proof -
    have "E' = E \<longrightarrow> c' = c \<longrightarrow> P' = P \<longrightarrow> t \<noteq> s"
      if "process_all_pending_blocks E' c' P' t = Some q" for E' c' P' t q
      using that
    proof (induction rule: process_all_pending_blocks.raw_induct [rotated 1, consumes 1, case_names loop])
      case (loop rec E' c' P' t q)
      show ?case
      proof (intro impI notI)
        assume "E' = E" "c' = c" "P' = P" "t = s"
        with loop(2) assms have "rec E c P s = Some q" by simp
        with loop(1) show False by blast
      qed
    qed
    with that show False by blast
  qed
  then show ?thesis by (cases "process_all_pending_blocks E c P s") auto
qed

text \<open>Peer 1 adopts a block in view 2, leaves the view in a cascade, gets a block for view 3 on top of
  the one of view 2 from somebody who is not a peer, which has to wait, and a nullification of view 3.\<close>

definition toy_m2 :: view_manager where
  "toy_m2 = run_msg (BlockProposal (toy_block_of 1 2 [3] [2])) (toy_m1 1)"

definition toy_m3 :: view_manager where
  "toy_m3 = snd (vm_progress_after_cascade 0 3 (snd (mark_nullified 2
     (snd (in_view 2 (create_nullify_for_cascade small_env 1) toy_m2)))))"

definition toy_m4 :: view_manager where
  "toy_m4 = run_msg (BlockProposal (toy_block_of 7 3 [4] [3])) toy_m3"

definition toy_m5 :: view_manager where
  "toy_m5 = run_msg (NullificationMsg (toy_nullification 2 3)) toy_m4"

lemma toy_m2_steps: "(vm_step small_env toy_cfg2)\<^sup>*\<^sup>* (toy_mgr 1) toy_m2"
  unfolding toy_m2_def by (rule run_msg_steps [OF toy_m1_steps])

lemma toy_m5_steps: "(vm_step small_env toy_cfg2)\<^sup>*\<^sup>* (toy_mgr 1) toy_m5"
proof -
  let ?n = "snd (in_view 2 (create_nullify_for_cascade small_env 1) toy_m2)"
  have "(vm_step small_env toy_cfg2)\<^sup>*\<^sup>* (toy_mgr 1) ?n"
    by (rule rtranclp.rtrancl_into_rtrancl [OF toy_m2_steps vm_step.cascade_nullify])
  from rtranclp.rtrancl_into_rtrancl [OF this vm_step.nullified, of 2]
  have "(vm_step small_env toy_cfg2)\<^sup>*\<^sup>* (toy_mgr 1) (snd (mark_nullified 2 ?n))" .
  from rtranclp.rtrancl_into_rtrancl [OF this vm_step.cascade, of 0 3]
  have "(vm_step small_env toy_cfg2)\<^sup>*\<^sup>* (toy_mgr 1) toy_m3" by (simp add: toy_m3_def)
  then show ?thesis unfolding toy_m4_def toy_m5_def by (intro run_msg_steps)
qed

text \<open>A leader's block that completes a quorum of votes is reported as enough for an M-notarization,
  but none is created: what the state machine is told to broadcast does not exist.\<close>

lemma m_notarize_event_without_notarization:
  "fst (the (process_consensus_msg small_env toy_cfg2 0 (BlockProposal (toy_block_of 1 2 [3] [2])) (toy_m1 1)))
     = Inr (ShouldVoteAndMNotarize 2 [3] True)
   \<and> get_m_notarization 2 toy_m2 = Inl NoMNotarization"
  by code_simp

subsection \<open>A replica of a network of six\<close>

text \<open>Six peers, one of which may be faulty: three votes notarize a block, three nullify messages
  nullify a view. Peer 2 leads view 1, peer 3 view 2, and so on.\<close>

definition six_mgr :: "peer_id \<Rightarrow> view_manager" where
  "six_mgr me = manager_of 100 \<lparr>rr_n = 6, rr_replicas = [1, 2, 3, 4, 5, 6]\<rparr>
     (view_chain_new small_env (view_context_new 0 1 2 me (genesis_hash small_env)) (writer_new init_tables 0))
     me toy_six"

text \<open>The replica \<open>me\<close> after it has adopted the block of view 1.\<close>

definition six_held :: "peer_id \<Rightarrow> view_manager" where
  "six_held me = snd (the (process_consensus_msg small_env toy_cfg 0 (BlockProposal (toy_block_of 2 1 [2] [0])) (six_mgr me)))"

lemma six_held_by_honest:
  "list_all (\<lambda>p. vm_leader_manager (six_held p) = \<lparr>rr_n = 6, rr_replicas = [1, 2, 3, 4, 5, 6]\<rparr>
     \<and> vm_replica_id (six_held p) = p
     \<and> get_block_for_recovery 1 [2] (vm_view_chain (six_held p)) = Some (toy_block_of 2 1 [2] [0])) [1, 3, 4, 5, 6]"
  by code_simp

subsection \<open>Instances\<close>

theorem manager_invariant_witness:
  "\<exists>ctx. current (vm_view_chain toy_m5) = Inr ctx"
  using manager_invariant [OF small_env_ark_laws toy_mgr_from_genesis toy_m5_steps] by blast

lemma toy_view_change:
  "fst (the (process_consensus_msg small_env toy_cfg2 0 (MNotarizationMsg (toy_mnot_of 2 1 [2])) (toy_mgr 2)))
     = Inr (ShouldVoteAndProgressToNextView 1 [2] 2 1 True)
   \<and> process_consensus_msg small_env toy_cfg2 0 (MNotarizationMsg (toy_mnot_of 2 1 [2])) (toy_mgr 2) \<noteq> None
   \<and> ch_current_view (vm_view_chain (toy_m1 2)) = 2 \<and> ch_current_view (vm_view_chain (toy_mgr 2)) = 1
   \<and> vm_peers (toy_mgr 2) = toy_two"
  by code_simp

lemma toy_m1_result:
  "process_consensus_msg small_env toy_cfg2 0 (MNotarizationMsg (toy_mnot_of 2 1 [2])) (toy_mgr 2)
     = Some (Inr (ShouldVoteAndProgressToNextView 1 [2] 2 1 True), toy_m1 2)"
  using toy_view_change by (cases "process_consensus_msg small_env toy_cfg2 0 (MNotarizationMsg (toy_mnot_of 2 1 [2])) (toy_mgr 2)")
    (auto simp: toy_m1_def run_msg_def)

theorem view_change_has_proof_witness:
  "ch_current_view (vm_view_chain (toy_m1 2)) = 2 \<and> mnot_verify small_env toy_two (toy_mnot_of 2 1 [2]) = Some True"
  using view_change_has_proof [OF toy_reachable_inv [OF rtranclp.rtrancl_refl] toy_m1_result] toy_view_change by simp

theorem handle_vote_never_votes_witness:
  "\<exists>ev m'. handle_vote small_env toy_cfg2 \<lparr>v_view = 1, v_block_hash = [2],
       v_signature = bls_sign small_env 1 [2], v_peer_id = 1, v_leader_id = 2\<rparr> (toy_mgr 2) = Some (Inr ev, m')
     \<and> vote_request ev = None"
proof -
  let ?v = "\<lparr>v_view = 1, v_block_hash = [2], v_signature = bls_sign small_env 1 [2], v_peer_id = 1, v_leader_id = 2\<rparr>"
  have "fst (the (handle_vote small_env toy_cfg2 ?v (toy_mgr 2))) = Inr Await
      \<and> handle_vote small_env toy_cfg2 ?v (toy_mgr 2) \<noteq> None"
    by code_simp
  then obtain m' where "handle_vote small_env toy_cfg2 ?v (toy_mgr 2) = Some (Inr Await, m')"
    by (metis not_None_eq option.sel prod.collapse)
  with handle_vote_never_votes [OF this] show ?thesis by blast
qed

lemma toy_m1_view1: "find_view_context 1 (vm_view_chain (toy_m1 2)) \<noteq> None"
  by code_simp

theorem vote_requests_sound_witness:
  "\<exists>ctx. find_view_context 1 (vm_view_chain (toy_m1 2)) = Some ctx \<and> \<not> vc_has_voted ctx
     \<and> vc_block_hash ctx = Some [2] \<and> fst (vm_add_own_vote 1 [2] 5 (toy_m1 2)) = Inr ()"
proof -
  obtain ctx where ctx: "find_view_context 1 (vm_view_chain (toy_m1 2)) = Some ctx" using toy_m1_view1 by auto
  from vote_requests_sound [OF toy_reachable_inv [OF rtranclp.rtrancl_refl] disjI1 [OF toy_m1_result] _ ctx] ctx
  show ?thesis by auto
qed

lemma toy_tick:
  "fst (tick small_env toy_cfg2 0 (toy_m1 2)) = Inr (ShouldRequestBlock 1 [2])"
  by code_simp

theorem tick_justified_witness:
  "justified toy_cfg2 0 (toy_m1 2) (ShouldRequestBlock 1 [2])"
proof -
  obtain m' where "tick small_env toy_cfg2 0 (toy_m1 2) = (Inr (ShouldRequestBlock 1 [2]), m')"
    using toy_tick by (metis prod.collapse)
  from tick_justified [OF toy_reachable_inv [OF toy_m1_steps] this] show ?thesis .
qed

theorem tick_recovery_bounded_witness:
  "\<exists>m'. tick small_env toy_cfg2 0 (toy_m1 2) = (Inr (ShouldRequestBlock 1 [2]), m')
     \<and> map_of (vm_cooldowns m') 1 = Some 0"
proof -
  obtain m' where t: "tick small_env toy_cfg2 0 (toy_m1 2) = (Inr (ShouldRequestBlock 1 [2]), m')"
    using toy_tick by (metis prod.collapse)
  with tick_recovery_bounded [OF toy_reachable_inv [OF toy_m1_steps] this] show ?thesis
    by (auto simp: requests_of_def)
qed

theorem recovery_has_honest_responder_witness:
  "\<exists>p \<in> {1, 3, 4, 5, 6}. process_consensus_msg small_env toy_cfg 0 (BlockRecoveryRequest 1 [2]) (six_held p)
     = Some (Inr (BroadcastConsensusMessage (BlockRecoveryResponse 1 (toy_block_of 2 1 [2] [0]))), six_held p)"
proof -
  let ?lm = "\<lparr>rr_n = 6, rr_replicas = [1, 2, 3, 4, 5, 6]\<rparr>"
  have six: "set (rr_replicas ?lm) - {2} = {1, 3, 4, 5, 6}" by auto
  have "rr_valid ?lm" by (simp add: rr_valid_def)
  moreover have "cF toy_cfg < rr_n ?lm" "card {2 :: peer_id} \<le> cF toy_cfg" "1 + cF toy_cfg < 2 ^ 64"
    by (simp_all add: toy_cfg_def)
  moreover have "\<forall>p \<in> set (rr_replicas ?lm) - {2}. vm_leader_manager (six_held p) = ?lm \<and> vm_replica_id (six_held p) = p"
    unfolding six using six_held_by_honest by (simp add: list_all_iff)
  ultimately have "\<exists>p \<in> set (rr_replicas ?lm) - {2}. \<forall>b. get_block_for_recovery 1 [2] (vm_view_chain (six_held p)) = Some b
      \<longrightarrow> process_consensus_msg small_env toy_cfg 0 (BlockRecoveryRequest 1 [2]) (six_held p)
            = Some (Inr (BroadcastConsensusMessage (BlockRecoveryResponse 1 b)), six_held p)"
    by (intro recovery_has_honest_responder) simp_all
  then show ?thesis unfolding six using six_held_by_honest by (auto simp: list_all_iff)
qed

end
