(* ===== verification/State_Machine.thy ===== *)
theory State_Machine
  imports Manager_Decisions
begin

text \<open>
  The state machine of a replica (\<open>consensus_manager/state_machine.rs\<close>): it feeds messages and ticks
  to the view progress manager, and carries out the event that comes back by signing, broadcasting,
  finalizing, nullifying, proposing or replaying buffered messages. The ring buffers are the lists of
  everything that was pushed; whether a push finds room, what the mempool answers in time and what
  the clocks say are the answers of the world \<open>W\<close>, one per question. An operation returns its
  \<open>Result\<close> and the machine it leaves, or \<open>None\<close> when it never returns.

  \<open>handle_event\<close>, \<open>handle_consensus_message\<close>, \<open>progress_to_next_view\<close> and \<open>propose_block\<close> call each
  other. Each is written with its recursive calls as an argument, and \<open>exec\<close> closes the recursion.
\<close>

subsection \<open>Channels and state\<close>

record proposal_request =
  pr_view :: view_no
  pr_max_txs :: nat
  pr_max_bytes :: nat
  pr_parent_block_hash :: hash

record proposal_response =
  ps_view :: view_no
  ps_transactions :: "transaction list"
  ps_total_fees :: u64

record finalized_notification =
  fn_view :: view_no
  fn_tx_hashes :: "hash list"

text \<open>The answers of the world to the \<open>n\<close>-th question: a monotonic clock, the wall clock in seconds
  (\<open>None\<close> before the epoch), whether a ring buffer has room, and the responses that the mempool
  delivers before the deadlines of one wait.\<close>

record world =
  io_now :: "nat \<Rightarrow> instant"
  io_timestamp :: "nat \<Rightarrow> u64 option"
  io_broadcast_room :: "nat \<Rightarrow> bool"
  io_request_room :: "nat \<Rightarrow> bool"
  io_finalized_room :: "nat \<Rightarrow> bool"
  io_responses :: "nat \<Rightarrow> proposal_response list"

record state_machine =
  cs_view_manager :: view_manager
  cs_pending_messages :: "(view_no \<times> consensus_message list) list"
  cs_secret_key :: bls_secret_key
  cs_broadcast :: "consensus_message list"
  cs_proposal_requests :: "proposal_request list"
  cs_finalized :: "finalized_notification list"
  cs_shutdown_signal :: bool
  cs_asked :: nat

definition state_machine_new :: "view_manager \<Rightarrow> bls_secret_key \<Rightarrow> state_machine" where
  "state_machine_new m sk = \<lparr>cs_view_manager = m, cs_pending_messages = [], cs_secret_key = sk,
     cs_broadcast = [], cs_proposal_requests = [], cs_finalized = [], cs_shutdown_signal = False,
     cs_asked = 0\<rparr>"

abbreviation cs_chain :: "state_machine \<Rightarrow> view_chain" where
  "cs_chain s \<equiv> vm_view_chain (cs_view_manager s)"

definition MAX_BROADCAST_ATTEMPTS :: nat where "MAX_BROADCAST_ATTEMPTS = 10"
definition MAX_TRANSACTIONS_PER_BLOCK :: nat where "MAX_TRANSACTIONS_PER_BLOCK = 1000"
definition MAX_BLOCK_SIZE_BYTES :: nat where "MAX_BLOCK_SIZE_BYTES = 1024 * 1024"
definition MAX_FINALIZATIONS_PER_PASS :: nat where "MAX_FINALIZATIONS_PER_PASS = 5"

subsection \<open>Sequencing\<close>

type_synonym 'a op = "state_machine \<Rightarrow> ('a result \<times> state_machine) option"

definition sm_ok :: "'a \<Rightarrow> 'a op" where
  "sm_ok x s = Some (Inr x, s)"

definition sm_result :: "'a result \<Rightarrow> 'a op" where
  "sm_result r s = Some (r, s)"

text \<open>The operator \<open>?\<close> of Rust.\<close>

definition sm_then :: "'a op \<Rightarrow> ('a \<Rightarrow> 'b op) \<Rightarrow> 'b op" where
  "sm_then f g s = Option.bind (f s) (\<lambda>(r, s'). case r of Inl e \<Rightarrow> Some (Inl e, s') | Inr x \<Rightarrow> g x s')"

text \<open>\<open>if let Ok(x) = f\<close>: errors are dropped or logged, panics are not.\<close>

definition sm_try :: "'a op \<Rightarrow> 'a option op" where
  "sm_try f s = Option.bind (f s) (\<lambda>(r, s').
     Some (if is_panic r then Inl (projl r) else Inr (case r of Inl _ \<Rightarrow> None | Inr x \<Rightarrow> Some x), s'))"

definition sm_get :: "(state_machine \<Rightarrow> 'a) \<Rightarrow> 'a op" where
  "sm_get f s = Some (Inr (f s), s)"

definition sm_set :: "(state_machine \<Rightarrow> state_machine) \<Rightarrow> unit op" where
  "sm_set f s = Some (Inr (), f s)"

definition ask :: "(nat \<Rightarrow> 'a) \<Rightarrow> 'a op" where
  "ask f s = Some (Inr (f (cs_asked s)), s\<lparr>cs_asked := Suc (cs_asked s)\<rparr>)"

definition query :: "(view_manager \<Rightarrow> 'a result) \<Rightarrow> 'a op" where
  "query f s = Some (f (cs_view_manager s), s)"

definition on_manager :: "(view_manager \<Rightarrow> 'a result \<times> view_manager) \<Rightarrow> 'a op" where
  "on_manager f s = (case f (cs_view_manager s) of (r, m) \<Rightarrow> Some (r, s\<lparr>cs_view_manager := m\<rparr>))"

definition on_handler :: "(view_manager \<Rightarrow> ('a result \<times> view_manager) option) \<Rightarrow> 'a op" where
  "on_handler f s = map_option (\<lambda>(r, m). (r, s\<lparr>cs_view_manager := m\<rparr>)) (f (cs_view_manager s))"

text \<open>A loop over a list whose body's errors are logged.\<close>

primrec sm_each :: "('a \<Rightarrow> unit op) \<Rightarrow> 'a list \<Rightarrow> unit op" where
  "sm_each f [] = sm_ok ()"
| "sm_each f (x # xs) = sm_then (sm_try (f x)) (\<lambda>_. sm_each f xs)"

lemmas op_defs = sm_ok_def sm_result_def sm_then_def sm_try_def sm_get_def sm_set_def ask_def query_def
  on_manager_def on_handler_def

subsection \<open>Broadcasting, voting, nullifying, finalizing\<close>

text \<open>One attempt after the other as long as the ring buffer is full.\<close>

primrec push_attempts :: "world \<Rightarrow> consensus_message \<Rightarrow> nat \<Rightarrow> unit op" where
  "push_attempts W msg 0 = sm_result (Inl BroadcastFailed)"
| "push_attempts W msg (Suc n) = sm_then (ask (io_broadcast_room W)) (\<lambda>room.
     if room then sm_set (\<lambda>s. s\<lparr>cs_broadcast := cs_broadcast s @ [msg]\<rparr>)
     else push_attempts W msg n)"

definition broadcast_consensus_message :: "world \<Rightarrow> consensus_message \<Rightarrow> unit op" where
  "broadcast_consensus_message W msg = push_attempts W msg MAX_BROADCAST_ATTEMPTS"

text \<open>The responses for other views that are popped on the way are lost.\<close>

definition wait_for_proposal_response :: "world \<Rightarrow> view_no \<Rightarrow> transaction list op" where
  "wait_for_proposal_response W v = sm_then (ask (io_responses W)) (\<lambda>rs.
     sm_ok (case List.find (\<lambda>r. ps_view r = v) rs of None \<Rightarrow> [] | Some r \<Rightarrow> ps_transactions r))"

definition best_effort_notification :: "world \<Rightarrow> finalized_notification \<Rightarrow> unit op" where
  "best_effort_notification W n = sm_then (ask (io_finalized_room W)) (\<lambda>room.
     if room then sm_set (\<lambda>s. s\<lparr>cs_finalized := cs_finalized s @ [n]\<rparr>) else sm_ok ())"

definition own_vote :: "env \<Rightarrow> view_no \<Rightarrow> hash \<Rightarrow> peer_id \<Rightarrow> state_machine \<Rightarrow> vote" where
  "own_vote E v h leader s = \<lparr>v_view = v, v_block_hash = h, v_signature = bls_sign E (cs_secret_key s) h,
     v_peer_id = vm_replica_id (cs_view_manager s), v_leader_id = leader\<rparr>"

definition vote_for_block :: "env \<Rightarrow> world \<Rightarrow> view_no \<Rightarrow> hash \<Rightarrow> unit op" where
  "vote_for_block E W v h =
     sm_then (query (leader_of_view v)) (\<lambda>leader.
     sm_then (sm_get (own_vote E v h leader)) (\<lambda>vt.
     sm_then (broadcast_consensus_message W (VoteMsg vt)) (\<lambda>_.
     on_manager (vm_add_own_vote v h (v_signature vt)))))"

definition create_and_broadcast_m_notarization :: "world \<Rightarrow> view_no \<Rightarrow> hash \<Rightarrow> bool \<Rightarrow> unit op" where
  "create_and_broadcast_m_notarization W v h should_forward =
     (if should_forward
      then sm_then (query (get_m_notarization v)) (\<lambda>mn. broadcast_consensus_message W (MNotarizationMsg mn))
      else sm_ok ())"

definition sm_finalize_view :: "env \<Rightarrow> cfg \<Rightarrow> world \<Rightarrow> view_no \<Rightarrow> hash \<Rightarrow> unit op" where
  "sm_finalize_view E c W v h =
     sm_then (sm_get (\<lambda>s. ch_current_view (cs_chain s))) (\<lambda>current_view.
     if v = current_view then sm_ok ()
     else sm_then (query (get_block_tx_hashes v)) (\<lambda>finalized_txs.
          sm_then (on_handler (finalize_view E c v)) (\<lambda>_.
          best_effort_notification W \<lparr>fn_view = v, fn_tx_hashes = finalized_txs\<rparr>)))"

text \<open>What is common to the three ways to nullify: sign the message (which marks the context), send
  it, and mark the view.\<close>

definition send_nullify ::
    "world \<Rightarrow> view_no \<Rightarrow> (bls_secret_key \<Rightarrow> view_context \<Rightarrow> nullify result \<times> view_context) \<Rightarrow> unit op" where
  "send_nullify W v create =
     sm_then (sm_get cs_secret_key) (\<lambda>sk.
     sm_then (on_manager (in_view v (create sk))) (\<lambda>n.
     sm_then (broadcast_consensus_message W (NullifyMsg n)) (\<lambda>_.
     on_manager (mark_nullified v))))"

definition byzantine_evidence :: "cfg \<Rightarrow> view_context \<Rightarrow> bool" where
  "byzantine_evidence c ctx \<longleftrightarrow> vc_num_invalid_votes ctx > cF c
     \<or> vc_num_invalid_votes ctx + length (vc_nullify_messages ctx) > 2 * cF c"

definition nullify_view :: "env \<Rightarrow> cfg \<Rightarrow> world \<Rightarrow> view_no \<Rightarrow> bool \<Rightarrow> unit op" where
  "nullify_view E c W v force =
     sm_then (query (\<lambda>m. case find_view_context v (vm_view_chain m) of
         None \<Rightarrow> Inl ViewUnknown | Some ctx \<Rightarrow> Inr ctx)) (\<lambda>ctx.
     if vc_has_nullified ctx then sm_ok ()
     else if force then send_nullify W v (create_nullify_for_cascade E)
     else if vc_has_voted ctx then
       (if byzantine_evidence c ctx then send_nullify W v (create_nullify_for_byzantine E) else sm_ok ())
     else if byzantine_evidence c ctx then send_nullify W v (create_nullify_for_byzantine E)
     else send_nullify W v (create_nullify_for_timeout E))"

definition broadcast_nullification :: "world \<Rightarrow> view_no \<Rightarrow> unit op" where
  "broadcast_nullification W v =
     sm_then (query (vm_get_nullification v)) (\<lambda>n. broadcast_consensus_message W (NullificationMsg n))"

text \<open>The loop at the start of \<open>progress_to_next_view\<close>, with what is left of the limit. The next
  candidate is looked up before the limit is tested.\<close>

primrec finalize_deferred :: "env \<Rightarrow> cfg \<Rightarrow> world \<Rightarrow> nat \<Rightarrow> unit op" where
  "finalize_deferred E c W 0 =
     sm_then (sm_get (\<lambda>s. oldest_finalizable_view c (cs_chain s))) (\<lambda>found. case found of
       None \<Rightarrow> sm_ok ()
     | Some r \<Rightarrow> sm_then (sm_result r) (\<lambda>_. sm_ok ()))"
| "finalize_deferred E c W (Suc n) =
     sm_then (sm_get (\<lambda>s. oldest_finalizable_view c (cs_chain s))) (\<lambda>found. case found of
       None \<Rightarrow> sm_ok ()
     | Some r \<Rightarrow> sm_then (sm_result r) (\<lambda>(v, h).
         sm_then (sm_try (sm_finalize_view E c W v h)) (\<lambda>done. case done of
           None \<Rightarrow> sm_ok ()
         | Some _ \<Rightarrow> sm_then (sm_get (\<lambda>s. find_view_context v (cs_chain s))) (\<lambda>left.
             if left \<noteq> None then sm_ok () else finalize_deferred E c W n))))"

subsection \<open>The handlers\<close>

datatype call =
    HandleEvent view_progress_event
  | HandleMessage consensus_message
  | ProgressTo view_no peer_id hash
  | ProposeBlock view_no hash

definition process :: "env \<Rightarrow> cfg \<Rightarrow> world \<Rightarrow> consensus_message \<Rightarrow> view_progress_event op" where
  "process E c W msg = sm_then (ask (io_now W)) (\<lambda>now. on_handler (process_consensus_msg E c now msg))"

definition buffer_message :: "view_no \<Rightarrow> consensus_message \<Rightarrow> state_machine \<Rightarrow> state_machine" where
  "buffer_message v msg s = s\<lparr>cs_pending_messages := bt_insert v
     ((case map_of (cs_pending_messages s) v of None \<Rightarrow> [] | Some ms \<Rightarrow> ms) @ [msg]) (cs_pending_messages s)\<rparr>"

definition handle_consensus_message_body ::
    "env \<Rightarrow> cfg \<Rightarrow> world \<Rightarrow> (call \<Rightarrow> unit op) \<Rightarrow> consensus_message \<Rightarrow> unit op" where
  "handle_consensus_message_body E c W self msg =
     sm_then (process E c W msg) (\<lambda>event. case event of
       ShouldUpdateView new_view _ \<Rightarrow> sm_set (buffer_message new_view msg)
     | _ \<Rightarrow> self (HandleEvent event))"

text \<open>The M-notarization of the view, when there is one, is processed like a received one.\<close>

definition process_own_m_notarization ::
    "env \<Rightarrow> cfg \<Rightarrow> world \<Rightarrow> (call \<Rightarrow> unit op) \<Rightarrow> view_no \<Rightarrow> unit op" where
  "process_own_m_notarization E c W self v =
     sm_then (sm_try (query (get_m_notarization v))) (\<lambda>found. case found of
       None \<Rightarrow> sm_ok ()
     | Some mn \<Rightarrow> sm_then (sm_try (process E c W (MNotarizationMsg mn))) (\<lambda>event. case event of
         None \<Rightarrow> sm_ok ()
       | Some ev \<Rightarrow> self (HandleEvent ev)))"

definition rollback_from :: "view_no \<Rightarrow> view_no \<Rightarrow> unit op" where
  "rollback_from start_view current_view =
     sm_set (\<lambda>s. s\<lparr>cs_view_manager :=
       vm_rollback_pending_diffs_in_range start_view current_view (cs_view_manager s)\<rparr>)"

definition cascade_nullification ::
    "env \<Rightarrow> cfg \<Rightarrow> world \<Rightarrow> (call \<Rightarrow> unit op) \<Rightarrow> view_no \<Rightarrow> bool \<Rightarrow> unit op" where
  "cascade_nullification E c W self start_view should_broadcast =
     sm_then (sm_get (\<lambda>s. ch_current_view (cs_chain s))) (\<lambda>current_view.
     sm_then (if should_broadcast then sm_try (broadcast_nullification W start_view) else sm_ok None) (\<lambda>_.
     sm_then (sm_try (nullify_view E c W current_view True)) (\<lambda>_.
     sm_then (rollback_from start_view current_view) (\<lambda>_.
     sm_then (ask (io_now W)) (\<lambda>now.
     sm_then (on_manager (vm_progress_after_cascade now (current_view + 1))) (\<lambda>(leader, parent_hash).
     self (ProgressTo (current_view + 1) leader parent_hash)))))))"

definition nullify_range :: "env \<Rightarrow> cfg \<Rightarrow> world \<Rightarrow> view_no \<Rightarrow> unit op" where
  "nullify_range E c W start_view =
     sm_then (sm_get (\<lambda>s. ch_current_view (cs_chain s))) (\<lambda>current_view.
     sm_then (sm_try (nullify_view E c W current_view True)) (\<lambda>_.
     rollback_from start_view current_view))"

definition handle_event_body ::
    "env \<Rightarrow> cfg \<Rightarrow> world \<Rightarrow> (call \<Rightarrow> unit op) \<Rightarrow> view_progress_event \<Rightarrow> unit op" where
  "handle_event_body E c W self event = (case event of
      NoOp \<Rightarrow> sm_ok ()
    | Await \<Rightarrow> sm_ok ()
    | ShouldProposeBlock v parent \<Rightarrow> self (ProposeBlock v parent)
    | ShouldVote v h \<Rightarrow> vote_for_block E W v h
    | ShouldMNotarize v h forward \<Rightarrow>
        sm_then (create_and_broadcast_m_notarization W v h forward) (\<lambda>_.
        process_own_m_notarization E c W self v)
    | ShouldFinalize v h \<Rightarrow> sm_finalize_view E c W v h
    | ShouldNullify v \<Rightarrow> nullify_view E c W v False
    | ShouldBroadcastNullification v \<Rightarrow> broadcast_nullification W v
    | ShouldVoteAndMNotarize v h forward \<Rightarrow>
        sm_then (vote_for_block E W v h) (\<lambda>_.
        sm_then (create_and_broadcast_m_notarization W v h forward) (\<lambda>_.
        process_own_m_notarization E c W self v))
    | ShouldVoteAndFinalize v h \<Rightarrow>
        sm_then (vote_for_block E W v h) (\<lambda>_. sm_finalize_view E c W v h)
    | ProgressToNextView new_view leader h forward \<Rightarrow>
        sm_then (create_and_broadcast_m_notarization W (new_view - 1) h forward) (\<lambda>_.
        self (ProgressTo new_view leader h))
    | ShouldVoteAndProgressToNextView old_view h new_view leader forward \<Rightarrow>
        sm_then (vote_for_block E W old_view h) (\<lambda>_.
        sm_then (create_and_broadcast_m_notarization W old_view h forward) (\<lambda>_.
        self (ProgressTo new_view leader h)))
    | ProgressToNextViewOnNullification new_view leader parent should_broadcast \<Rightarrow>
        sm_then (if should_broadcast then broadcast_nullification W (new_view - 1) else sm_ok ()) (\<lambda>_.
        self (ProgressTo new_view leader parent))
    | ShouldUpdateView _ _ \<Rightarrow> sm_ok ()
    | ShouldNullifyView v \<Rightarrow> nullify_view E c W v False
    | BroadcastConsensusMessage msg \<Rightarrow> broadcast_consensus_message W msg
    | ShouldCascadeNullification start_view should_broadcast \<Rightarrow>
        cascade_nullification E c W self start_view should_broadcast
    | ShouldNullifyRange start_view \<Rightarrow> nullify_range E c W start_view
    | ShouldRequestBlock v h \<Rightarrow> broadcast_consensus_message W (BlockRecoveryRequest v h)
    | ShouldRequestBlocks requests \<Rightarrow>
        sm_each (\<lambda>(v, h). broadcast_consensus_message W (BlockRecoveryRequest v h)) requests)"

text \<open>The leader's signature on the hash is filled in after the block was built: it is no part of the
  hash.\<close>

definition build_block ::
    "env \<Rightarrow> view_no \<Rightarrow> hash \<Rightarrow> transaction list \<Rightarrow> u64 \<Rightarrow> state_machine \<Rightarrow> block" where
  "build_block E v parent txs timestamp s =
     (let sk = cs_secret_key s;
          b = block_new E v (vm_replica_id (cs_view_manager s)) parent txs timestamp
                (bls_sign E sk (replicate 32 0)) False v
      in b\<lparr>b_leader_signature := bls_sign E sk (get_hash E b)\<rparr>)"

text \<open>The leader's proposal counts as its vote: it is recorded without a vote message.\<close>

definition handle_own_proposal ::
    "env \<Rightarrow> cfg \<Rightarrow> world \<Rightarrow> (call \<Rightarrow> unit op) \<Rightarrow> block \<Rightarrow> view_progress_event \<Rightarrow> unit op" where
  "handle_own_proposal E c W self block event = (case event of
      ShouldVote u h \<Rightarrow> on_manager (vm_add_own_vote u h (b_leader_signature block))
    | ShouldVoteAndMNotarize u h forward \<Rightarrow>
        sm_then (on_manager (vm_add_own_vote u h (b_leader_signature block))) (\<lambda>_.
        create_and_broadcast_m_notarization W u h forward)
    | ShouldVoteAndFinalize u h \<Rightarrow>
        sm_then (on_manager (vm_add_own_vote u h (b_leader_signature block))) (\<lambda>_.
        sm_finalize_view E c W u h)
    | _ \<Rightarrow> self (HandleEvent event))"

definition send_proposal ::
    "env \<Rightarrow> cfg \<Rightarrow> world \<Rightarrow> (call \<Rightarrow> unit op) \<Rightarrow> view_no \<Rightarrow> block \<Rightarrow> unit op" where
  "send_proposal E c W self v block =
     sm_then (broadcast_consensus_message W (BlockProposal block)) (\<lambda>_.
     sm_then (process E c W (BlockProposal block)) (\<lambda>event.
     sm_then (handle_own_proposal E c W self block event) (\<lambda>_.
     on_manager (mark_proposed v))))"

definition propose_block_body ::
    "env \<Rightarrow> cfg \<Rightarrow> world \<Rightarrow> (call \<Rightarrow> unit op) \<Rightarrow> view_no \<Rightarrow> hash \<Rightarrow> unit op" where
  "propose_block_body E c W self v parent =
     sm_then (ask (io_timestamp W)) (\<lambda>time.
     sm_then (sm_result (case time of None \<Rightarrow> Inl (Panic UnwrapOnNone) | Some t \<Rightarrow> Inr t)) (\<lambda>timestamp.
     sm_then (ask (io_request_room W)) (\<lambda>room.
     sm_then (if room then sm_set (\<lambda>s. s\<lparr>cs_proposal_requests := cs_proposal_requests s @
                [\<lparr>pr_view = v, pr_max_txs = MAX_TRANSACTIONS_PER_BLOCK,
                  pr_max_bytes = MAX_BLOCK_SIZE_BYTES, pr_parent_block_hash = parent\<rparr>]\<rparr>)
              else sm_result (Inl ChannelFull)) (\<lambda>_.
     sm_then (wait_for_proposal_response W v) (\<lambda>transactions.
     sm_then (sm_get (build_block E v parent transactions timestamp)) (\<lambda>block.
     send_proposal E c W self v block))))))"

text \<open>The buffered messages of one view are taken out before they are replayed.\<close>

definition replay_messages :: "(call \<Rightarrow> unit op) \<Rightarrow> view_no \<Rightarrow> unit op" where
  "replay_messages self v =
     sm_then (sm_get (\<lambda>s. map_of (cs_pending_messages s) v)) (\<lambda>found. case found of
       None \<Rightarrow> sm_ok ()
     | Some messages \<Rightarrow>
         sm_then (sm_set (\<lambda>s. s\<lparr>cs_pending_messages := AList.delete v (cs_pending_messages s)\<rparr>)) (\<lambda>_.
         sm_each (\<lambda>msg. self (HandleMessage msg)) messages))"

definition buffered_views :: "view_no \<Rightarrow> state_machine \<Rightarrow> view_no list" where
  "buffered_views v s = filter (\<lambda>u. u \<le> v) (map fst (cs_pending_messages s))"

definition progress_to_next_view_body ::
    "env \<Rightarrow> cfg \<Rightarrow> world \<Rightarrow> (call \<Rightarrow> unit op) \<Rightarrow> view_no \<Rightarrow> peer_id \<Rightarrow> hash \<Rightarrow> unit op" where
  "progress_to_next_view_body E c W self v leader h =
     sm_then (finalize_deferred E c W MAX_FINALIZATIONS_PER_PASS) (\<lambda>_.
     sm_then (sm_get (buffered_views v)) (\<lambda>pending_views.
     sm_then (sm_each (replay_messages self) pending_views) (\<lambda>_.
     sm_then (sm_get (\<lambda>s. vm_replica_id (cs_view_manager s))) (\<lambda>replica_id.
     if replica_id = leader then self (ProposeBlock v h) else sm_ok ()))))"

subsection \<open>Closing the recursion\<close>

definition body :: "env \<Rightarrow> cfg \<Rightarrow> world \<Rightarrow> (call \<Rightarrow> unit op) \<Rightarrow> call \<Rightarrow> unit op" where
  "body E c W self call = (case call of
      HandleEvent event \<Rightarrow> handle_event_body E c W self event
    | HandleMessage msg \<Rightarrow> handle_consensus_message_body E c W self msg
    | ProgressTo v leader h \<Rightarrow> progress_to_next_view_body E c W self v leader h
    | ProposeBlock v parent \<Rightarrow> propose_block_body E c W self v parent)"

text \<open>The operations are monotone in their recursive calls.\<close>

definition op_mono :: "((call \<Rightarrow> unit op) \<Rightarrow> 'a op) \<Rightarrow> bool" where
  "op_mono F \<longleftrightarrow> (\<forall>f g. (\<forall>call s. option_ord (f call s) (g call s)) \<longrightarrow> (\<forall>s. option_ord (F f s) (F g s)))"

lemma op_mono_const: "op_mono (\<lambda>f. a)"
  by (simp add: op_mono_def flat_ord_def)

lemma op_mono_self: "op_mono (\<lambda>f. f call)"
  by (simp add: op_mono_def)

lemma op_mono_cases:
  assumes "op_mono F" and "\<forall>call s. option_ord (f call s) (g call s)"
  obtains "F f s = None" | q where "F f s = Some q" "F g s = Some q"
  using assms unfolding op_mono_def flat_ord_def by (cases "F f s") metis+

lemma op_mono_then:
  assumes "op_mono F" and "\<And>x. op_mono (\<lambda>f. G f x)"
  shows "op_mono (\<lambda>f. sm_then (F f) (G f))"
  unfolding op_mono_def
proof (intro allI impI)
  fix f g :: "call \<Rightarrow> unit op" and s assume le: "\<forall>call s. option_ord (f call s) (g call s)"
  from assms(2) le have "option_ord (G f x t) (G g x t)" for x t by (simp add: op_mono_def)
  with op_mono_cases [OF assms(1) le, of s] show "option_ord (sm_then (F f) (G f) s) (sm_then (F g) (G g) s)"
    by cases (auto simp: sm_then_def flat_ord_def split: sum.split prod.split)
qed

lemma op_mono_try:
  assumes "op_mono F"
  shows "op_mono (\<lambda>f. sm_try (F f))"
  unfolding op_mono_def
proof (intro allI impI)
  fix f g :: "call \<Rightarrow> unit op" and s assume le: "\<forall>call s. option_ord (f call s) (g call s)"
  from op_mono_cases [OF assms le, of s] show "option_ord (sm_try (F f) s) (sm_try (F g) s)"
    by cases (auto simp: sm_try_def flat_ord_def)
qed

lemma op_mono_each: "(\<And>x. op_mono (\<lambda>f. F f x)) \<Longrightarrow> op_mono (\<lambda>f. sm_each (F f) xs)"
  by (induction xs) (simp_all add: op_mono_const op_mono_then op_mono_try)

lemma op_mono_option:
  "op_mono a \<Longrightarrow> (\<And>x. op_mono (\<lambda>f. b f x)) \<Longrightarrow> op_mono (\<lambda>f. case r of None \<Rightarrow> a f | Some x \<Rightarrow> b f x)"
  by (cases r) simp_all

lemmas op_mono_intros = op_mono_self op_mono_then op_mono_try op_mono_each op_mono_option op_mono_const

lemma op_mono_if: "op_mono F \<Longrightarrow> op_mono G \<Longrightarrow> op_mono (\<lambda>f. if b then F f else G f)"
  by (cases b) simp_all

lemma op_mono_case_prod: "(\<And>x y. op_mono (\<lambda>f. F f x y)) \<Longrightarrow> op_mono (\<lambda>f. case p of (x, y) \<Rightarrow> F f x y)"
  by (cases p) simp

lemma op_mono_handlers:
  "op_mono (\<lambda>f. handle_consensus_message_body E c W f msg)"
  "op_mono (\<lambda>f. process_own_m_notarization E c W f v)"
  "op_mono (\<lambda>f. cascade_nullification E c W f v fwd)"
  "op_mono (\<lambda>f. replay_messages f v)"
  "op_mono (\<lambda>f. propose_block_body E c W f v h)"
  subgoal unfolding handle_consensus_message_body_def
  proof (rule op_mono_then [OF op_mono_const])
    fix ev show "op_mono (\<lambda>f. case ev of ShouldUpdateView new_view l \<Rightarrow> sm_set (buffer_message new_view msg)
        | _ \<Rightarrow> f (HandleEvent ev))"
      by (cases ev) (simp_all add: op_mono_self op_mono_const)
  qed
  subgoal unfolding process_own_m_notarization_def by (intro op_mono_intros)
  subgoal unfolding cascade_nullification_def by (intro op_mono_case_prod op_mono_then op_mono_const op_mono_self)
  subgoal unfolding replay_messages_def by (intro op_mono_then op_mono_option op_mono_each op_mono_self op_mono_const)
  subgoal unfolding propose_block_body_def send_proposal_def
  proof ((rule op_mono_then [OF op_mono_const])+, rule op_mono_then [OF _ op_mono_const])
    fix b :: block and ev
    show "op_mono (\<lambda>f. handle_own_proposal E c W f b ev)"
      by (cases ev) (simp_all add: handle_own_proposal_def op_mono_self op_mono_const)
  qed
  done

lemma op_mono_progress: "op_mono (\<lambda>f. progress_to_next_view_body E c W f v l h)"
  unfolding progress_to_next_view_body_def
  by (intro op_mono_if op_mono_then op_mono_each op_mono_self op_mono_const op_mono_handlers)

lemma op_mono_event: "op_mono (\<lambda>f. handle_event_body E c W f ev)"
  by (cases ev) (simp_all add: handle_event_body_def op_mono_const op_mono_self op_mono_then op_mono_handlers)

lemma op_mono_body: "op_mono (\<lambda>f. body E c W f call)"
  by (cases call) (simp_all add: body_def op_mono_event op_mono_handlers op_mono_progress)

lemma body_mono [partial_function_mono]:
  assumes "\<And>k t. mono_option (\<lambda>f. F f k t)"
  shows "mono_option (\<lambda>f. body E c W (F f) call s)"
proof (rule monotoneI)
  fix f g :: "'a \<Rightarrow> 'b option" assume "option.le_fun f g"
  with assms have "option_ord (F f k t) (F g k t)" for k t by (auto dest: monotoneD)
  with op_mono_body [of E c W call] show "option_ord (body E c W (F f) call s) (body E c W (F g) call s)"
    by (simp add: op_mono_def)
qed

partial_function (option) exec :: "env \<Rightarrow> cfg \<Rightarrow> world \<Rightarrow> call \<Rightarrow> unit op" where
  "exec E c W call s = body E c W (exec E c W) call s"

declare exec.simps [code]

abbreviation handle_event :: "env \<Rightarrow> cfg \<Rightarrow> world \<Rightarrow> view_progress_event \<Rightarrow> unit op" where
  "handle_event E c W event \<equiv> exec E c W (HandleEvent event)"

abbreviation handle_consensus_message :: "env \<Rightarrow> cfg \<Rightarrow> world \<Rightarrow> consensus_message \<Rightarrow> unit op" where
  "handle_consensus_message E c W msg \<equiv> exec E c W (HandleMessage msg)"

definition handle_tick :: "env \<Rightarrow> cfg \<Rightarrow> world \<Rightarrow> unit op" where
  "handle_tick E c W =
     sm_then (ask (io_now W)) (\<lambda>now.
     sm_then (on_manager (tick E c now)) (\<lambda>event. handle_event E c W event))"

text \<open>The loop of \<open>run\<close>, up to some point or to the shutdown, for the messages and ticks that occur:
  errors are logged.\<close>

datatype input = Message consensus_message | Tick

definition handle_input :: "env \<Rightarrow> cfg \<Rightarrow> world \<Rightarrow> input \<Rightarrow> unit op" where
  "handle_input E c W i = (case i of Message msg \<Rightarrow> handle_consensus_message E c W msg | Tick \<Rightarrow> handle_tick E c W)"

definition run :: "env \<Rightarrow> cfg \<Rightarrow> world \<Rightarrow> input list \<Rightarrow> unit op" where
  "run E c W inputs = sm_each (handle_input E c W) inputs"

definition sm_shutdown :: "env \<Rightarrow> unit op" where
  "sm_shutdown E = sm_then (sm_set (\<lambda>s. s\<lparr>cs_shutdown_signal := True\<rparr>)) (\<lambda>_. on_manager (shutdown E))"

end
