(* ===== verification/Machine_Safety.thy ===== *)
theory Machine_Safety
  imports State_Machine
begin

text \<open>
  What a replica that runs the code does to the network: in every run of the state machine, whatever
  messages and ticks arrive and whichever channels are full, the manager only takes its own steps,
  and the votes and nullify messages that go out never contradict each other.
\<close>

subsection \<open>Invariants of operations\<close>

lemma sm_then_cases:
  assumes "sm_then f g s = Some (r, s')"
  obtains e where "f s = Some (Inl e, s')" "r = Inl e"
  | x s1 where "f s = Some (Inr x, s1)" "g x s1 = Some (r, s')"
proof -
  obtain r0 s0 where "f s = Some (r0, s0)" using assms by (auto simp: sm_then_def bind_eq_Some_conv)
  with assms that show ?thesis by (cases r0) (auto simp: sm_then_def)
qed

lemma sm_try_cases:
  assumes "sm_try f s = Some (r, s')"
  obtains e where "f s = Some (Inl e, s')" "r = (if is_panic (Inl e :: unit result) then Inl e else Inr None)"
  | x where "f s = Some (Inr x, s')" "r = Inr (Some x)"
proof -
  obtain r0 where r0: "f s = Some (r0, s')" using assms by (auto simp: sm_try_def bind_eq_Some_conv)
  with assms that show ?thesis by (cases r0) (auto simp: sm_try_def is_panic_def)
qed

text \<open>An invariant of the state machine that does not depend on how many questions the world was
  asked. \<open>keeps P f\<close>: when \<open>f\<close> starts in a state with the invariant and \<open>P\<close>, and returns, with or
  without an error, the invariant holds again.\<close>

locale op_invariant =
  fixes I :: "state_machine \<Rightarrow> bool"
  assumes asked: "I (s\<lparr>cs_asked := n\<rparr>) = I s"
begin

definition keeps :: "(state_machine \<Rightarrow> bool) \<Rightarrow> 'a op \<Rightarrow> bool" where
  "keeps Pre f \<longleftrightarrow> (\<forall>s r s'. I s \<longrightarrow> Pre s \<longrightarrow> f s = Some (r, s') \<longrightarrow> I s')"

abbreviation always :: "'a op \<Rightarrow> bool" where
  "always \<equiv> keeps (\<lambda>_. True)"

lemma keepsI: "(\<And>s r s'. I s \<Longrightarrow> Pre s \<Longrightarrow> f s = Some (r, s') \<Longrightarrow> I s') \<Longrightarrow> keeps Pre f"
  by (auto simp: keeps_def)

lemma keepsD: "keeps Pre f \<Longrightarrow> I s \<Longrightarrow> Pre s \<Longrightarrow> f s = Some (r, s') \<Longrightarrow> I s'"
  by (auto simp: keeps_def)

lemma keeps_mono: "keeps Q f \<Longrightarrow> (\<And>s. Pre s \<Longrightarrow> Q s) \<Longrightarrow> keeps Pre f"
  by (auto simp: keeps_def)

lemma keeps_ok: "keeps Pre (sm_ok x)"
  by (simp add: keeps_def sm_ok_def)

lemma keeps_result: "keeps Pre (sm_result r)"
  by (simp add: keeps_def sm_result_def)

lemma keeps_get: "keeps Pre (sm_get f)"
  by (simp add: keeps_def sm_get_def)

lemma keeps_query: "keeps Pre (query f)"
  by (simp add: keeps_def query_def)

lemma keeps_ask: "keeps Pre (ask f)"
  by (auto simp: keeps_def ask_def asked)

lemma keeps_set: "(\<And>s. I s \<Longrightarrow> Pre s \<Longrightarrow> I (f s)) \<Longrightarrow> keeps Pre (sm_set f)"
  by (auto simp: keeps_def sm_set_def)

lemma keeps_manager:
  "(\<And>s. I s \<Longrightarrow> Pre s \<Longrightarrow> I (s\<lparr>cs_view_manager := snd (f (cs_view_manager s))\<rparr>)) \<Longrightarrow> keeps Pre (on_manager f)"
  by (fastforce simp: keeps_def on_manager_def split: prod.splits)

lemma keeps_handler:
  "(\<And>s r m. I s \<Longrightarrow> Pre s \<Longrightarrow> f (cs_view_manager s) = Some (r, m) \<Longrightarrow> I (s\<lparr>cs_view_manager := m\<rparr>))
   \<Longrightarrow> keeps Pre (on_handler f)"
  by (fastforce simp: keeps_def on_handler_def)

lemma keeps_then: "keeps Pre f \<Longrightarrow> (\<And>x. always (g x)) \<Longrightarrow> keeps Pre (sm_then f g)"
  by (rule keepsI) (auto elim!: sm_then_cases dest: keepsD)

text \<open>A step that only looks at the state gives the rest what it saw.\<close>

lemma keeps_get_then: "(\<And>x. keeps (\<lambda>s. Pre s \<and> x = f s) (g x)) \<Longrightarrow> keeps Pre (sm_then (sm_get f) g)"
  by (fastforce simp: keeps_def sm_then_def sm_get_def)

lemma keeps_query_then:
  "(\<And>x. keeps (\<lambda>s. Pre s \<and> f (cs_view_manager s) = Inr x) (g x)) \<Longrightarrow> keeps Pre (sm_then (query f) g)"
  by (fastforce simp: keeps_def sm_then_def query_def split: sum.splits)

lemma keeps_try: "keeps Pre f \<Longrightarrow> keeps Pre (sm_try f)"
  by (rule keepsI) (auto elim!: sm_try_cases dest: keepsD)

lemma always_each: "(\<And>x. always (f x)) \<Longrightarrow> always (sm_each f xs)"
  by (induction xs) (auto intro: keeps_ok keeps_then keeps_try)

lemma keeps_if: "(b \<Longrightarrow> keeps Pre f) \<Longrightarrow> (\<not> b \<Longrightarrow> keeps Pre g) \<Longrightarrow> keeps Pre (if b then f else g)"
  by simp

lemma keeps_option:
  "keeps Pre f \<Longrightarrow> (\<And>x. keeps Pre (g x)) \<Longrightarrow> keeps Pre (case r of None \<Rightarrow> f | Some x \<Rightarrow> g x)"
  by (cases r) simp_all

lemma keeps_prod: "(\<And>x y. keeps Pre (g x y)) \<Longrightarrow> keeps Pre (case p of (x, y) \<Rightarrow> g x y)"
  by (cases p) simp

lemmas keeps_intros = keeps_ok keeps_result keeps_get keeps_query keeps_ask keeps_try keeps_if keeps_option
  keeps_prod always_each keeps_then

text \<open>The invariant of the recursive handlers, from that of their bodies.\<close>

lemma exec_keeps:
  assumes "\<And>self call. (\<And>k. keeps (Pre k) (self k)) \<Longrightarrow> keeps (Pre call) (body E c W self call)"
  shows "keeps (Pre call) (exec E c W call)"
proof (rule keepsI)
  fix s r s' assume I: "I s" and pre: "Pre call s" and ret: "exec E c W call s = Some (r, s')"
  have "E' = E \<longrightarrow> c' = c \<longrightarrow> W' = W \<longrightarrow> I t \<longrightarrow> Pre k t \<longrightarrow> I (snd q)"
    if "exec E' c' W' k t = Some q" for E' c' W' k t q
    using that
  proof (induction rule: exec.raw_induct [rotated 1, consumes 1, case_names step])
    case (step rec E' c' W' k t q)
    show ?case
    proof (intro impI)
      assume eqs: "E' = E" "c' = c" "W' = W" and I: "I t" and pre: "Pre k t"
      have "keeps (Pre k') (rec E c W k')" for k'
      proof (rule keepsI)
        fix s r s' assume "I s" "Pre k' s" "rec E c W k' s = Some (r, s')"
        with step(1) [of E c W k' s "(r, s')"] show "I s'" by simp
      qed
      from keepsD [OF assms [of "rec E c W" k, OF this] I pre] step(2) show "I (snd q)"
        by (metis eqs prod.collapse)
    qed
  qed
  with ret I pre show "I s'" by fastforce
qed

end

subsection \<open>What a step of the manager keeps\<close>

text \<open>The flags that record what the replica did in a view are never reset, and no view comes back.\<close>

definition flags_le :: "view_context \<Rightarrow> view_context \<Rightarrow> bool" where
  "flags_le ctx ctx' \<longleftrightarrow> (vc_has_voted ctx \<longrightarrow> vc_has_voted ctx') \<and> (vc_has_nullified ctx \<longrightarrow> vc_has_nullified ctx')"

definition tracks :: "view_chain \<Rightarrow> view_chain \<Rightarrow> bool" where
  "tracks s t \<longleftrightarrow> ch_current_view s \<le> ch_current_view t
     \<and> (\<forall>v ctx'. map_of (ch_views t) v = Some ctx' \<longrightarrow> v \<le> ch_current_view s \<longrightarrow>
          (\<exists>ctx. map_of (ch_views s) v = Some ctx \<and> flags_le ctx ctx'))"

lemma tracks_refl: "ch_views t = ch_views s \<Longrightarrow> ch_current_view t = ch_current_view s \<Longrightarrow> tracks s t"
  by (auto simp: tracks_def flags_le_def)

lemma quiet_tracks:
  assumes "quiet me lm s t"
  shows "tracks s t"
  unfolding tracks_def
proof (intro conjI allI impI)
  fix v ctx' assume v: "map_of (ch_views t) v = Some ctx'" "v \<le> ch_current_view s"
  from quietD [OF assms v(1)] v(2) show "\<exists>ctx. map_of (ch_views s) v = Some ctx \<and> flags_le ctx ctx'"
    by (auto simp: flag_kept_def flags_le_def same_flags_def own_flags_def)
qed (use assms in \<open>simp add: quiet_def\<close>)

lemma tracks_set_ctx:
  "map_of (ch_views s) v = Some ctx \<Longrightarrow> flags_le ctx ctx' \<Longrightarrow> ch_views t = AList.update v ctx' (ch_views s)
   \<Longrightarrow> ch_current_view t = ch_current_view s \<Longrightarrow> tracks s t"
  by (auto simp: tracks_def update_conv' flags_le_def)

lemma moves_tracks:
  assumes "moves E c m m'" and "ark_laws E r" and "vm_inv E m"
  shows "same_replica m m' \<and> tracks (vm_view_chain m) (vm_view_chain m')"
  using moves_inv [OF assms] assms(1) by (auto simp: moves_def intro: quiet_tracks)

lemma in_view_tracks:
  assumes "\<And>ctx. flags_le ctx (snd (f ctx))"
  shows "same_replica m (snd (in_view v f m)) \<and> tracks (vm_view_chain m) (vm_view_chain (snd (in_view v f m)))"
  using assms
  by (auto simp: in_view_def on_chain_def find_view_context_def same_replica_def
      intro: tracks_refl tracks_set_ctx split: option.splits prod.splits)
    (metis snd_conv set_ctx_sel tracks_set_ctx)

lemma create_nullify_flags:
  "flags_le ctx (snd (create_nullify_for_timeout E sk ctx))"
  "flags_le ctx (snd (create_nullify_for_byzantine E sk ctx))"
  "flags_le ctx (snd (create_nullify_for_cascade E sk ctx))"
  "flags_le ctx (snd (add_own_vote h sig ctx))"
  by (simp_all add: flags_le_def create_nullify_for_timeout_def create_nullify_for_byzantine_def
      create_nullify_for_cascade_def create_nullify_message_def add_own_vote_def)

lemma mark_tracks:
  "same_replica m (snd (mark_proposed v m)) \<and> tracks (vm_view_chain m) (vm_view_chain (snd (mark_proposed v m)))"
  "same_replica m (snd (mark_nullified v m)) \<and> tracks (vm_view_chain m) (vm_view_chain (snd (mark_nullified v m)))"
proof -
  have 1: "tracks s (set_ctx v (ctx\<lparr>vc_has_proposed := True\<rparr>) s)" if "map_of (ch_views s) v = Some ctx" for s v ctx
    by (rule tracks_set_ctx [OF that]) (simp_all add: flags_le_def)
  have 2: "tracks s (remove_pending_diff v (set_ctx v (ctx\<lparr>vc_has_nullified := True\<rparr>) s))"
    if "map_of (ch_views s) v = Some ctx" for s v ctx
    by (rule tracks_set_ctx [OF that]) (simp_all add: flags_le_def remove_pending_diff_def)
  show "same_replica m (snd (mark_proposed v m)) \<and> tracks (vm_view_chain m) (vm_view_chain (snd (mark_proposed v m)))"
    by (auto simp: mark_proposed_def on_chain_def current_def same_replica_def
        intro: tracks_refl 1 split: option.splits)
  show "same_replica m (snd (mark_nullified v m)) \<and> tracks (vm_view_chain m) (vm_view_chain (snd (mark_nullified v m)))"
    by (auto simp: mark_nullified_def on_chain_def find_view_context_def same_replica_def
        intro: tracks_refl 2 split: option.splits)
qed

lemma vm_step_tracks:
  assumes "vm_step E c m m'" and "ark_laws E r" and "vm_inv E m"
  shows "same_replica m m' \<and> tracks (vm_view_chain m) (vm_view_chain m')"
  using assms
proof (induction rule: vm_step.induct)
  case (own_vote m pk h sig v)
  then show ?case unfolding vm_add_own_vote_def by (intro in_view_tracks create_nullify_flags)
next
  case (finalize v m r m')
  then show ?case using moves_tracks finalize_view_moves by blast
next
  case (cascade m now v)
  then show ?case using moves_tracks cascade_moves by blast
next
  case (rollback m v u)
  then show ?case using moves_tracks rollback_moves by blast
next
  case (msg now msg m r m')
  then show ?case using moves_tracks process_consensus_msg_moves by blast
next
  case (tick now m r m')
  then show ?case using moves_tracks tick_moves by blast
next
  case (validated b d m r m')
  then show ?case using moves_tracks process_validated_block_moves by blast
qed (simp_all only: in_view_tracks create_nullify_flags mark_tracks)

lemma vm_steps_replica:
  assumes "(vm_step E c)\<^sup>*\<^sup>* m m'" and "ark_laws E r" and "vm_inv E m"
  shows "vm_inv E m' \<and> same_replica m m'"
  using assms(1)
proof (induction rule: rtranclp_induct)
  case (step m1 m2)
  then show ?case
    using vm_step_inv [OF step(2) assms(2)] vm_step_tracks [OF step(2) assms(2)] by (auto simp: same_replica_def)
qed (use assms(3) in \<open>simp add: same_replica_def\<close>)

subsection \<open>What the replica may have broadcast\<close>

text \<open>Two messages of an honest replica, in the order in which it sent them: it votes at most once
  and nullifies at most once in a view, and it does not vote in a view after it nullified it.\<close>

fun compatible :: "consensus_message \<Rightarrow> consensus_message \<Rightarrow> bool" where
  "compatible (VoteMsg x) (VoteMsg y) = (v_view x \<noteq> v_view y)"
| "compatible (NullifyMsg x) (NullifyMsg y) = (nf_view x \<noteq> nf_view y)"
| "compatible (NullifyMsg x) (VoteMsg y) = (nf_view x \<noteq> v_view y)"
| "compatible _ _ = True"

text \<open>The view contexts record what was sent.\<close>

fun recorded :: "view_chain \<Rightarrow> consensus_message \<Rightarrow> bool" where
  "recorded s (VoteMsg x) = (v_view x \<le> ch_current_view s \<and> pred_option vc_has_voted (map_of (ch_views s) (v_view x)))"
| "recorded s (NullifyMsg x) =
     (nf_view x \<le> ch_current_view s \<and> pred_option vc_has_nullified (map_of (ch_views s) (nf_view x)))"
| "recorded _ _ = True"

text \<open>Votes and nullify messages carry the replica's own identity and signature, and name the
  scheduled leader.\<close>

definition scheduled_leader :: "view_manager \<Rightarrow> view_no \<Rightarrow> peer_id \<Rightarrow> bool" where
  "scheduled_leader m v l \<longleftrightarrow> map_sum id l_peer_id (leader_for_view (vm_leader_manager m) v) = Inr l"

fun authentic :: "env \<Rightarrow> bls_secret_key \<Rightarrow> view_manager \<Rightarrow> consensus_message \<Rightarrow> bool" where
  "authentic E sk m (VoteMsg x) = (v_peer_id x = vm_replica_id m \<and> vote_verify E x (public_key E sk)
     \<and> scheduled_leader m (v_view x) (v_leader_id x))"
| "authentic E sk m (NullifyMsg x) = (nf_peer_id x = vm_replica_id m \<and> nullify_verify E x (public_key E sk)
     \<and> scheduled_leader m (nf_view x) (nf_leader_id x))"
| "authentic _ _ _ _ = True"

definition is_own :: "consensus_message \<Rightarrow> bool" where
  "is_own msg = (case msg of VoteMsg _ \<Rightarrow> True | NullifyMsg _ \<Rightarrow> True | _ \<Rightarrow> False)"

lemma not_own:
  assumes "\<not> is_own msg"
  shows "compatible x msg" and "recorded s msg" and "authentic E sk m msg"
  using assms by (cases msg; cases x; simp add: is_own_def)+

definition honest_setup :: "env \<Rightarrow> view_manager \<Rightarrow> bls_secret_key \<Rightarrow> bool" where
  "honest_setup E m sk \<longleftrightarrow> (\<exists>r. ark_laws E r) \<and> vm_inv E m
     \<and> get_public_key (vm_peers m) (vm_replica_id m) = Inr (public_key E sk)"

definition sm_inv :: "env \<Rightarrow> cfg \<Rightarrow> view_manager \<Rightarrow> bls_secret_key \<Rightarrow> state_machine \<Rightarrow> bool" where
  "sm_inv E c m0 sk s \<longleftrightarrow> honest_setup E m0 sk \<and> cs_secret_key s = sk
     \<and> (vm_step E c)\<^sup>*\<^sup>* m0 (cs_view_manager s) \<and> sorted_wrt compatible (cs_broadcast s)
     \<and> (\<forall>msg \<in> set (cs_broadcast s). recorded (cs_chain s) msg \<and> authentic E sk m0 msg)"

lemma recorded_tracks: "tracks s t \<Longrightarrow> recorded s msg \<Longrightarrow> recorded t msg"
  by (cases msg) (fastforce simp: tracks_def flags_le_def option.pred_set)+

lemma sm_inv_replica:
  assumes "sm_inv E c m0 sk s"
  shows "vm_inv E (cs_view_manager s)" and "same_replica m0 (cs_view_manager s)"
    and "get_public_key (vm_peers (cs_view_manager s)) (vm_replica_id (cs_view_manager s)) = Inr (public_key E sk)"
    and "\<exists>r. ark_laws E r"
  using assms vm_steps_replica [of E c m0 "cs_view_manager s"]
  by (auto simp: sm_inv_def honest_setup_def same_replica_def)

lemma sm_inv_step:
  assumes "sm_inv E c m0 sk s" and "vm_step E c (cs_view_manager s) m"
  shows "sm_inv E c m0 sk (s\<lparr>cs_view_manager := m\<rparr>)"
proof -
  from sm_inv_replica(4) [OF assms(1)] obtain r where "ark_laws E r" by blast
  from vm_step_tracks [OF assms(2) this sm_inv_replica(1) [OF assms(1)]]
  have "tracks (cs_chain s) (vm_view_chain m)" by simp
  with assms show ?thesis by (auto simp: sm_inv_def intro: recorded_tracks)
qed

interpretation smi: op_invariant "sm_inv E c m0 sk" for E c m0 sk
  by unfold_locales (simp add: sm_inv_def)

subsection \<open>The operations keep the invariant\<close>

lemma push_attempts_cases:
  assumes "push_attempts W msg n s = Some (r, s')"
  obtains k where "r = Inl BroadcastFailed" "s' = s\<lparr>cs_asked := k\<rparr>"
  | k where "r = Inr ()" "s' = s\<lparr>cs_broadcast := cs_broadcast s @ [msg], cs_asked := k\<rparr>"
proof -
  have "(\<exists>k. r = Inl BroadcastFailed \<and> s' = s\<lparr>cs_asked := k\<rparr>)
      \<or> (\<exists>k. r = Inr () \<and> s' = s\<lparr>cs_broadcast := cs_broadcast s @ [msg], cs_asked := k\<rparr>)"
    using assms
  proof (induction n arbitrary: s)
    case (Suc n)
    show ?case
    proof (cases "io_broadcast_room W (cs_asked s)")
      case True
      with Suc(2) have "r = Inr () \<and> s' = s\<lparr>cs_broadcast := cs_broadcast s @ [msg], cs_asked := Suc (cs_asked s)\<rparr>"
        by (auto simp: sm_then_def ask_def sm_set_def)
      then show ?thesis by blast
    next
      case False
      with Suc(2) have "push_attempts W msg n (s\<lparr>cs_asked := Suc (cs_asked s)\<rparr>) = Some (r, s')"
        by (simp add: sm_then_def ask_def)
      from Suc(1) [OF this] show ?thesis by auto
    qed
  qed (simp add: sm_result_def, metis state_machine.surjective state_machine.update_convs(8))
  with that show thesis by blast
qed

lemma broadcast_cases:
  assumes "broadcast_consensus_message W msg s = Some (r, s')"
  obtains k where "r = Inl BroadcastFailed" "s' = s\<lparr>cs_asked := k\<rparr>"
  | k where "r = Inr ()" "s' = s\<lparr>cs_broadcast := cs_broadcast s @ [msg], cs_asked := k\<rparr>"
  using assms unfolding broadcast_consensus_message_def by (rule push_attempts_cases)

lemma sm_inv_send:
  assumes "sm_inv E c m0 sk s" and "\<not> is_own msg"
  shows "sm_inv E c m0 sk (s\<lparr>cs_broadcast := cs_broadcast s @ [msg]\<rparr>)"
  using assms not_own [OF assms(2)] by (auto simp: sm_inv_def sorted_wrt_append)

lemma broadcast_keeps:
  assumes "\<not> is_own msg"
  shows "smi.keeps E c m0 sk Pre (broadcast_consensus_message W msg)"
proof (rule smi.keepsI)
  fix s r s' assume I: "sm_inv E c m0 sk s" and b: "broadcast_consensus_message W msg s = Some (r, s')"
  from b show "sm_inv E c m0 sk s'"
    by (cases rule: broadcast_cases) (use I sm_inv_send [OF I assms] in \<open>auto simp: smi.asked sm_inv_def\<close>)
qed

text \<open>A message of the replica's own, and the change of the view's context that goes with it.\<close>

lemma sm_inv_send_own:
  assumes I: "sm_inv E c m0 sk s" and st: "vm_step E c (cs_view_manager s) m"
    and "authentic E sk m0 msg" and "recorded (vm_view_chain m) msg"
    and "\<And>x. x \<in> set (cs_broadcast s) \<Longrightarrow> recorded (cs_chain s) x \<Longrightarrow> compatible x msg"
  shows "sm_inv E c m0 sk (s\<lparr>cs_view_manager := m, cs_broadcast := cs_broadcast s @ [msg]\<rparr>)"
  using sm_inv_step [OF I st] assms by (auto simp: sm_inv_def sorted_wrt_append)

lemma vote_compatible:
  assumes "recorded s x" and "map_of (ch_views s) (v_view vt) = Some ctx"
    and "\<not> vc_has_voted ctx" and "\<not> vc_has_nullified ctx"
  shows "compatible x (VoteMsg vt)"
  using assms by (cases x) auto

lemma nullify_compatible:
  assumes "recorded s x" and "map_of (ch_views s) (nf_view n) = Some ctx" and "\<not> vc_has_nullified ctx"
  shows "compatible x (NullifyMsg n)"
  using assms by (cases x) auto

lemma sm_inv_context:
  assumes "sm_inv E c m0 sk s" and "map_of (ch_views (cs_chain s)) v = Some ctx"
  shows "v \<le> ch_current_view (cs_chain s)" and "vc_view_number ctx = v"
    and "vc_replica_id ctx = vm_replica_id m0" and "scheduled_leader m0 v (vc_leader_id ctx)"
    and "vm_replica_id (cs_view_manager s) = vm_replica_id m0"
proof -
  note r = sm_inv_replica [OF assms(1)]
  from ch_invD [OF _ assms(2), of E] r(1) show "v \<le> ch_current_view (cs_chain s)" "vc_view_number ctx = v"
    by (auto simp: vm_inv_def ctx_ok_def)
  from ownedD [OF _ assms(2)] r(1,2) show "vc_replica_id ctx = vm_replica_id m0"
    "scheduled_leader m0 v (vc_leader_id ctx)" "vm_replica_id (cs_view_manager s) = vm_replica_id m0"
    by (auto simp: vm_inv_def scheduled_def scheduled_leader_def same_replica_def)
qed

lemma own_vote_step:
  assumes "sm_inv E c m0 sk s"
  shows "vm_step E c (cs_view_manager s) (snd (vm_add_own_vote v h (bls_sign E sk h) (cs_view_manager s)))"
  using sm_inv_replica(3,4) [OF assms] sign_then_verify by (blast intro: vm_step.own_vote)

lemma own_vote_effect:
  assumes "map_of (ch_views (vm_view_chain m)) v = Some ctx" and "ready_to_vote h ctx"
  shows "\<exists>ctx'. vm_add_own_vote v h sig m = (Inr (), m\<lparr>vm_view_chain := set_ctx v ctx' (vm_view_chain m)\<rparr>)
    \<and> vc_has_voted ctx'"
  using assms
  by (auto simp: vm_add_own_vote_def in_view_def on_chain_def find_view_context_def add_own_vote_def ready_to_vote_def)

lemma vote_for_block_keeps:
  "smi.keeps E c m0 sk (\<lambda>s. vote_ready v h (cs_chain s)) (vote_for_block E W v h)"
proof (rule smi.keepsI)
  fix s r s' assume I: "sm_inv E c m0 sk s" and ready: "vote_ready v h (cs_chain s)"
    and ret: "vote_for_block E W v h s = Some (r, s')"
  let ?m = "cs_view_manager s"
  show "sm_inv E c m0 sk s'"
  proof (cases "map_of (ch_views (cs_chain s)) v")
    case None
    with ret I show ?thesis
      by (simp add: vote_for_block_def sm_then_def query_def leader_of_view_def find_view_context_def)
  next
    case (Some ctx)
    let ?vt = "own_vote E v h (vc_leader_id ctx) s"
    note ci = sm_inv_context [OF I Some]
    from ready Some have rd: "ready_to_vote h ctx" by (simp add: vote_ready_def)
    from own_vote_effect [OF Some rd] obtain ctx' where
      eff: "vm_add_own_vote v h (v_signature ?vt) ?m = (Inr (), ?m\<lparr>vm_view_chain := set_ctx v ctx' (cs_chain s)\<rparr>)"
        "vc_has_voted ctx'" by blast
    have sk: "v_signature ?vt = bls_sign E sk h" using I by (simp add: own_vote_def sm_inv_def)
    from ret Some have
      "sm_then (broadcast_consensus_message W (VoteMsg ?vt)) (\<lambda>_. on_manager (vm_add_own_vote v h (v_signature ?vt))) s
        = Some (r, s')"
      by (simp add: vote_for_block_def sm_then_def query_def leader_of_view_def find_view_context_def sm_get_def)
    then show ?thesis
    proof (cases rule: sm_then_cases)
      case (1 e)
      then show ?thesis using I by (auto elim!: broadcast_cases simp: smi.asked)
    next
      case (2 x s1)
      obtain k where s1: "s1 = s\<lparr>cs_broadcast := cs_broadcast s @ [VoteMsg ?vt], cs_asked := k\<rparr>"
        using 2(1) by (auto elim: broadcast_cases)
      let ?m' = "?m\<lparr>vm_view_chain := set_ctx v ctx' (cs_chain s)\<rparr>"
      have "s' = (s\<lparr>cs_view_manager := ?m', cs_broadcast := cs_broadcast s @ [VoteMsg ?vt]\<rparr>)\<lparr>cs_asked := k\<rparr>"
        using 2(2) eff(1) by (auto simp: on_manager_def s1)
      moreover have "sm_inv E c m0 sk (s\<lparr>cs_view_manager := ?m', cs_broadcast := cs_broadcast s @ [VoteMsg ?vt]\<rparr>)"
      proof (rule sm_inv_send_own [OF I])
        show "vm_step E c ?m ?m'" using own_vote_step [OF I, of v h] eff(1) by (simp add: sk)
        show "authentic E sk m0 (VoteMsg ?vt)"
          using ci sm_inv_replica(4) [OF I] sign_then_verify I
          by (auto simp: own_vote_def vote_verify_def sm_inv_def)
        show "recorded (vm_view_chain ?m') (VoteMsg ?vt)" using ci(1) eff(2) by (simp add: own_vote_def update_conv')
        show "compatible x (VoteMsg ?vt)" if "recorded (cs_chain s) x" for x
          by (rule vote_compatible [OF that]) (use Some rd in \<open>auto simp: own_vote_def ready_to_vote_def\<close>)
      qed
      ultimately show ?thesis by (simp add: smi.asked)
    qed
  qed
qed

lemma on_manager_keeps:
  assumes "\<And>s. sm_inv E c m0 sk s \<Longrightarrow> Pre s \<Longrightarrow> vm_step E c (cs_view_manager s) (snd (f (cs_view_manager s)))"
  shows "smi.keeps E c m0 sk Pre (on_manager f)"
  by (rule smi.keeps_manager) (auto intro: sm_inv_step assms)

lemma on_handler_keeps:
  assumes "\<And>s r m. sm_inv E c m0 sk s \<Longrightarrow> Pre s \<Longrightarrow> f (cs_view_manager s) = Some (r, m) \<Longrightarrow>
    vm_step E c (cs_view_manager s) m"
  shows "smi.keeps E c m0 sk Pre (on_handler f)"
  by (rule smi.keeps_handler) (auto intro: sm_inv_step assms)

text \<open>The three ways to nullify are steps of the manager that either fail or sign the message.\<close>

definition nullifies :: "env \<Rightarrow> cfg \<Rightarrow> (bls_secret_key \<Rightarrow> view_context \<Rightarrow> nullify result \<times> view_context) \<Rightarrow> bool" where
  "nullifies E c create \<longleftrightarrow>
     (\<forall>sk ctx. \<not> vc_has_nullified ctx \<longrightarrow>
        create sk ctx = create_nullify_message E sk ctx \<or> (\<exists>e. create sk ctx = (Inl e, ctx)))
     \<and> (\<forall>sk v m. vm_step E c m (snd (in_view v (create sk) m)))"

lemma create_nullifies:
  "nullifies E c (create_nullify_for_timeout E)"
  "nullifies E c (create_nullify_for_byzantine E)"
  "nullifies E c (create_nullify_for_cascade E)"
  by (auto simp: nullifies_def create_nullify_for_timeout_def create_nullify_for_byzantine_def
      create_nullify_for_cascade_def intro: vm_step.timeout vm_step.byzantine vm_step.cascade_nullify)

definition nullifiable :: "view_no \<Rightarrow> state_machine \<Rightarrow> bool" where
  "nullifiable v s \<longleftrightarrow> (\<exists>ctx. map_of (ch_views (cs_chain s)) v = Some ctx \<and> \<not> vc_has_nullified ctx)"

lemma send_nullify_keeps:
  assumes create: "nullifies E c create"
  shows "smi.keeps E c m0 sk (nullifiable v) (send_nullify W v create)"
proof (rule smi.keepsI)
  fix s r s' assume I: "sm_inv E c m0 sk s" and "nullifiable v s"
    and ret: "send_nullify W v create s = Some (r, s')"
  then obtain ctx where ctx: "map_of (ch_views (cs_chain s)) v = Some ctx" "\<not> vc_has_nullified ctx"
    by (auto simp: nullifiable_def)
  let ?m = "cs_view_manager s"
  define m1 where "m1 = snd (in_view v (create sk) ?m)"
  let ?n = "\<lparr>nf_view = v, nf_leader_id = vc_leader_id ctx,
      nf_signature = bls_sign E sk (nullify_message E v (vc_leader_id ctx)), nf_peer_id = vc_replica_id ctx\<rparr>"
  note ci = sm_inv_context [OF I ctx(1)]
  have step: "vm_step E c ?m m1" using create by (simp add: nullifies_def m1_def)
  have sk: "cs_secret_key s = sk" using I by (simp add: sm_inv_def)
  from create ctx(2) consider e where "create sk ctx = (Inl e, ctx)"
    | "create sk ctx = create_nullify_message E sk ctx" unfolding nullifies_def by blast
  then show "sm_inv E c m0 sk s'"
  proof cases
    case 1
    then have "s' = s\<lparr>cs_view_manager := m1\<rparr>"
      using ret ctx(1) sk by (simp add: send_nullify_def sm_then_def sm_get_def on_manager_def in_view_def
          on_chain_def find_view_context_def m1_def)
    then show ?thesis using sm_inv_step [OF I step] by simp
  next
    case 2
    then have eff: "in_view v (create sk) ?m = (Inr ?n, m1)"
      "vm_view_chain m1 = set_ctx v (ctx\<lparr>vc_has_nullified := True\<rparr>) (cs_chain s)"
      using ctx(1) ci(2)
      by (simp_all add: in_view_def on_chain_def find_view_context_def create_nullify_message_def m1_def)
    have "sm_then (broadcast_consensus_message W (NullifyMsg ?n)) (\<lambda>_. on_manager (mark_nullified v))
        (s\<lparr>cs_view_manager := m1\<rparr>) = Some (r, s')"
      using ret eff(1) by (simp add: send_nullify_def sm_then_def sm_get_def sk on_manager_def)
    then show ?thesis
    proof (cases rule: sm_then_cases)
      case (1 e)
      then show ?thesis using sm_inv_step [OF I step] by (auto elim!: broadcast_cases simp: smi.asked)
    next
      case (2 x s1)
      let ?t = "s\<lparr>cs_view_manager := m1, cs_broadcast := cs_broadcast s @ [NullifyMsg ?n]\<rparr>"
      have s1: "\<exists>k. s1 = ?t\<lparr>cs_asked := k\<rparr>"
        using 2(1) by (cases rule: broadcast_cases) (auto intro: exI)
      have "sm_inv E c m0 sk ?t"
      proof (rule sm_inv_send_own [OF I step])
        show "authentic E sk m0 (NullifyMsg ?n)"
          using ci sm_inv_replica(4) [OF I] sign_then_verify by (auto simp: nullify_verify_def)
        show "recorded (vm_view_chain m1) (NullifyMsg ?n)" using ci(1) by (simp add: eff(2) update_conv')
        show "compatible x (NullifyMsg ?n)" if "recorded (cs_chain s) x" for x
          by (rule nullify_compatible [OF that]) (use ctx in auto)
      qed
      with s1 have "sm_inv E c m0 sk s1" by (auto simp only: smi.asked)
      from smi.keepsD [OF on_manager_keeps this _ 2(2), of "\<lambda>_. True"] show ?thesis
        by (simp add: vm_step.nullified)
    qed
  qed
qed

lemma nullify_view_keeps: "smi.keeps E c m0 sk Pre (nullify_view E c W v force)"
  unfolding nullify_view_def
proof (rule smi.keeps_query_then)
  fix ctx
  let ?Pre = "\<lambda>s. Pre s \<and> (case find_view_context v (cs_chain s) of None \<Rightarrow> Inl ViewUnknown | Some ctx \<Rightarrow> Inr ctx) = Inr ctx"
  have "smi.keeps E c m0 sk ?Pre (send_nullify W v create)" if "\<not> vc_has_nullified ctx" "nullifies E c create" for create
    by (rule smi.keeps_mono [OF send_nullify_keeps [OF that(2)]])
      (use that(1) in \<open>auto simp: nullifiable_def find_view_context_def split: option.splits\<close>)
  then show "smi.keeps E c m0 sk ?Pre (if vc_has_nullified ctx then sm_ok ()
     else if force then send_nullify W v (create_nullify_for_cascade E)
     else if vc_has_voted ctx then
       (if byzantine_evidence c ctx then send_nullify W v (create_nullify_for_byzantine E) else sm_ok ())
     else if byzantine_evidence c ctx then send_nullify W v (create_nullify_for_byzantine E)
     else send_nullify W v (create_nullify_for_timeout E))"
    by (simp add: create_nullifies smi.keeps_ok)
qed

lemma finalize_keeps: "smi.keeps E c m0 sk Pre (sm_finalize_view E c W v h)"
proof -
  have step: "vm_step E c m m'" if f: "finalize_view E c v m = Some (r, m')" and v: "v \<noteq> ch_current_view (vm_view_chain m)"
      "get_block_tx_hashes v m = Inr txs" and i: "vm_inv E m" for m m' r txs
  proof -
    obtain ctx where "map_of (ch_views (vm_view_chain m)) v = Some ctx"
      using v(2) by (auto simp: get_block_tx_hashes_def find_view_context_def split: option.splits)
    from ch_invD [OF _ this, of E] i v(1) have "v < ch_current_view (vm_view_chain m)"
      by (fastforce simp: vm_inv_def ctx_ok_def)
    then show ?thesis using f by (rule vm_step.finalize)
  qed
  have "smi.keeps E c m0 sk Pre' (best_effort_notification W n)" for n Pre'
    unfolding best_effort_notification_def
    by (intro smi.keeps_then smi.keeps_ask smi.keeps_if smi.keeps_ok smi.keeps_set) (simp add: sm_inv_def)
  then show ?thesis
    unfolding sm_finalize_view_def
    by (intro smi.keeps_get_then smi.keeps_if smi.keeps_ok smi.keeps_query_then smi.keeps_then on_handler_keeps)
      (auto intro!: step dest: sm_inv_replica(1))
qed

lemma create_and_broadcast_keeps: "smi.keeps E c m0 sk Pre (create_and_broadcast_m_notarization W v h fwd)"
  unfolding create_and_broadcast_m_notarization_def
  by (intro smi.keeps_if smi.keeps_then smi.keeps_query smi.keeps_ok broadcast_keeps) (simp add: is_own_def)

lemma broadcast_nullification_keeps: "smi.keeps E c m0 sk Pre (broadcast_nullification W v)"
  unfolding broadcast_nullification_def
  by (intro smi.keeps_then smi.keeps_query broadcast_keeps) (simp add: is_own_def)

lemma finalize_deferred_keeps: "smi.always E c m0 sk (finalize_deferred E c W n)"
proof (induction n)
  case (Suc n)
  then show ?case
    unfolding finalize_deferred.simps
    by (intro smi.keeps_then smi.keeps_get smi.keeps_option smi.keeps_prod smi.keeps_if smi.keeps_ok
        smi.keeps_result smi.keeps_try finalize_keeps)
next
  case 0
  show ?case
    unfolding finalize_deferred.simps
    by (intro smi.keeps_then smi.keeps_get smi.keeps_option smi.keeps_ok smi.keeps_result)
qed

subsection \<open>Events\<close>

text \<open>What the events that the manager reports have in common: a requested vote is in order, and a
  message to be forwarded is neither a vote nor a nullify message.\<close>

definition forwards_own :: "view_progress_event \<Rightarrow> bool" where
  "forwards_own ev = (case ev of BroadcastConsensusMessage msg \<Rightarrow> is_own msg | _ \<Rightarrow> False)"

definition event_ok :: "view_progress_event \<Rightarrow> state_machine \<Rightarrow> bool" where
  "event_ok ev s \<longleftrightarrow> pred_option (\<lambda>(v, h). vote_ready v h (cs_chain s)) (vote_request ev)
     \<and> \<not> forwards_own ev"

lemma forwards_own_simps [simp]:
  "forwards_own (BroadcastConsensusMessage msg) = is_own msg"
  "\<not> forwards_own (ShouldProposeBlock v h)" "\<not> forwards_own (ShouldVote v h)"
  "\<not> forwards_own (ShouldNullify v)" "\<not> forwards_own (ShouldBroadcastNullification v)"
  "\<not> forwards_own (ShouldMNotarize v h f)" "\<not> forwards_own (ShouldVoteAndMNotarize v h f)"
  "\<not> forwards_own (ShouldVoteAndProgressToNextView v h w l f)" "\<not> forwards_own (ProgressToNextView v l h f)"
  "\<not> forwards_own (ShouldFinalize v h)" "\<not> forwards_own (ShouldVoteAndFinalize v h)"
  "\<not> forwards_own (ProgressToNextViewOnNullification v l h f)" "\<not> forwards_own NoOp" "\<not> forwards_own Await"
  "\<not> forwards_own (ShouldUpdateView v l)" "\<not> forwards_own (ShouldNullifyView v)"
  "\<not> forwards_own (ShouldCascadeNullification v f)" "\<not> forwards_own (ShouldNullifyRange v)"
  "\<not> forwards_own (ShouldRequestBlock v h)" "\<not> forwards_own (ShouldRequestBlocks rs)"
  by (simp_all add: forwards_own_def)

lemma future_view_forwards: "future_view v claimed m = Some (Inr ev, m') \<Longrightarrow> \<not> forwards_own ev"
  by (auto simp: future_view_def return_def split: handler_splits)

lemma handlers_forward:
  "handle_block_proposal E c b m = Some (Inr ev, m') \<Longrightarrow> \<not> forwards_own ev"
  "handle_vote E c vt m = Some (Inr ev, m') \<Longrightarrow> \<not> forwards_own ev"
  "handle_nullify E c n m = Some (Inr ev, m') \<Longrightarrow> \<not> forwards_own ev"
  "handle_m_notarization E c now mn m = Some (Inr ev, m') \<Longrightarrow> \<not> forwards_own ev"
  "handle_nullification E now nn m = Some (Inr ev, m') \<Longrightarrow> \<not> forwards_own ev"
  "handle_block_recovery_request c v h m = Some (Inr ev, m') \<Longrightarrow> \<not> forwards_own ev"
  "handle_block_recovery_response E c v b m = Some (Inr ev, m') \<Longrightarrow> \<not> forwards_own ev"
  subgoal by (auto simp: handle_block_proposal_def handler_simps split: handler_splits
      dest!: future_view_forwards after_pending_event)
  subgoal by (auto simp: handle_vote_def handler_simps split: handler_splits
      dest!: future_view_forwards after_pending_event)
  subgoal by (auto simp: handle_nullify_def handler_simps split: handler_splits dest!: future_view_forwards)
  subgoal by (auto simp: handle_m_notarization_def handler_simps split: handler_splits
      dest!: future_view_forwards after_pending_event)
  subgoal by (auto simp: handle_nullification_def handler_simps split: handler_splits dest!: future_view_forwards)
  subgoal by (auto simp: handle_block_recovery_request_def handler_simps is_own_def split: handler_splits)
  subgoal by (auto simp: handle_block_recovery_response_def handler_simps split: handler_splits)
  done

lemma process_msg_forwards: "process_consensus_msg E c now msg m = Some (Inr ev, m') \<Longrightarrow> \<not> forwards_own ev"
  by (cases msg) (auto simp: process_consensus_msg_def dest: handlers_forward)

lemma tick_forwards:
  assumes "tick E c now m = (Inr ev, m')"
  shows "\<not> forwards_own ev"
  using assms
  by (auto simp: tick_def Let_def split: sum.splits option.splits prod.splits list.splits if_splits
      dest!: tick_view_cases)

text \<open>A proposal makes the replica vote for the proposed block only.\<close>

lemma add_block_proposal_hash:
  "add_block_proposal E c P v b d s = (Inr r, s') \<Longrightarrow> lp_block_hash r = get_hash E b"
  by (auto simp: add_block_proposal_def add_new_view_block_def Let_def
      split: option.splits sum.splits bool.splits if_splits)

lemma proposal_vote_hash:
  assumes "process_consensus_msg E c now (BlockProposal b) m = Some (Inr ev, m')"
    and "vote_request ev = Some (v, h)"
  shows "h = get_hash E b"
proof -
  have *: "lp_block_hash r = get_hash E b"
    if "on_chain (add_block_proposal E c (vm_peers m) (b_view b) b d) m = (Inr r, m1)" for d r m1
    using that by (auto simp: on_chain_def split: prod.splits dest: add_block_proposal_hash)
  show ?thesis
    using assms
    by (auto simp: process_consensus_msg_def handle_block_proposal_def handler_simps split: handler_splits
        dest!: future_view_no_vote after_pending_event dest: *)
qed

subsection \<open>The handlers keep the invariant\<close>

lemma process_event:
  assumes I: "sm_inv E c m0 sk s" and p: "process E c W msg s = Some (r, s')"
  shows "sm_inv E c m0 sk s'" and "r = Inr ev \<Longrightarrow> event_ok ev s'"
    and "r = Inr ev \<Longrightarrow> msg = BlockProposal b \<Longrightarrow> vote_request ev = Some (v, h) \<Longrightarrow> h = get_hash E b"
proof -
  from p obtain now m where m: "process_consensus_msg E c now msg (cs_view_manager s) = Some (r, m)"
      "s' = s\<lparr>cs_asked := Suc (cs_asked s), cs_view_manager := m\<rparr>"
    by (auto simp: process_def sm_then_def ask_def on_handler_def)
  have "sm_inv E c m0 sk (s\<lparr>cs_asked := Suc (cs_asked s)\<rparr>)" using I by (simp add: smi.asked)
  from sm_inv_step [OF this] m show "sm_inv E c m0 sk s'" by (auto intro: vm_step.msg)
  show "event_ok ev s'" if "r = Inr ev"
    using m that process_msg_vote [OF sm_inv_replica(1) [OF I]] process_msg_forwards
    by (auto simp: event_ok_def option.pred_set)
  show "h = get_hash E b" if "r = Inr ev" "msg = BlockProposal b" "vote_request ev = Some (v, h)"
    using m(1) that proposal_vote_hash by blast
qed

lemma process_then_keeps:
  assumes "\<And>ev. (\<And>b v h. msg = BlockProposal b \<Longrightarrow> vote_request ev = Some (v, h) \<Longrightarrow> h = get_hash E b) \<Longrightarrow>
    smi.keeps E c m0 sk (event_ok ev) (g ev)"
  shows "smi.keeps E c m0 sk Pre (sm_then (process E c W msg) g)"
proof (rule smi.keepsI)
  fix s r s' assume I: "sm_inv E c m0 sk s" and "sm_then (process E c W msg) g s = Some (r, s')"
  from this(2) show "sm_inv E c m0 sk s'"
  proof (cases rule: sm_then_cases)
    case (1 e)
    then show ?thesis using process_event(1) [OF I] by blast
  next
    case (2 ev s1)
    note p = process_event [OF I 2(1)]
    show ?thesis by (rule smi.keepsD [OF assms p(1) p(2) 2(2)]) (use p(3) in auto)
  qed
qed

lemma try_process_then_keeps:
  assumes "smi.keeps E c m0 sk (\<lambda>_. True) f" and "\<And>ev. smi.keeps E c m0 sk (event_ok ev) (g ev)"
  shows "smi.keeps E c m0 sk Pre (sm_then (sm_try (process E c W msg)) (\<lambda>found. case found of
    None \<Rightarrow> f | Some ev \<Rightarrow> g ev))" (is "smi.keeps E c m0 sk Pre (sm_then _ ?g)")
proof (rule smi.keepsI)
  fix s r s' assume I: "sm_inv E c m0 sk s" and "sm_then (sm_try (process E c W msg)) ?g s = Some (r, s')"
  from this(2) show "sm_inv E c m0 sk s'"
  proof (cases rule: sm_then_cases)
    case (1 e)
    then show ?thesis by (auto elim!: sm_try_cases intro: process_event(1) [OF I])
  next
    case (2 x s1)
    from 2(1) show ?thesis
    proof (cases rule: sm_try_cases)
      case (1 e)
      then have "sm_inv E c m0 sk s1" and "x = None" by (auto intro: process_event(1) [OF I] split: if_splits)
      with 2(2) show ?thesis using smi.keepsD [OF assms(1)] by simp
    next
      case (2 ev)
      note p = process_event [OF I 2(1)]
      have "g ev s1 = Some (r, s')" using 2(2) \<open>?g x s1 = Some (r, s')\<close> by simp
      from smi.keepsD [OF assms(2) p(1) p(2) this] show ?thesis by simp
    qed
  qed
qed

definition call_ok :: "call \<Rightarrow> state_machine \<Rightarrow> bool" where
  "call_ok call s = (case call of HandleEvent ev \<Rightarrow> event_ok ev s | _ \<Rightarrow> True)"

lemma call_ok_simps [simp]:
  "call_ok (HandleEvent ev) = event_ok ev" "call_ok (HandleMessage msg) = (\<lambda>_. True)"
  "call_ok (ProgressTo v l h) = (\<lambda>_. True)" "call_ok (ProposeBlock v h) = (\<lambda>_. True)"
  by (auto simp: call_ok_def)

lemma get_then_keeps:
  assumes "\<And>s. sm_inv E c m0 sk s \<Longrightarrow> smi.keeps E c m0 sk Pre (g (f s))"
  shows "smi.keeps E c m0 sk Pre (sm_then (sm_get f) g)"
  by (rule smi.keepsI) (use assms in \<open>auto simp: sm_then_def sm_get_def dest: smi.keepsD\<close>)

lemma own_m_notarization_keeps:
  assumes "\<And>k. smi.keeps E c m0 sk (call_ok k) (self k)"
  shows "smi.keeps E c m0 sk Pre (process_own_m_notarization E c W self v)"
  unfolding process_own_m_notarization_def
  by (intro smi.keeps_then smi.keeps_try smi.keeps_query smi.keeps_option smi.keeps_ok try_process_then_keeps)
    (use assms [of "HandleEvent _"] in simp)

lemma handle_message_keeps:
  assumes "\<And>k. smi.keeps E c m0 sk (call_ok k) (self k)"
  shows "smi.keeps E c m0 sk Pre (handle_consensus_message_body E c W self msg)"
  unfolding handle_consensus_message_body_def
proof (rule process_then_keeps)
  fix ev
  have b: "smi.keeps E c m0 sk P (sm_set (buffer_message v msg))" for P v
    by (rule smi.keeps_set) (simp add: sm_inv_def buffer_message_def)
  show "smi.keeps E c m0 sk (event_ok ev) (case ev of
      ShouldUpdateView new_view _ \<Rightarrow> sm_set (buffer_message new_view msg) | _ \<Rightarrow> self (HandleEvent ev))"
    using assms [of "HandleEvent ev"] by (cases ev) (simp_all add: b)
qed

lemma rollback_keeps: "smi.keeps E c m0 sk Pre (rollback_from v u)"
  unfolding rollback_from_def by (rule smi.keeps_set) (auto intro: sm_inv_step vm_step.rollback)

lemma cascade_keeps:
  assumes "\<And>k. smi.keeps E c m0 sk (call_ok k) (self k)"
  shows "smi.keeps E c m0 sk Pre (cascade_nullification E c W self v fwd)"
  unfolding cascade_nullification_def
  by (intro smi.keeps_then smi.keeps_get smi.keeps_if smi.keeps_try smi.keeps_ok smi.keeps_ask smi.keeps_prod
      nullify_view_keeps broadcast_nullification_keeps rollback_keeps on_manager_keeps)
    (use assms [of "ProgressTo _ _ _"] in \<open>simp_all add: vm_step.cascade\<close>)

lemma nullify_range_keeps: "smi.keeps E c m0 sk Pre (nullify_range E c W v)"
  unfolding nullify_range_def
  by (intro smi.keeps_then smi.keeps_get smi.keeps_try nullify_view_keeps rollback_keeps)

lemma handle_event_keeps:
  assumes "\<And>k. smi.keeps E c m0 sk (call_ok k) (self k)"
  shows "smi.keeps E c m0 sk (event_ok ev) (handle_event_body E c W self ev)"
proof -
  have p: "smi.keeps E c m0 sk Pre (self (ProgressTo v l h))" "smi.keeps E c m0 sk Pre (self (ProposeBlock v h))" for Pre v l h
    using assms [of "ProgressTo v l h"] assms [of "ProposeBlock v h"] by (auto intro: smi.keeps_mono)
  have v: "smi.keeps E c m0 sk (event_ok ev) (vote_for_block E W v h)" if "vote_request ev = Some (v, h)" for ev v h
    by (rule smi.keeps_mono [OF vote_for_block_keeps]) (simp add: event_ok_def that)
  have b: "smi.keeps E c m0 sk (event_ok (BroadcastConsensusMessage msg)) (broadcast_consensus_message W msg)" for msg
    by (cases "is_own msg") (auto intro: broadcast_keeps smi.keepsI simp: event_ok_def)
  note rules = p v b own_m_notarization_keeps [OF assms] cascade_keeps [OF assms] nullify_range_keeps nullify_view_keeps
    finalize_keeps create_and_broadcast_keeps broadcast_nullification_keeps smi.keeps_ok
  have "smi.always E c m0 sk (sm_each (\<lambda>(v, h). broadcast_consensus_message W (BlockRecoveryRequest v h)) rs)" for rs
    by (intro smi.always_each smi.keeps_prod broadcast_keeps) (simp add: is_own_def)
  from smi.keeps_mono [OF this] show ?thesis
    by (cases ev) (simp_all add: handle_event_body_def rules broadcast_keeps is_own_def smi.keeps_then smi.keeps_if)
qed

lemma progress_keeps:
  assumes "\<And>k. smi.keeps E c m0 sk (call_ok k) (self k)"
  shows "smi.always E c m0 sk (progress_to_next_view_body E c W self v l h)"
proof -
  have "smi.always E c m0 sk (replay_messages self u)" for u
    unfolding replay_messages_def
    by (intro smi.keeps_then smi.keeps_get smi.keeps_option smi.keeps_ok smi.always_each smi.keeps_set)
      (use assms [of "HandleMessage _"] in \<open>simp_all add: sm_inv_def\<close>)
  then show ?thesis
    unfolding progress_to_next_view_body_def
    by (intro smi.keeps_then smi.keeps_get smi.keeps_if smi.keeps_ok smi.always_each finalize_deferred_keeps)
      (use assms [of "ProposeBlock v h"] in simp_all)
qed

lemma send_proposal_keeps:
  assumes "\<And>k. smi.keeps E c m0 sk (call_ok k) (self k)" and sig: "b_leader_signature b = bls_sign E sk (get_hash E b)"
  shows "smi.always E c m0 sk (send_proposal E c W self v b)"
  unfolding send_proposal_def
proof (rule smi.keeps_then [OF broadcast_keeps], simp add: is_own_def, rule process_then_keeps, rule smi.keeps_then)
  have own: "smi.keeps E c m0 sk Pre (on_manager (vm_add_own_vote u (get_hash E b) (b_leader_signature b)))" for Pre u
    unfolding sig by (rule on_manager_keeps) (rule own_vote_step)
  fix ev assume *: "\<And>b' u h. BlockProposal b = BlockProposal b' \<Longrightarrow> vote_request ev = Some (u, h) \<Longrightarrow> h = get_hash E b'"
  show "smi.keeps E c m0 sk (event_ok ev) (handle_own_proposal E c W self b ev)"
    using assms(1) [of "HandleEvent ev"] * [OF refl]
    by (cases ev) (auto simp: handle_own_proposal_def
        intro: own smi.keeps_then create_and_broadcast_keeps finalize_keeps)
qed (simp add: on_manager_keeps vm_step.proposed)

lemma propose_keeps:
  assumes "\<And>k. smi.keeps E c m0 sk (call_ok k) (self k)"
  shows "smi.always E c m0 sk (propose_block_body E c W self v h)"
proof -
  have sig: "b_leader_signature b = bls_sign E sk (get_hash E b)"
    if "b = build_block E v h txs ts s" "sm_inv E c m0 sk s" for b txs ts s
    using that by (simp add: build_block_def Let_def get_hash_def sm_inv_def block_new_def)
  have "smi.always E c m0 sk (wait_for_proposal_response W v)"
    unfolding wait_for_proposal_response_def by (intro smi.keeps_then smi.keeps_ask smi.keeps_ok)
  then show ?thesis
    unfolding propose_block_body_def
    by (intro smi.keeps_then [OF smi.keeps_ask] smi.keeps_then [OF smi.keeps_result] get_then_keeps smi.keeps_then
        smi.keeps_result smi.keeps_if smi.keeps_set send_proposal_keeps assms sig) (auto simp: sm_inv_def)
qed

lemma exec_sm_inv: "smi.keeps E c m0 sk (call_ok call) (exec E c W call)"
proof (rule smi.exec_keeps)
  fix self :: "call \<Rightarrow> unit op" and call assume *: "\<And>k. smi.keeps E c m0 sk (call_ok k) (self k)"
  show "smi.keeps E c m0 sk (call_ok call) (body E c W self call)"
    using handle_event_keeps [OF *] handle_message_keeps [OF *] progress_keeps [OF *] propose_keeps [OF *]
    by (cases call) (simp_all add: body_def)
qed

lemma tick_keeps: "smi.always E c m0 sk (handle_tick E c W)"
proof (rule smi.keepsI)
  fix s r s' assume I: "sm_inv E c m0 sk s" and ret: "handle_tick E c W s = Some (r, s')"
  let ?s = "s\<lparr>cs_asked := Suc (cs_asked s)\<rparr>"
  have I': "sm_inv E c m0 sk ?s" using I by (simp add: smi.asked)
  obtain x m where t: "tick E c (io_now W (cs_asked s)) (cs_view_manager s) = (x, m)" by (rule prod.exhaust)
  have I1: "sm_inv E c m0 sk (?s\<lparr>cs_view_manager := m\<rparr>)"
    by (rule sm_inv_step [OF I']) (use t in \<open>auto intro: vm_step.tick\<close>)
  show "sm_inv E c m0 sk s'"
  proof (cases x)
    case (Inl e)
    with ret t I1 show ?thesis by (auto simp: handle_tick_def sm_then_def ask_def on_manager_def)
  next
    case (Inr ev)
    with ret t have e: "exec E c W (HandleEvent ev) (?s\<lparr>cs_view_manager := m\<rparr>) = Some (r, s')"
      by (simp add: handle_tick_def sm_then_def ask_def on_manager_def)
    have "event_ok ev (?s\<lparr>cs_view_manager := m\<rparr>)"
      using t Inr tick_vote [OF sm_inv_replica(1) [OF I]] tick_forwards
      by (auto simp: event_ok_def option.pred_set)
    then show ?thesis using smi.keepsD [OF exec_sm_inv I1 _ e] by simp
  qed
qed

lemma run_sm_inv:
  assumes "sm_inv E c m0 sk s" and "run E c W inputs s = Some (r, s')"
  shows "sm_inv E c m0 sk s'"
proof -
  have "smi.always E c m0 sk (handle_input E c W i)" for i
    using exec_sm_inv [of E c m0 sk "HandleMessage _" W] tick_keeps by (cases i) (simp_all add: handle_input_def)
  then have "smi.always E c m0 sk (run E c W inputs)" unfolding run_def by (rule smi.always_each)
  from smi.keepsD [OF this assms(1) _ assms(2)] show ?thesis by simp
qed

text \<open>A replica whose configured key is the one that its peers know.\<close>

definition replica_setup ::
    "env \<Rightarrow> instant \<Rightarrow> nat \<Rightarrow> nat \<Rightarrow> leader_selection_strategy \<Rightarrow> bls_public_key option list \<Rightarrow> peer_id
      \<Rightarrow> writer \<Rightarrow> bls_secret_key \<Rightarrow> view_manager \<Rightarrow> bool" where
  "replica_setup E now timeout n strategy pks me w sk m \<longleftrightarrow>
     from_genesis E now timeout n strategy pks me w = Inr m
     \<and> get_public_key (vm_peers m) me = Inr (public_key E sk)"

lemma from_genesis_replica: "from_genesis E now timeout n strategy pks me w = Inr m \<Longrightarrow> vm_replica_id m = me"
  by (auto simp: from_genesis_def manager_of_def split: sum.split_asm option.split_asm leader_selection_strategy.split_asm)

lemma setup_sm_inv:
  assumes "ark_laws E r" and "replica_setup E now timeout n strategy pks me w sk m"
  shows "sm_inv E c m sk (state_machine_new m sk)"
  using assms from_genesis_inv from_genesis_replica
  by (auto simp: replica_setup_def sm_inv_def honest_setup_def state_machine_new_def)

subsection \<open>What every run guarantees\<close>

text \<open>C1: a replica that runs this code is not Byzantine in what it votes for. In every run from genesis,
  whatever messages and ticks arrive in whatever order, whichever channels are full and whichever
  handlers fail, it broadcasts at most one vote and at most one nullify message per view, and no
  vote for a view after its nullify message for it. Every vote and nullify message it sends carries
  its own identity, verifies under its key and names the scheduled leader of the view.\<close>

theorem votes_at_most_once:
  assumes "ark_laws E q" and "replica_setup E now timeout n strategy pks me w sk m"
    and "run E c W inputs (state_machine_new m sk) = Some (r, s)"
  shows "sorted_wrt compatible (cs_broadcast s) \<and> (\<forall>msg \<in> set (cs_broadcast s). authentic E sk m msg)"
  using run_sm_inv [OF setup_sm_inv [OF assms(1,2)] assms(3)] by (auto simp: sm_inv_def)

text \<open>C8: the state machine drives the manager only through the manager's own steps: every run of the
  state machine is a run of the manager, so that what holds in all runs of the manager holds here;
  it never finalizes the view it is in, and the current view always has a context.\<close>

theorem run_refines_manager:
  assumes "ark_laws E q" and "replica_setup E now timeout n strategy pks me w sk m"
    and "run E c W inputs (state_machine_new m sk) = Some (r, s)"
  shows "(vm_step E c)\<^sup>*\<^sup>* m (cs_view_manager s) \<and> vm_inv E (cs_view_manager s) \<and> same_replica m (cs_view_manager s)"
proof -
  have I: "sm_inv E c m sk s" by (rule run_sm_inv [OF setup_sm_inv [OF assms(1,2)] assms(3)])
  show ?thesis using sm_inv_replica(1,2) [OF I] I by (simp add: sm_inv_def)
qed

subsection \<open>Nullify messages\<close>

lemma push_attempts_full:
  "(\<forall>i < n. \<not> io_broadcast_room W (cs_asked s + i)) \<Longrightarrow>
   push_attempts W msg n s = Some (Inl BroadcastFailed, s\<lparr>cs_asked := cs_asked s + n\<rparr>)"
proof (induction n arbitrary: s)
  case (Suc n)
  have "\<not> io_broadcast_room W (cs_asked s)" using Suc(2) by (metis add.right_neutral zero_less_Suc)
  moreover have "\<not> io_broadcast_room W (Suc (cs_asked s) + i)" if "i < n" for i
    using Suc(2) that by (metis add_Suc_shift not_less_eq)
  ultimately show ?case
    using Suc(1) [of "s\<lparr>cs_asked := Suc (cs_asked s)\<rparr>"] by (simp add: sm_then_def ask_def)
qed (simp add: sm_result_def)

lemma push_attempts_room:
  "0 < n \<Longrightarrow> io_broadcast_room W (cs_asked s) \<Longrightarrow> push_attempts W msg n s =
     Some (Inr (), s\<lparr>cs_asked := Suc (cs_asked s), cs_broadcast := cs_broadcast s @ [msg]\<rparr>)"
  by (cases n) (auto simp: sm_then_def ask_def sm_set_def)

text \<open>Whether \<open>nullify_view\<close> gets as far as signing a message.\<close>

definition will_nullify :: "cfg \<Rightarrow> bool \<Rightarrow> view_context \<Rightarrow> bool" where
  "will_nullify c force ctx \<longleftrightarrow> \<not> vc_has_nullified ctx \<and> (force \<or> \<not> vc_has_voted ctx \<or> byzantine_evidence c ctx)"

definition nullify_of :: "env \<Rightarrow> bls_secret_key \<Rightarrow> view_context \<Rightarrow> nullify" where
  "nullify_of E sk ctx = \<lparr>nf_view = vc_view_number ctx, nf_leader_id = vc_leader_id ctx,
     nf_signature = bls_sign E sk (nullify_message E (vc_view_number ctx) (vc_leader_id ctx)),
     nf_peer_id = vc_replica_id ctx\<rparr>"

lemma nullify_view_signs:
  assumes "map_of (ch_views (cs_chain s)) v = Some ctx" and "will_nullify c force ctx"
  shows "nullify_view E c W v force s =
    sm_then (broadcast_consensus_message W (NullifyMsg (nullify_of E (cs_secret_key s) ctx)))
      (\<lambda>_. on_manager (mark_nullified v))
      (s\<lparr>cs_view_manager := (cs_view_manager s)\<lparr>vm_view_chain :=
           set_ctx v (ctx\<lparr>vc_has_nullified := True\<rparr>) (cs_chain s)\<rparr>\<rparr>)"
  using assms
  by (auto simp: nullify_view_def will_nullify_def sm_then_def query_def find_view_context_def send_nullify_def
      sm_get_def on_manager_def in_view_def on_chain_def create_nullify_for_timeout_def
      create_nullify_for_byzantine_def create_nullify_for_cascade_def create_nullify_message_def nullify_of_def)

text \<open>A nullify message that does not get out is lost for good. When the ring buffer stays full for
  the ten attempts, \<open>nullify_view\<close> fails without having sent anything, but signing the message has
  already marked the view as nullified: every later attempt returns \<open>Ok\<close> and sends nothing.\<close>

theorem failed_nullify_is_lost:
  assumes "find_view_context v (cs_chain s) = Some ctx" and "will_nullify c force ctx"
    and "\<forall>i < MAX_BROADCAST_ATTEMPTS. \<not> io_broadcast_room W (cs_asked s + i)"
  shows "\<exists>s'. nullify_view E c W v force s = Some (Inl BroadcastFailed, s') \<and> cs_broadcast s' = cs_broadcast s
    \<and> (\<forall>W' force'. nullify_view E c W' v force' s' = Some (Inr (), s'))"
proof -
  have ctx: "map_of (ch_views (cs_chain s)) v = Some ctx" using assms(1) by (simp add: find_view_context_def)
  let ?s = "s\<lparr>cs_view_manager := (cs_view_manager s)\<lparr>vm_view_chain :=
           set_ctx v (ctx\<lparr>vc_has_nullified := True\<rparr>) (cs_chain s)\<rparr>\<rparr>"
  let ?t = "?s\<lparr>cs_asked := cs_asked ?s + MAX_BROADCAST_ATTEMPTS\<rparr>"
  have "nullify_view E c W v force s = Some (Inl BroadcastFailed, ?t)"
    unfolding nullify_view_signs [OF ctx assms(2)] broadcast_consensus_message_def sm_then_def
    by (subst push_attempts_full) (use assms(3) in simp_all)
  moreover have "nullify_view E c W' v force' ?t = Some (Inr (), ?t)" for W' force'
    by (simp add: nullify_view_def sm_then_def query_def find_view_context_def update_conv' sm_ok_def)
  ultimately show ?thesis by (intro exI [of _ ?t]) simp
qed

text \<open>An invalid block makes a replica nullify, whoever sends it. A proposal for a view that the
  replica is in or has left is validated before its leader, its parent and its signature are
  looked at; when its transactions are invalid, a replica that has not voted in that view yet
  broadcasts its nullify message for it.\<close>

theorem invalid_block_from_anyone_nullifies:
  assumes "vm_inv E (cs_view_manager s)"
    and "validate_block E (reader_get_account E (ch_writer (cs_chain s))) b = Inl errors"
    and "find_view_context (b_view b) (cs_chain s) = Some ctx"
    and "\<not> vc_has_voted ctx" and "\<not> vc_has_nullified ctx"
    and "io_broadcast_room W (Suc (cs_asked s))"
  shows "\<exists>s' nf. handle_consensus_message E c W (BlockProposal b) s = Some (Inr (), s')
    \<and> cs_broadcast s' = cs_broadcast s @ [NullifyMsg nf] \<and> nf_view nf = b_view b"
proof -
  let ?v = "b_view b" let ?s = "s\<lparr>cs_asked := Suc (cs_asked s)\<rparr>"
  have ctx: "map_of (ch_views (cs_chain s)) ?v = Some ctx" using assms(3) by (simp add: find_view_context_def)
  from ch_invD [OF _ ctx, of E] assms(1) have v: "?v \<le> ch_current_view (cs_chain s)" "vc_view_number ctx = ?v"
    by (auto simp: vm_inv_def ctx_ok_def)
  have "process E c W (BlockProposal b) s = Some (Inr (ShouldNullify ?v), ?s)"
    using v(1) assms(2) by (simp add: process_def sm_then_def ask_def on_handler_def process_consensus_msg_def
        handle_block_proposal_def Let_def return_def)
  then have "handle_consensus_message E c W (BlockProposal b) s = handle_event E c W (ShouldNullify ?v) ?s"
    by (subst exec.simps) (simp add: body_def handle_consensus_message_body_def sm_then_def)
  also have "\<dots> = nullify_view E c W ?v False ?s"
    by (subst exec.simps) (simp add: body_def handle_event_body_def)
  finally have e: "handle_consensus_message E c W (BlockProposal b) s = nullify_view E c W ?v False ?s" .
  have n: "will_nullify c False ctx" using assms(4,5) by (simp add: will_nullify_def)
  have "map_of (ch_views (cs_chain ?s)) ?v = Some ctx" using ctx by simp
  note sg = nullify_view_signs [OF this n, of E W]
  show ?thesis
    unfolding e sg broadcast_consensus_message_def sm_then_def
    by (subst push_attempts_room)
      (use assms(6) v(2) ctx in \<open>auto simp: MAX_BROADCAST_ATTEMPTS_def on_manager_def mark_nullified_def on_chain_def
        find_view_context_def update_conv' nullify_of_def\<close>)
qed

text \<open>A leader whose proposal completes a quorum does not record that it proposed. When processing its
  own block reports that the block can be M-notarized, but no M-notarization exists (none is
  created for a block that completes a quorum), \<open>propose_block\<close> fails after the proposal was
  broadcast and before \<open>mark_proposed\<close>; the next tick that lets the leader propose makes it
  propose again for the same view.\<close>

theorem unnotarized_proposal_is_not_marked:
  assumes "process_consensus_msg E c (io_now W (Suc (cs_asked s))) (BlockProposal b) (cs_view_manager s)
      = Some (Inr (ShouldVoteAndMNotarize u h True), m)"
    and "get_m_notarization u m = Inl e" and "io_broadcast_room W (cs_asked s)"
  shows "\<exists>e' s'. send_proposal E c W self v b s = Some (Inl e', s')
    \<and> cs_broadcast s' = cs_broadcast s @ [BlockProposal b]
    \<and> map_option vc_has_proposed (find_view_context v (cs_chain s'))
        = map_option vc_has_proposed (find_view_context v (vm_view_chain m))"
proof -
  let ?s = "s\<lparr>cs_asked := Suc (cs_asked s), cs_broadcast := cs_broadcast s @ [BlockProposal b]\<rparr>"
  let ?t = "?s\<lparr>cs_asked := Suc (cs_asked ?s), cs_view_manager := m\<rparr>"
  obtain r m' where o: "vm_add_own_vote u h (b_leader_signature b) m = (r, m')" by (rule prod.exhaust)
  have m': "map_option vc_has_proposed (find_view_context v (vm_view_chain m'))
        = map_option vc_has_proposed (find_view_context v (vm_view_chain m))"
    "get_m_notarization u m' = Inl e"
    using o assms(2)
    by (auto simp: vm_add_own_vote_def in_view_def on_chain_def find_view_context_def update_conv' add_own_vote_def
        promote_votes_def Let_def get_m_notarization_def split: option.splits if_splits)
  have b: "broadcast_consensus_message W (BlockProposal b) s = Some (Inr (), ?s)"
    unfolding broadcast_consensus_message_def
    by (rule push_attempts_room) (use assms(3) in \<open>simp_all add: MAX_BROADCAST_ATTEMPTS_def\<close>)
  have p: "process E c W (BlockProposal b) ?s = Some (Inr (ShouldVoteAndMNotarize u h True), ?t)"
    using assms(1) by (simp add: process_def sm_then_def ask_def on_handler_def)
  have "send_proposal E c W self v b s = sm_then (handle_own_proposal E c W self b
      (ShouldVoteAndMNotarize u h True)) (\<lambda>_. on_manager (mark_proposed v)) ?t"
    unfolding send_proposal_def by (simp only: sm_then_def b p bind.bind_lunit prod.case sum.case)
  also have "\<dots> = Some (Inl (case r of Inl e' \<Rightarrow> e' | Inr _ \<Rightarrow> e), ?t\<lparr>cs_view_manager := m'\<rparr>)"
    using o m'(2) by (cases r) (simp_all add: handle_own_proposal_def sm_then_def on_manager_def
        create_and_broadcast_m_notarization_def query_def)
  finally show ?thesis using m'(1) by auto
qed

subsection \<open>Runs of a replica of a network of two\<close>

definition toy_world :: world where
  "toy_world = \<lparr>io_now = (\<lambda>_. 0), io_timestamp = (\<lambda>_. Some 0), io_broadcast_room = (\<lambda>_. True),
     io_request_room = (\<lambda>_. True), io_finalized_room = (\<lambda>_. True), io_responses = (\<lambda>_. [])\<rparr>"

definition toy_run :: "input list \<Rightarrow> peer_id \<Rightarrow> (unit result \<times> state_machine) option" where
  "toy_run inputs me = run small_env toy_cfg2 toy_world inputs (state_machine_new (toy_mgr me) (uint me))"

definition toy_inputs :: "input list" where
  "toy_inputs = [Message (MNotarizationMsg (toy_mnot_of 2 1 [2])), Tick]"

lemma toy_setup:
  "replica_setup small_env 0 100 2 RoundRobin [Some 1, Some 2] 2 (writer_new init_tables 0) 2 (toy_mgr 2)"
proof -
  have "get_public_key (vm_peers (toy_mgr 2)) 2 = Inr (public_key small_env 2)" by code_simp
  then show ?thesis by (simp only: replica_setup_def toy_mgr_from_genesis simp_thms)
qed

fun message_kind :: "consensus_message \<Rightarrow> nat \<times> view_no" where
  "message_kind (BlockProposal b) = (0, b_view b)"
| "message_kind (VoteMsg x) = (1, v_view x)"
| "message_kind (NullifyMsg x) = (2, nf_view x)"
| "message_kind (MNotarizationMsg x) = (3, mn_view x)"
| "message_kind (NullificationMsg x) = (4, nfn_view x)"
| "message_kind (BlockRecoveryRequest v h) = (5, v)"
| "message_kind (BlockRecoveryResponse v b) = (6, v)"

lemma toy_run_2:
  "map_option (\<lambda>(r, s). (r, map message_kind (cs_broadcast s))) (toy_run toy_inputs 2)
     = Some (Inr (), [(1, 1), (3, 1), (5, 1)])"
  by code_simp

theorem votes_at_most_once_witness:
  "\<exists>r s. toy_run toy_inputs 2 = Some (r, s) \<and> (1, 1) \<in> set (map message_kind (cs_broadcast s))
     \<and> sorted_wrt compatible (cs_broadcast s)"
proof -
  obtain r s where s: "toy_run toy_inputs 2 = Some (r, s)" "map message_kind (cs_broadcast s) = [(1, 1), (3, 1), (5, 1)]"
    using toy_run_2 by auto
  have "run small_env toy_cfg2 toy_world toy_inputs (state_machine_new (toy_mgr 2) 2) = Some (r, s)"
    using s(1) by (simp add: toy_run_def)
  from votes_at_most_once [OF small_env_ark_laws toy_setup this] s show ?thesis by auto
qed

theorem run_refines_manager_witness:
  "\<exists>r s. toy_run toy_inputs 2 = Some (r, s) \<and> (vm_step small_env toy_cfg2)\<^sup>*\<^sup>* (toy_mgr 2) (cs_view_manager s)"
proof -
  obtain r s where s: "toy_run toy_inputs 2 = Some (r, s)" using toy_run_2 by auto
  have "run small_env toy_cfg2 toy_world toy_inputs (state_machine_new (toy_mgr 2) 2) = Some (r, s)"
    using s(1) by (simp add: toy_run_def)
  from run_refines_manager [OF small_env_ark_laws toy_setup this] s show ?thesis by blast
qed

text \<open>A world whose broadcast ring buffer is full, and one invalid block by nobody.\<close>

theorem failed_nullify_is_lost_witness:
  "\<exists>s'. nullify_view small_env toy_cfg2 (toy_world\<lparr>io_broadcast_room := \<lambda>_. False\<rparr>) 1 False
       (state_machine_new (toy_mgr 1) 1) = Some (Inl BroadcastFailed, s')
     \<and> nullify_view small_env toy_cfg2 toy_world 1 False s' = Some (Inr (), s')"
proof -
  let ?s = "state_machine_new (toy_mgr 1) 1"
  let ?ctx = "view_context_new 0 1 2 1 (genesis_hash small_env)"
  have "find_view_context 1 (cs_chain ?s) = Some ?ctx"
    by (simp add: state_machine_new_def toy_mgr_def manager_of_def view_chain_new_def find_view_context_def view_context_new_def)
  moreover have "will_nullify toy_cfg2 False ?ctx" by (simp add: will_nullify_def view_context_new_def)
  ultimately show ?thesis
    using failed_nullify_is_lost [of 1 ?s ?ctx toy_cfg2 False "toy_world\<lparr>io_broadcast_room := \<lambda>_. False\<rparr>" small_env]
    by auto
qed

definition toy_bad_block :: block where
  "toy_bad_block = (toy_block_of 9 1 [5] [6])\<lparr>b_transactions := [create_signed small_env [1] (Transfer [2] 10) 4 1 [1] 0]\<rparr>"

lemma toy_bad_block_invalid:
  "case validate_block small_env (reader_get_account small_env (ch_writer (vm_view_chain (toy_mgr 1)))) toy_bad_block of
     Inl _ \<Rightarrow> True | Inr _ \<Rightarrow> False"
  by code_simp

theorem invalid_block_from_anyone_nullifies_witness:
  "\<exists>s' nf. handle_consensus_message small_env toy_cfg2 toy_world (BlockProposal toy_bad_block)
       (state_machine_new (toy_mgr 1) 1) = Some (Inr (), s') \<and> cs_broadcast s' = [NullifyMsg nf] \<and> nf_view nf = 1"
proof -
  let ?s = "state_machine_new (toy_mgr 1) 1"
  let ?ctx = "view_context_new 0 1 2 1 (genesis_hash small_env)"
  obtain errors where e: "validate_block small_env (reader_get_account small_env (ch_writer (vm_view_chain (toy_mgr 1))))
      toy_bad_block = Inl errors" using toy_bad_block_invalid by (auto split: sum.splits)
  have v: "b_view toy_bad_block = 1" by (simp add: toy_bad_block_def toy_block_of_def b_view_def)
  have s: "cs_view_manager ?s = toy_mgr 1" "cs_broadcast ?s = []" by (simp_all add: state_machine_new_def)
  have c: "find_view_context 1 (cs_chain ?s) = Some ?ctx"
    by (simp add: state_machine_new_def toy_mgr_def manager_of_def view_chain_new_def find_view_context_def view_context_new_def)
  have "vm_inv small_env (toy_mgr 1)" by (rule toy_reachable_inv [OF rtranclp.rtrancl_refl])
  then show ?thesis
    using invalid_block_from_anyone_nullifies [of small_env ?s toy_bad_block errors ?ctx toy_world toy_cfg2] e v s c
    by (simp add: toy_world_def view_context_new_def)
qed

lemma toy_own_proposal:
  "map_option fst (process_consensus_msg small_env toy_cfg2 0 (BlockProposal (toy_block_of 1 2 [3] [2])) (toy_m1 1))
     = Some (Inr (ShouldVoteAndMNotarize 2 [3] True))
   \<and> map_option vc_has_proposed (find_view_context 2 (vm_view_chain toy_m2)) = Some False"
  by code_simp

theorem unnotarized_proposal_is_not_marked_witness:
  "\<exists>e s'. send_proposal small_env toy_cfg2 toy_world (\<lambda>_. sm_ok ()) 2 (toy_block_of 1 2 [3] [2])
       (state_machine_new (toy_m1 1) 1) = Some (Inl e, s')
     \<and> map_option vc_has_proposed (find_view_context 2 (cs_chain s')) = Some False"
proof -
  let ?b = "toy_block_of 1 2 [3] [2]"
  obtain q where q: "process_consensus_msg small_env toy_cfg2 0 (BlockProposal ?b) (toy_m1 1) = Some q"
    "fst q = Inr (ShouldVoteAndMNotarize 2 [3] True)"
    using toy_own_proposal by auto
  then have p: "process_consensus_msg small_env toy_cfg2 0 (BlockProposal ?b) (toy_m1 1)
      = Some (Inr (ShouldVoteAndMNotarize 2 [3] True), toy_m2)"
    by (cases q) (auto simp: toy_m2_def run_msg_def)
  have g: "get_m_notarization 2 toy_m2 = Inl NoMNotarization" using m_notarize_event_without_notarization by simp
  show ?thesis
    using unnotarized_proposal_is_not_marked [of small_env toy_cfg2 toy_world "state_machine_new (toy_m1 1) 1" ?b 2 "[3]" toy_m2
      NoMNotarization "\<lambda>_. sm_ok ()" 2] p g toy_own_proposal
    by (auto simp: toy_world_def state_machine_new_def)
qed

end
