(* ===== verification/Agreement.thy ===== *)
theory Agreement
  imports Machine_Safety
begin

text \<open>
  Agreement of replicas within a view. A replica that runs the state machine of
  \<open>consensus_manager/state_machine.rs\<close> votes once per view, and two sets of \<open>N - F\<close> voters have more
  than \<open>F + 1\<close> voters in common. Together, no two replicas collect finalization quorums for different
  blocks of one view. Votes in the name of a replica that runs this code are assumed to come from
  it, which the aggregated signature scheme of the repository does not ensure by itself. A leader's
  block counts as its vote without a vote message, so nothing is assumed about votes of the leader.
\<close>

text \<open>The state \<open>s\<close> is one that the replica \<open>p\<close> reaches in some run from genesis.\<close>

definition ran :: "env \<Rightarrow> cfg \<Rightarrow> peer_id \<Rightarrow> state_machine \<Rightarrow> bool" where
  "ran E c p s \<longleftrightarrow> (\<exists>now timeout n strategy pks w sk m W inputs r.
     replica_setup E now timeout n strategy pks p w sk m
     \<and> run E c W inputs (state_machine_new m sk) = Some (r, s))"

lemma ran_votes_once:
  assumes "ark_laws E q" and "ran E c p s" and "VoteMsg x \<in> set (cs_broadcast s)" and "VoteMsg y \<in> set (cs_broadcast s)"
    and "v_view x = v_view y"
  shows "x = y"
proof -
  from assms(2) obtain now timeout n strategy pks w sk m W inputs r
    where set: "replica_setup E now timeout n strategy pks p w sk m"
      and run: "run E c W inputs (state_machine_new m sk) = Some (r, s)" unfolding ran_def by blast
  have sorted: "sorted_wrt compatible (cs_broadcast s)"
    using run_sm_inv [OF setup_sm_inv [OF assms(1) set] run] by (simp add: sm_inv_def)
  from assms(3,4) obtain i j where i: "i < length (cs_broadcast s)" "cs_broadcast s ! i = VoteMsg x"
    and j: "j < length (cs_broadcast s)" "cs_broadcast s ! j = VoteMsg y" by (auto simp: in_set_conv_nth)
  have "\<not> i < j" using sorted_wrt_nth_less [OF sorted, of i j] i j assms(5) by auto
  moreover have "\<not> j < i" using sorted_wrt_nth_less [OF sorted, of j i] i j assms(5) by auto
  ultimately show ?thesis using i j by (metis consensus_message.inject(2) linorder_neqE_nat)
qed

text \<open>Two large sets of voters have a voter in common that is neither faulty nor one given peer.\<close>

lemma quorums_share_honest:
  fixes ids :: "'a set"
  assumes "finite ids" and "A \<subseteq> ids" and "B \<subseteq> ids" and "card (ids - H) \<le> f" and "3 * f + 2 \<le> card ids"
    and "card ids - f \<le> card A" and "card ids - f \<le> card B"
  shows "\<exists>p \<in> A \<inter> B. p \<in> H \<and> p \<noteq> l"
proof (rule ccontr)
  assume "\<not> ?thesis"
  then have "A \<inter> B \<subseteq> insert l (ids - H)" using assms(2) by blast
  then have "card (A \<inter> B) \<le> card (insert l (ids - H))" using assms(1) by (intro card_mono) simp_all
  also have "\<dots> \<le> Suc f" using card_insert_le_m1 [of "Suc (card (ids - H))" "ids - H" l] assms(4)
    by (simp add: card_insert_if assms(1) le_SucI)
  finally have "card (A \<inter> B) \<le> Suc f" .
  moreover have "card A + card B = card (A \<union> B) + card (A \<inter> B)"
    using assms(1-3) by (intro card_Un_Int) (auto intro: finite_subset)
  moreover have "card (A \<union> B) \<le> card ids" using assms(1-3) by (intro card_mono) auto
  ultimately show False using assms(5-7) by linarith
qed

text \<open>C2: Agreement on finalization. Take the \<open>N\<close> peers of a network with \<open>3 * F + 2 \<le> N\<close> of which all but at
  most \<open>F\<close> run this code, each in any run of its own, and two view contexts of the same view, at
  whichever replicas. If each of them counts the valid votes of at least \<open>N - F\<close> peers for some
  block hash, and the votes counted in the name of a replica that runs this code (the leader apart)
  are votes it broadcast, then it is the same hash.\<close>

theorem finalization_agreement:
  assumes "ark_laws E q" and "\<And>p. p \<in> H \<Longrightarrow> ran E c p (S p)"
    and "finite ids" and "card ids = cN c" and "card (ids - H) \<le> cF c" and "3 * cF c + 2 \<le> cN c"
    and "vc_view_number ctx1 = vc_view_number ctx2"
    and peers: "\<And>x. x \<in> set (vc_votes ctx1) \<union> set (vc_votes ctx2) \<Longrightarrow> v_peer_id x \<in> ids"
    and cast: "\<And>x. x \<in> set (vc_votes ctx1) \<union> set (vc_votes ctx2) \<Longrightarrow> v_peer_id x \<in> H \<Longrightarrow> v_peer_id x \<noteq> leader \<Longrightarrow>
      VoteMsg x \<in> set (cs_broadcast (S (v_peer_id x)))"
    and q1: "cN c - cF c \<le> card (signers E P ctx1 h1)" and q2: "cN c - cF c \<le> card (signers E P ctx2 h2)"
  shows "h1 = h2"
proof -
  have sub: "signers E P ctx1 h1 \<subseteq> ids" "signers E P ctx2 h2 \<subseteq> ids" using peers by (auto simp: signers_def)
  obtain p where p: "p \<in> signers E P ctx1 h1" "p \<in> signers E P ctx2 h2" "p \<in> H" "p \<noteq> leader"
    using quorums_share_honest [OF assms(3) sub assms(5), of leader] assms(4,6) q1 q2 by auto
  from p(1) obtain x where x: "x \<in> set (vc_votes ctx1)" "v_peer_id x = p" "v_block_hash x = h1" "v_view x = vc_view_number ctx1"
    by (auto simp: signers_def vote_ok_def)
  from p(2) obtain y where y: "y \<in> set (vc_votes ctx2)" "v_peer_id y = p" "v_block_hash y = h2" "v_view y = vc_view_number ctx2"
    by (auto simp: signers_def vote_ok_def)
  have "VoteMsg x \<in> set (cs_broadcast (S p))" "VoteMsg y \<in> set (cs_broadcast (S p))"
    using cast [of x] cast [of y] x y p(3,4) by auto
  from ran_votes_once [OF assms(1) assms(2) [OF p(3)] this] x(4) y(4) assms(7) have "x = y" by simp
  then show ?thesis using x(3) y(3) by simp
qed

text \<open>Two replicas: the second has voted in its run, the first has not done anything yet.\<close>

definition toy_idle :: state_machine where
  "toy_idle = state_machine_new (toy_mgr 1) 1"

lemma toy_idle_ran: "ran small_env toy_cfg2 1 toy_idle"
proof -
  have "from_genesis small_env 0 100 2 RoundRobin [Some 1, Some 2] 1 (writer_new init_tables 0) = Inr (toy_mgr 1)"
    by (rule toy_mgr_from_genesis)
  moreover have "get_public_key (vm_peers (toy_mgr 1)) 1 = Inr (public_key small_env 1)" by code_simp
  ultimately have "replica_setup small_env 0 100 2 RoundRobin [Some 1, Some 2] 1 (writer_new init_tables 0) 1 (toy_mgr 1)"
    by (simp only: replica_setup_def simp_thms)
  moreover have "run small_env toy_cfg2 toy_world [] toy_idle = Some (Inr (), toy_idle)" by (simp add: run_def sm_ok_def)
  ultimately show ?thesis unfolding ran_def toy_idle_def by blast
qed

definition toy_own_vote :: "peer_id \<Rightarrow> vote" where
  "toy_own_vote p = \<lparr>v_view = 1, v_block_hash = [2], v_signature = bls_sign small_env (uint p) [2], v_peer_id = p, v_leader_id = 2\<rparr>"

lemma toy_run_2_vote: "map_option (\<lambda>(r, s). list_ex (\<lambda>msg. msg = VoteMsg (toy_own_vote 2)) (cs_broadcast s)) (toy_run toy_inputs 2) = Some True"
  by code_simp

definition toy_quorum :: view_context where
  "toy_quorum = (view_context_new 0 1 2 1 [2])\<lparr>vc_votes := [toy_own_vote 1, toy_own_vote 2]\<rparr>"

lemma toy_quorum_signers: "signers small_env toy_two toy_quorum [2] = {1, 2}"
proof -
  have "get_public_key toy_two 1 = Inr 1 \<and> vote_verify small_env (toy_own_vote 1) 1" by code_simp
  moreover have "get_public_key toy_two 2 = Inr 2 \<and> vote_verify small_env (toy_own_vote 2) 2" by code_simp
  ultimately have ok: "vote_ok small_env toy_two 1 (toy_own_vote 1)" "vote_ok small_env toy_two 1 (toy_own_vote 2)"
    by (auto simp: vote_ok_def toy_own_vote_def)
  have "{v \<in> set (vc_votes toy_quorum). v_block_hash v = [2] \<and> vote_ok small_env toy_two (vc_view_number toy_quorum) v}
      = {toy_own_vote 1, toy_own_vote 2}"
    using ok by (auto simp: toy_quorum_def view_context_new_def) (simp_all add: toy_own_vote_def)
  then show ?thesis by (simp add: signers_def) (simp add: toy_own_vote_def)
qed

theorem finalization_agreement_witness:
  "\<exists>s. ran small_env toy_cfg2 2 s \<and> {h. 2 \<le> card (signers small_env toy_two toy_quorum h)} = {[2]}"
proof -
  obtain r s where s: "toy_run toy_inputs 2 = Some (r, s)" "VoteMsg (toy_own_vote 2) \<in> set (cs_broadcast s)"
    using toy_run_2_vote by (auto simp: list_ex_iff)
  then have run: "run small_env toy_cfg2 toy_world toy_inputs (state_machine_new (toy_mgr 2) 2) = Some (r, s)"
    by (simp add: toy_run_def)
  then have ran: "ran small_env toy_cfg2 2 s" unfolding ran_def using toy_setup by blast
  have c: "cN toy_cfg2 = 2" "cF toy_cfg2 = 0" by (simp_all add: toy_cfg2_def)
  have "[2] = h" if "2 \<le> card (signers small_env toy_two toy_quorum h)" for h
  proof (rule finalization_agreement [where S = "\<lambda>p. if p = 2 then s else toy_idle" and H = "{1, 2}" and ids = "{1, 2}"
        and ?ctx1.0 = toy_quorum and ?ctx2.0 = toy_quorum and leader = 1 and c = toy_cfg2, OF small_env_ark_laws])
    show "ran small_env toy_cfg2 p (if p = 2 then s else toy_idle)" if "p \<in> {1, 2}" for p
      using that ran toy_idle_ran by auto
    show "VoteMsg x \<in> set (cs_broadcast (if v_peer_id x = 2 then s else toy_idle))"
      if "x \<in> set (vc_votes toy_quorum) \<union> set (vc_votes toy_quorum)" "v_peer_id x \<noteq> 1" for x
      using that s(2) by (auto simp: toy_quorum_def toy_own_vote_def)
    show "cN toy_cfg2 - cF toy_cfg2 \<le> card (signers small_env toy_two toy_quorum [2])" by (simp add: c toy_quorum_signers)
    show "cN toy_cfg2 - cF toy_cfg2 \<le> card (signers small_env toy_two toy_quorum h)" using that by (simp add: c)
  qed (auto simp: c toy_quorum_def toy_own_vote_def)
  then show ?thesis using ran by (auto simp: toy_quorum_signers)
qed

end
