(* ===== verification/Replica_Runs.thy ===== *)
theory Replica_Runs
  imports Machine_Safety
begin

text \<open>
  Runs of the state machine as a whole (\<open>state_machine.rs\<close>): a handler that does not return ends the
  run, and a run in which this happens.
\<close>

subsection \<open>Runs that end\<close>

lemma sm_each_append:
  "sm_each f (xs @ ys) s = (case sm_each f xs s of
      None \<Rightarrow> None | Some (Inl e, t) \<Rightarrow> Some (Inl e, t) | Some (Inr _, t) \<Rightarrow> sm_each f ys t)"
proof (induction xs arbitrary: s)
  case (Cons x xs)
  then show ?case
    by (cases "sm_try (f x) s") (auto simp: sm_then_def split: sum.split prod.split)
qed (simp add: sm_ok_def)

text \<open>A message whose handler does not return ends the run.\<close>

lemma run_stuck:
  assumes "run E c W inputs s = Some (Inr (), t)"
    and "\<And>now. process_consensus_msg E c now msg (cs_view_manager t) = None"
  shows "run E c W (inputs @ [Message msg]) s = None"
proof -
  have "handle_consensus_message E c W msg t = None"
    using assms(2) by (simp add: exec.simps body_def handle_consensus_message_body_def process_def op_defs)
  then show ?thesis
    using assms(1) by (simp add: run_def sm_each_append handle_input_def sm_then_def sm_try_def)
qed

subsection \<open>A pending block that is processed forever\<close>

lemma six_setup:
  "replica_setup small_env 0 100 6 RoundRobin (map Some [1, 2, 3, 4, 5, 6]) 6 (writer_new init_tables 0) 6 (six_mgr 6)"
proof -
  have "parsed_peers small_env (map Some [1, 2, 3, 4, 5, 6]) = Inr toy_six" by code_simp
  moreover have "round_robin_new 6 (sorted_peer_ids toy_six) = Some \<lparr>rr_n = 6, rr_replicas = [1, 2, 3, 4, 5, 6]\<rparr>" by code_simp
  moreover have "leader_for_view \<lparr>rr_n = 6, rr_replicas = [1, 2, 3, 4, 5, 6]\<rparr> 1 = Inr \<lparr>l_peer_id = 2, l_view = 1\<rparr>" by code_simp
  moreover have "get_public_key (vm_peers (six_mgr 6)) 6 = Inr (public_key small_env 6)" by code_simp
  ultimately show ?thesis by (simp add: replica_setup_def from_genesis_def six_mgr_def)
qed

definition six_mnot :: "peer_id \<Rightarrow> view_no \<Rightarrow> hash \<Rightarrow> peer_id list \<Rightarrow> m_notarization" where
  "six_mnot leader v h ps = \<lparr>mn_view = v, mn_block_hash = h,
     mn_aggregated_signature = aggregate_signatures small_env (map (\<lambda>p. bls_sign small_env (uint p) h) ps),
     mn_peer_ids = ps, mn_leader_id = leader\<rparr>"

definition six_nullification :: "peer_id \<Rightarrow> view_no \<Rightarrow> peer_id list \<Rightarrow> nullification" where
  "six_nullification leader v ps = \<lparr>nfn_view = v, nfn_leader_id = leader,
     nfn_aggregated_signature = aggregate_signatures small_env
       (map (\<lambda>p. bls_sign small_env (uint p) (nullify_message small_env v leader)) ps),
     nfn_peer_ids = ps\<rparr>"

definition six_vote :: "peer_id \<Rightarrow> view_no \<Rightarrow> hash \<Rightarrow> peer_id \<Rightarrow> vote" where
  "six_vote leader v h p = \<lparr>v_view = v, v_block_hash = h, v_signature = bls_sign small_env (uint p) h,
     v_peer_id = p, v_leader_id = leader\<rparr>"

text \<open>A run of replica 6 in which peer 1 is faulty. View 1 is notarized by the peers 1, 2 and 3; the
  block of view 2 arrives and replica 6 votes for it; view 1 is also nullified, by the peers 1, 4 and 5,
  which makes replica 6 leave view 2 in a cascade. In view 3 peer 1, which is not its leader, sends a
  block on top of the one of view 2. It has to wait, as view 2 is not notarized. View 3 is nullified, and
  the leader of view 4 proposes a block on top of the genesis block.\<close>

definition hang_inputs :: "input list" where
  "hang_inputs =
     [Message (MNotarizationMsg (six_mnot 2 1 [2] [1, 2, 3])),
      Message (BlockProposal (toy_block_of 3 2 [3] [2])),
      Message (NullificationMsg (six_nullification 2 1 [1, 4, 5])),
      Message (BlockProposal (toy_block_of 1 3 [4] [3])),
      Message (NullificationMsg (six_nullification 4 3 [3, 4, 5])),
      Message (BlockProposal (toy_block_of 5 4 [5] (genesis_hash small_env)))]"

definition hang_state :: state_machine where
  "hang_state = snd (the (run small_env toy_cfg toy_world hang_inputs (state_machine_new (six_mgr 6) 6)))"

text \<open>The vote of peer 2 for the block of view 4, the third after those of the leader and of replica 6.\<close>

definition hang_vote :: vote where
  "hang_vote = six_vote 5 4 [5] 2"

lemma hang_inputs_run:
  "map_option fst (run small_env toy_cfg toy_world hang_inputs (state_machine_new (six_mgr 6) 6)) = Some (Inr ())"
  by code_simp

definition hang_chain :: view_chain where
  "hang_chain = snd (route_vote small_env toy_cfg toy_six hang_vote (vm_view_chain (cs_view_manager hang_state)))"

lemma hang_chain_loops:
  "process_children small_env toy_cfg toy_six (views_with_m_not hang_chain) hang_chain = (Inr True, hang_chain)"
  by code_simp

lemma hang_vote_counted:
  "ch_current_view (vm_view_chain (cs_view_manager hang_state)) = 4 \<and> vm_peers (cs_view_manager hang_state) = toy_six
   \<and> (case fst (route_vote small_env toy_cfg toy_six hang_vote (vm_view_chain (cs_view_manager hang_state))) of
        Inl _ \<Rightarrow> False
      | Inr r \<Rightarrow> \<not> cv_should_await r \<and> \<not> cv_should_nullify r \<and> cv_is_enough_to_m_notarize r)"
  by code_simp

lemma hang_vote_spins: "process_consensus_msg small_env toy_cfg now (VoteMsg hang_vote) (cs_view_manager hang_state) = None"
proof -
  let ?m = "cs_view_manager hang_state"
  obtain r where "fst (route_vote small_env toy_cfg toy_six hang_vote (vm_view_chain ?m)) = Inr r"
    and r: "\<not> cv_should_await r" "\<not> cv_should_nullify r" "cv_is_enough_to_m_notarize r"
    using hang_vote_counted by (auto split: sum.splits)
  then have "route_vote small_env toy_cfg toy_six hang_vote (vm_view_chain ?m) = (Inr r, hang_chain)"
    by (simp add: hang_chain_def prod_eq_iff)
  moreover have "v_view hang_vote = 4" by (simp add: hang_vote_def six_vote_def)
  ultimately show ?thesis
    using hang_vote_counted r process_all_pending_loops [OF hang_chain_loops]
    by (simp add: process_consensus_msg_def handle_vote_def on_chain_def after_pending_def Let_def)
qed

text \<open>C32: a replica can be kept busy forever. \<open>process_all_pending_blocks\<close> repeats as long as some
  pending block was handed to \<open>add_block_proposal\<close>, also when that only stored it as pending again.
  With six replicas of which one is faulty, there is a run of an honest replica's state machine from
  genesis, in which all certificates and all other blocks are properly signed, such that after one block
  by the faulty replica, which need not be the leader (a pending block is stored before its leader and
  signature are checked), the handler of an honest replica's vote for a later view does not return.\<close>

theorem pending_block_hangs_handler:
  "replica_setup small_env 0 100 6 RoundRobin (map Some [1, 2, 3, 4, 5, 6]) 6 (writer_new init_tables 0) 6 (six_mgr 6)
   \<and> (\<exists>s. run small_env toy_cfg toy_world hang_inputs (state_machine_new (six_mgr 6) 6) = Some (Inr (), s))
   \<and> run small_env toy_cfg toy_world (hang_inputs @ [Message (VoteMsg hang_vote)]) (state_machine_new (six_mgr 6) 6) = None"
proof -
  have r: "run small_env toy_cfg toy_world hang_inputs (state_machine_new (six_mgr 6) 6) = Some (Inr (), hang_state)"
    using hang_inputs_run unfolding hang_state_def
    by (cases "run small_env toy_cfg toy_world hang_inputs (state_machine_new (six_mgr 6) 6)") auto
  from run_stuck [OF this hang_vote_spins] six_setup r show ?thesis by blast
qed

end
