(* ===== verification/Mempool.thy ===== *)
theory Mempool
  imports Chain_Types
begin

text \<open>
  The transaction pool (\<open>mempool/pool.rs\<close> and \<open>mempool/types.rs\<close>): executable transactions are
  pending, transactions behind a nonce gap are queued, and one entry per sender orders the senders
  for block building. The clock is the argument \<open>now\<close>. Nonces, fees and counters are 64-bit words
  that wrap.
\<close>

subsection \<open>Data\<close>

record validated_transaction =
  vt_tx :: transaction
  vt_received_at :: instant
  vt_priority :: u64

definition new_with_received_at :: "transaction \<Rightarrow> instant \<Rightarrow> validated_transaction" where
  "new_with_received_at tx t = \<lparr>vt_tx = tx, vt_received_at = t, vt_priority = tx_fee tx\<rparr>"

datatype sender_head = SenderHead (sh_fee: u64) (sh_received_at: instant) (sh_sender: address)

text \<open>Higher fees first, then earlier arrival, then the bytes of the sender.\<close>

definition head_cmp :: "sender_head \<Rightarrow> sender_head \<Rightarrow> bool" where
  "head_cmp a b \<longleftrightarrow> sh_fee b < sh_fee a
     \<or> sh_fee b = sh_fee a \<and> (sh_received_at a < sh_received_at b
          \<or> sh_received_at a = sh_received_at b \<and> sh_sender a < sh_sender b)"

instantiation sender_head :: linorder
begin

definition less_sender_head :: "sender_head \<Rightarrow> sender_head \<Rightarrow> bool" where
  "less_sender_head = head_cmp"

definition less_eq_sender_head :: "sender_head \<Rightarrow> sender_head \<Rightarrow> bool" where
  "less_eq_sender_head a b \<longleftrightarrow> head_cmp a b \<or> a = b"

instance
proof
  fix a b d :: sender_head
  show "(a < b) = (a \<le> b \<and> \<not> b \<le> a)"
    by (auto simp: less_sender_head_def less_eq_sender_head_def head_cmp_def)
  show "a \<le> a" by (simp add: less_eq_sender_head_def)
  show "a \<le> b \<Longrightarrow> b \<le> d \<Longrightarrow> a \<le> d" by (auto simp: less_eq_sender_head_def head_cmp_def)
  show "a \<le> b \<Longrightarrow> b \<le> a \<Longrightarrow> a = b" by (auto simp: less_eq_sender_head_def head_cmp_def)
  show "a \<le> b \<or> b \<le> a"
    by (cases a; cases b) (auto simp: less_eq_sender_head_def head_cmp_def not_less_iff_gr_or_eq)
qed

end

datatype add_result = AddedPending | AddedQueued | Rejected

type_synonym nonce_map = "(u64 \<times> hash) list"

text \<open>The set of heads is the ascending list of its elements.\<close>

record transaction_pool =
  tp_by_hash :: "(hash \<times> validated_transaction) list"
  tp_pending_by_sender :: "(address \<times> nonce_map) list"
  tp_sender_heads :: "sender_head list"
  tp_queued_by_sender :: "(address \<times> nonce_map) list"
  tp_pending_nonces :: "(address \<times> u64) list"
  tp_capacity :: nat
  tp_stats_added :: u64
  tp_stats_removed :: u64

definition DEFAULT_POOL_CAPACITY :: nat where "DEFAULT_POOL_CAPACITY = 10000"
definition MAX_QUEUED_PER_SENDER :: nat where "MAX_QUEUED_PER_SENDER = 64"
definition MIN_FEE_BUMP_PERCENT :: u64 where "MIN_FEE_BUMP_PERCENT = 110"

definition pool_new :: "nat \<Rightarrow> transaction_pool" where
  "pool_new capacity = \<lparr>tp_by_hash = [], tp_pending_by_sender = [], tp_sender_heads = [],
     tp_queued_by_sender = [], tp_pending_nonces = [], tp_capacity = capacity, tp_stats_added = 0,
     tp_stats_removed = 0\<rparr>"

definition bt_first :: "('k \<times> 'v) list \<Rightarrow> ('k \<times> 'v) option" where
  "bt_first m = (case m of [] \<Rightarrow> None | e # _ \<Rightarrow> Some e)"

definition bt_last :: "('k \<times> 'v) list \<Rightarrow> ('k \<times> 'v) option" where
  "bt_last m = (if m = [] then None else Some (last m))"

text \<open>\<open>entry(k).or_default()\<close> on a map of maps.\<close>

definition nonces_of :: "(address \<times> nonce_map) list \<Rightarrow> address \<Rightarrow> nonce_map" where
  "nonces_of mm s = (case map_of mm s of None \<Rightarrow> [] | Some m \<Rightarrow> m)"

definition get_base_nonce :: "address \<Rightarrow> transaction_pool \<Rightarrow> u64 option" where
  "get_base_nonce s p = Option.bind (map_of (tp_pending_by_sender p) s) (\<lambda>m. map_option fst (bt_first m))"

definition pool_len :: "transaction_pool \<Rightarrow> nat" where
  "pool_len p = length (tp_by_hash p)"

definition pending_len :: "transaction_pool \<Rightarrow> nat" where
  "pending_len p = sum_list (map (length \<circ> snd) (tp_pending_by_sender p))"

definition queued_len :: "transaction_pool \<Rightarrow> nat" where
  "queued_len p = sum_list (map (length \<circ> snd) (tp_queued_by_sender p))"

definition head_of :: "validated_transaction \<Rightarrow> address \<Rightarrow> sender_head" where
  "head_of vtx s = SenderHead (vt_priority vtx) (vt_received_at vtx) s"

definition insert_head :: "sender_head \<Rightarrow> transaction_pool \<Rightarrow> transaction_pool" where
  "insert_head h p = p\<lparr>tp_sender_heads := insort_insert h (tp_sender_heads p)\<rparr>"

definition remove_head :: "sender_head \<Rightarrow> transaction_pool \<Rightarrow> transaction_pool" where
  "remove_head h p = p\<lparr>tp_sender_heads := removeAll h (tp_sender_heads p)\<rparr>"

text \<open>The head of a sender from the first of its transactions in \<open>m\<close>.\<close>

definition insert_head_of :: "nonce_map \<Rightarrow> address \<Rightarrow> transaction_pool \<Rightarrow> transaction_pool" where
  "insert_head_of m s p = (case bt_first m of
      None \<Rightarrow> p
    | Some (_, h) \<Rightarrow> (case map_of (tp_by_hash p) h of None \<Rightarrow> p | Some vtx \<Rightarrow> insert_head (head_of vtx s) p))"

subsection \<open>Removing\<close>

text \<open>\<open>None\<close> when the sender has no pending transaction with this nonce.\<close>

definition remove_pending ::
    "address \<Rightarrow> u64 \<Rightarrow> validated_transaction \<Rightarrow> transaction_pool \<Rightarrow> transaction_pool option" where
  "remove_pending s n vtx p =
     (case map_of (tp_pending_by_sender p) s of
        None \<Rightarrow> None
      | Some m \<Rightarrow>
          (case map_of m n of
             None \<Rightarrow> None
           | Some _ \<Rightarrow>
               let was_head = (map_option fst (bt_first m) = Some n); m' = AList.delete n m in
               Some (if m' = [] then
                       remove_head (head_of vtx s)
                         (p\<lparr>tp_pending_by_sender := AList.delete s (tp_pending_by_sender p)\<rparr>)
                     else
                       let p' = p\<lparr>tp_pending_by_sender := AList.update s m' (tp_pending_by_sender p)\<rparr> in
                       if was_head then insert_head_of m' s (remove_head (head_of vtx s) p') else p')))"

definition remove_queued :: "address \<Rightarrow> u64 \<Rightarrow> transaction_pool \<Rightarrow> transaction_pool" where
  "remove_queued s n p =
     (case map_of (tp_queued_by_sender p) s of
        None \<Rightarrow> p
      | Some m \<Rightarrow>
          (case map_of m n of
             None \<Rightarrow> p
           | Some _ \<Rightarrow> let m' = AList.delete n m in
               p\<lparr>tp_queued_by_sender := (if m' = [] then AList.delete s (tp_queued_by_sender p)
                   else AList.update s m' (tp_queued_by_sender p))\<rparr>))"

definition pool_remove :: "hash \<Rightarrow> transaction_pool \<Rightarrow> validated_transaction option \<times> transaction_pool" where
  "pool_remove h p =
     (case map_of (tp_by_hash p) h of
        None \<Rightarrow> (None, p)
      | Some vtx \<Rightarrow>
          let s = tx_sender (vt_tx vtx); n = tx_nonce (vt_tx vtx);
              p1 = p\<lparr>tp_by_hash := AList.delete h (tp_by_hash p)\<rparr>;
              p2 = (case remove_pending s n vtx p1 of Some q \<Rightarrow> q | None \<Rightarrow> remove_queued s n p1)
          in (Some vtx, p2\<lparr>tp_stats_removed := tp_stats_removed p2 + 1\<rparr>))"

definition min_pending_fee :: "transaction_pool \<Rightarrow> u64 option" where
  "min_pending_fee p = (if tp_sender_heads p = [] then None else Some (sh_fee (last (tp_sender_heads p))))"

definition evict_lowest_pending :: "transaction_pool \<Rightarrow> transaction_pool" where
  "evict_lowest_pending p =
     (if tp_sender_heads p = [] then p
      else let s = sh_sender (last (tp_sender_heads p)) in
        (case Option.bind (get_base_nonce s p)
             (\<lambda>n. Option.bind (map_of (tp_pending_by_sender p) s) (\<lambda>m. map_of m n)) of
           None \<Rightarrow> p
         | Some h \<Rightarrow> snd (pool_remove h p)))"

subsection \<open>Adding\<close>

text \<open>\<open>None\<close> when the nonce is not pending, \<open>Some False\<close> when the fee is too low.\<close>

definition try_replace_pending ::
    "instant \<Rightarrow> address \<Rightarrow> u64 \<Rightarrow> transaction \<Rightarrow> transaction_pool \<Rightarrow> bool option \<times> transaction_pool" where
  "try_replace_pending now s n tx p =
     (case map_of (tp_pending_by_sender p) s of
        None \<Rightarrow> (None, p)
      | Some m \<Rightarrow> (case map_of m n of
          None \<Rightarrow> (None, p)
        | Some old \<Rightarrow> (case map_of (tp_by_hash p) old of
            None \<Rightarrow> (None, p)
          | Some vtx \<Rightarrow>
              let is_head = (map_option fst (bt_first m) = Some n);
                  min_replacement_fee = vt_priority vtx * MIN_FEE_BUMP_PERCENT div 100
              in if tx_fee tx < min_replacement_fee then (Some False, p)
                 else
                   let p' = p\<lparr>tp_by_hash := AList.delete old (tp_by_hash p),
                              tp_stats_removed := tp_stats_removed p + 1,
                              tp_pending_by_sender :=
                                AList.update s (bt_insert n (tx_hash tx) m) (tp_pending_by_sender p)\<rparr>
                   in (Some True,
                       if is_head
                       then insert_head (SenderHead (tx_fee tx) now s) (remove_head (head_of vtx s) p')
                       else p'))))"

definition add_to_pending ::
    "address \<Rightarrow> u64 \<Rightarrow> hash \<Rightarrow> validated_transaction \<Rightarrow> transaction_pool \<Rightarrow> transaction_pool" where
  "add_to_pending s n h vtx p =
     (let had_pending = (map_of (tp_pending_by_sender p) s \<noteq> None);
          p' = p\<lparr>tp_pending_by_sender :=
                   AList.update s (bt_insert n h (nonces_of (tp_pending_by_sender p) s)) (tp_pending_by_sender p)\<rparr>
      in if had_pending then p' else insert_head (head_of vtx s) p')"

definition add_to_queued :: "address \<Rightarrow> u64 \<Rightarrow> hash \<Rightarrow> transaction_pool \<Rightarrow> transaction_pool" where
  "add_to_queued s n h p = p\<lparr>tp_queued_by_sender :=
     AList.update s (bt_insert n h (nonces_of (tp_queued_by_sender p) s)) (tp_queued_by_sender p)\<rparr>"

definition get_pending_nonce :: "address \<Rightarrow> transaction_pool \<Rightarrow> u64 option" where
  "get_pending_nonce s p = map_of (tp_pending_nonces p) s"

definition expected_of :: "address \<Rightarrow> transaction_pool \<Rightarrow> u64" where
  "expected_of s p = (case get_pending_nonce s p of None \<Rightarrow> 0 | Some n \<Rightarrow> n)"

text \<open>One round of the loop of \<open>promote_queued\<close>, \<open>None\<close> when it breaks.\<close>

definition promote_one :: "address \<Rightarrow> transaction_pool \<Rightarrow> transaction_pool option" where
  "promote_one s p =
     (let n = expected_of s p in
      case map_of (tp_queued_by_sender p) s of
        None \<Rightarrow> None
      | Some q \<Rightarrow> (case map_of q n of
          None \<Rightarrow> None
        | Some h \<Rightarrow>
            let q' = AList.delete n q in
            Some (p\<lparr>tp_queued_by_sender := (if q' = [] then AList.delete s (tp_queued_by_sender p)
                      else AList.update s q' (tp_queued_by_sender p)),
                    tp_pending_by_sender :=
                      AList.update s (bt_insert n h (nonces_of (tp_pending_by_sender p) s)) (tp_pending_by_sender p),
                    tp_pending_nonces := AList.update s (n + 1) (tp_pending_nonces p)\<rparr>)))"

lemma length_delete_less: "map_of m k \<noteq> None \<Longrightarrow> length (AList.delete k m) < length m"
  by (induction m) (auto simp: AList.delete_eq le_imp_less_Suc split: if_splits)

lemma promote_one_decreases:
  "promote_one s p = Some p' \<Longrightarrow>
   length (nonces_of (tp_queued_by_sender p') s) < length (nonces_of (tp_queued_by_sender p) s)"
  by (auto simp: promote_one_def Let_def nonces_of_def update_conv' delete_conv' intro!: length_delete_less
      split: option.splits if_splits)

function promote_queued :: "address \<Rightarrow> transaction_pool \<Rightarrow> transaction_pool" where
  "promote_queued s p = (case promote_one s p of None \<Rightarrow> p | Some p' \<Rightarrow> promote_queued s p')"
  by pat_completeness auto
termination
  by (relation "measure (\<lambda>(s, p). length (nonces_of (tp_queued_by_sender p) s))")
    (auto dest: promote_one_decreases)

declare promote_queued.simps [simp del]

text \<open>The loop of \<open>enforce_queued_limit\<close>: the highest nonces go.\<close>

function drop_highest :: "nonce_map \<Rightarrow> transaction_pool \<Rightarrow> nonce_map \<times> transaction_pool" where
  "drop_highest q p =
     (if length q > MAX_QUEUED_PER_SENDER
      then drop_highest (butlast q)
             (p\<lparr>tp_by_hash := AList.delete (snd (last q)) (tp_by_hash p),
                tp_stats_removed := tp_stats_removed p + 1\<rparr>)
      else (q, p))"
  by pat_completeness auto
termination by (relation "measure (length \<circ> fst)") auto

declare drop_highest.simps [simp del]

definition enforce_queued_limit :: "address \<Rightarrow> transaction_pool \<Rightarrow> transaction_pool" where
  "enforce_queued_limit s p =
     (case map_of (tp_queued_by_sender p) s of
        None \<Rightarrow> p
      | Some q \<Rightarrow> (case drop_highest q p of
          (q', p') \<Rightarrow> p'\<lparr>tp_queued_by_sender := AList.update s q' (tp_queued_by_sender p')\<rparr>))"

text \<open>The replacement of a queued transaction: \<open>None\<close> when the fee is too low.\<close>

definition replace_queued :: "transaction \<Rightarrow> transaction_pool \<Rightarrow> transaction_pool option" where
  "replace_queued tx p =
     (case Option.bind (map_of (tp_queued_by_sender p) (tx_sender tx)) (\<lambda>q. map_of q (tx_nonce tx)) of
        None \<Rightarrow> Some p
      | Some old \<Rightarrow> (case map_of (tp_by_hash p) old of
          None \<Rightarrow> Some p
        | Some vtx \<Rightarrow>
            if vt_priority vtx * MIN_FEE_BUMP_PERCENT div 100 \<le> tx_fee tx
            then Some (snd (pool_remove old p)) else None))"

text \<open>Making room: \<open>None\<close> when the transaction does not pay more than the cheapest head.\<close>

definition make_room :: "transaction \<Rightarrow> transaction_pool \<Rightarrow> transaction_pool option" where
  "make_room tx p =
     (if pool_len p \<ge> tp_capacity p
      then if (case min_pending_fee p of None \<Rightarrow> False | Some f \<Rightarrow> tx_fee tx \<le> f) then None
           else Some (evict_lowest_pending p)
      else Some p)"

definition store_tx :: "validated_transaction \<Rightarrow> transaction_pool \<Rightarrow> transaction_pool" where
  "store_tx vtx p = p\<lparr>tp_by_hash := AList.update (tx_hash (vt_tx vtx)) vtx (tp_by_hash p),
     tp_stats_added := tp_stats_added p + 1\<rparr>"

definition insert_new :: "instant \<Rightarrow> transaction \<Rightarrow> u64 \<Rightarrow> transaction_pool \<Rightarrow> add_result \<times> transaction_pool" where
  "insert_new now tx expected_nonce p =
     (let s = tx_sender tx; n = tx_nonce tx; vtx = new_with_received_at tx now; p1 = store_tx vtx p
      in if n = expected_nonce
         then (AddedPending, promote_queued s
                 ((add_to_pending s n (tx_hash tx) vtx p1)
                    \<lparr>tp_pending_nonces := AList.update s (expected_nonce + 1) (tp_pending_nonces p1)\<rparr>))
         else (AddedQueued, enforce_queued_limit s (add_to_queued s n (tx_hash tx) p1)))"

definition try_add :: "instant \<Rightarrow> transaction \<Rightarrow> u64 \<Rightarrow> transaction_pool \<Rightarrow> add_result \<times> transaction_pool" where
  "try_add now tx sender_base_nonce p =
     (if map_of (tp_by_hash p) (tx_hash tx) \<noteq> None then (Rejected, p)
      else
        let s = tx_sender tx; n = tx_nonce tx;
            expected_nonce = (case get_pending_nonce s p of None \<Rightarrow> sender_base_nonce | Some e \<Rightarrow> e);
            p0 = p\<lparr>tp_pending_nonces := AList.update s expected_nonce (tp_pending_nonces p)\<rparr>
        in if n < expected_nonce then
             (case try_replace_pending now s n tx p0 of
                (Some True, p1) \<Rightarrow> (AddedPending, store_tx (new_with_received_at tx now) p1)
              | (_, p1) \<Rightarrow> (Rejected, p1))
           else case replace_queued tx p0 of
             None \<Rightarrow> (Rejected, p0)
           | Some p1 \<Rightarrow> (case make_room tx p1 of
               None \<Rightarrow> (Rejected, p1)
             | Some p2 \<Rightarrow> insert_new now tx expected_nonce p2))"

subsection \<open>Finalization\<close>

definition remove_finalized :: "hash list \<Rightarrow> transaction_pool \<Rightarrow> transaction_pool" where
  "remove_finalized hs p = fold (\<lambda>h q. snd (pool_remove h q)) hs p"

text \<open>The old head goes, the pending transactions below the new nonce go, and what is left gets its
  head.\<close>

definition remove_old_head :: "address \<Rightarrow> transaction_pool \<Rightarrow> transaction_pool" where
  "remove_old_head s p =
     (case Option.bind (get_base_nonce s p) (\<lambda>n. Option.bind (map_of (tp_pending_by_sender p) s) (\<lambda>m. map_of m n)) of
        None \<Rightarrow> p
      | Some h \<Rightarrow> (case map_of (tp_by_hash p) h of None \<Rightarrow> p | Some vtx \<Rightarrow> remove_head (head_of vtx s) p))"

definition forget_tx :: "hash \<Rightarrow> transaction_pool \<Rightarrow> transaction_pool" where
  "forget_tx h p = (case map_of (tp_by_hash p) h of
      None \<Rightarrow> p
    | Some _ \<Rightarrow> p\<lparr>tp_by_hash := AList.delete h (tp_by_hash p), tp_stats_removed := tp_stats_removed p + 1\<rparr>)"

definition drop_below :: "address \<Rightarrow> u64 \<Rightarrow> transaction_pool \<Rightarrow> transaction_pool" where
  "drop_below s new_base_nonce p =
     (case map_of (tp_pending_by_sender p) s of
        None \<Rightarrow> p
      | Some m \<Rightarrow>
          let to_keep = filter (\<lambda>(n, _). new_base_nonce \<le> n) m;
              to_remove = filter (\<lambda>(n, _). n < new_base_nonce) m;
              p1 = p\<lparr>tp_pending_by_sender := AList.delete s (tp_pending_by_sender p)\<rparr>;
              p2 = fold (\<lambda>(_, h). forget_tx h) to_remove p1
          in if to_keep = [] then p2
             else insert_head_of to_keep s
                    (p2\<lparr>tp_pending_by_sender := AList.update s to_keep (tp_pending_by_sender p2)\<rparr>))"

definition update_sender_nonce :: "address \<Rightarrow> u64 \<Rightarrow> transaction_pool \<Rightarrow> transaction_pool" where
  "update_sender_nonce s new_base_nonce p =
     (if new_base_nonce \<le> expected_of s p then p
      else promote_queued s
        (let p1 = drop_below s new_base_nonce (remove_old_head s p)
         in p1\<lparr>tp_pending_nonces := AList.update s new_base_nonce (tp_pending_nonces p1)\<rparr>))"

definition pool_clear :: "transaction_pool \<Rightarrow> transaction_pool" where
  "pool_clear p = p\<lparr>tp_by_hash := [], tp_pending_by_sender := [], tp_sender_heads := [],
     tp_queued_by_sender := [], tp_pending_nonces := []\<rparr>"

subsection \<open>Reading\<close>

definition sender_txs :: "(address \<times> nonce_map) list \<Rightarrow> address \<Rightarrow> transaction_pool \<Rightarrow> transaction list" where
  "sender_txs mm s p = map vt_tx (List.map_filter (map_of (tp_by_hash p)) (map snd (nonces_of mm s)))"

definition get_sender_pending :: "address \<Rightarrow> transaction_pool \<Rightarrow> transaction list" where
  "get_sender_pending s p = sender_txs (tp_pending_by_sender p) s p"

definition get_sender_queued :: "address \<Rightarrow> transaction_pool \<Rightarrow> transaction list" where
  "get_sender_queued s p = sender_txs (tp_queued_by_sender p) s p"

definition queued_senders :: "transaction_pool \<Rightarrow> address list" where
  "queued_senders p = map fst (tp_queued_by_sender p)"

record pool_stats =
  st_pending_size :: nat
  st_queued_size :: nat
  st_total_size :: nat
  st_capacity :: nat
  st_unique_senders :: nat
  st_total_added :: u64
  st_total_removed :: u64

definition stats :: "transaction_pool \<Rightarrow> pool_stats" where
  "stats p = \<lparr>st_pending_size = pending_len p, st_queued_size = queued_len p, st_total_size = pool_len p,
     st_capacity = tp_capacity p,
     st_unique_senders = length (remdups (map fst (tp_pending_by_sender p) @ map fst (tp_queued_by_sender p))),
     st_total_added = tp_stats_added p, st_total_removed = tp_stats_removed p\<rparr>"

text \<open>The iterator for block building: the heads that are left and the current nonce per sender.\<close>

record pending_iter =
  it_heap :: "sender_head list"
  it_current_nonces :: "(address \<times> u64) list"

definition iter_new :: "transaction_pool \<Rightarrow> pending_iter" where
  "iter_new p = \<lparr>it_heap = tp_sender_heads p,
     it_current_nonces = List.map_filter (\<lambda>(s, m). map_option (\<lambda>(n, _). (s, n)) (bt_first m)) (tp_pending_by_sender p)\<rparr>"

definition iter_next :: "transaction_pool \<Rightarrow> pending_iter \<Rightarrow> (transaction \<times> pending_iter) option" where
  "iter_next p it =
     (case it_heap it of
        [] \<Rightarrow> None
      | head # heap \<Rightarrow>
          let s = sh_sender head in
          Option.bind (map_of (it_current_nonces it) s) (\<lambda>n.
          Option.bind (map_of (tp_pending_by_sender p) s) (\<lambda>m.
          Option.bind (map_of m n) (\<lambda>h.
          Option.bind (map_of (tp_by_hash p) h) (\<lambda>vtx.
            let next_nonce = n + 1;
                heap' = (case Option.bind (map_of m next_nonce) (map_of (tp_by_hash p)) of
                    None \<Rightarrow> heap | Some vtx' \<Rightarrow> insort_insert (head_of vtx' s) heap)
            in Some (vt_tx vtx, \<lparr>it_heap = heap',
                 it_current_nonces = AList.update s next_nonce (it_current_nonces it)\<rparr>))))))"

text \<open>The first transactions that the iterator yields, at most \<open>k\<close> of them.\<close>

primrec iter_take :: "nat \<Rightarrow> transaction_pool \<Rightarrow> pending_iter \<Rightarrow> transaction list" where
  "iter_take 0 p it = []"
| "iter_take (Suc k) p it = (case iter_next p it of None \<Rightarrow> [] | Some (tx, it') \<Rightarrow> tx # iter_take k p it')"

definition iter_pending :: "transaction_pool \<Rightarrow> transaction list" where
  "iter_pending p = iter_take (pending_len p) p (iter_new p)"

subsection \<open>The invariant of the pool\<close>

definition slot :: "(address \<times> nonce_map) list \<Rightarrow> address \<Rightarrow> u64 \<Rightarrow> hash option" where
  "slot mm s n = map_of (nonces_of mm s) n"

abbreviation tx_at :: "transaction_pool \<Rightarrow> hash \<Rightarrow> validated_transaction option" where
  "tx_at p \<equiv> map_of (tp_by_hash p)"

abbreviation pending_slot :: "transaction_pool \<Rightarrow> address \<Rightarrow> u64 \<Rightarrow> hash option" where
  "pending_slot p \<equiv> slot (tp_pending_by_sender p)"

abbreviation queued_slot :: "transaction_pool \<Rightarrow> address \<Rightarrow> u64 \<Rightarrow> hash option" where
  "queued_slot p \<equiv> slot (tp_queued_by_sender p)"

text \<open>Maps of maps without empty maps.\<close>

definition mm_invar :: "(address \<times> nonce_map) list \<Rightarrow> bool" where
  "mm_invar mm \<longleftrightarrow> hm_invar mm \<and> (\<forall>s m. map_of mm s = Some m \<longrightarrow> m \<noteq> [] \<and> bt_invar m)"

lemma slot_update [simp]: "slot (AList.update s m mm) u = (if u = s then map_of m else slot mm u)"
  by (auto simp: slot_def nonces_of_def update_conv' fun_eq_iff)

lemma slot_delete [simp]: "slot (AList.delete s mm) u = (if u = s then Map.empty else slot mm u)"
  by (auto simp: slot_def nonces_of_def delete_conv' fun_eq_iff)

lemma slot_Some: "slot mm s n = Some h \<longleftrightarrow> (\<exists>m. map_of mm s = Some m \<and> map_of m n = Some h)"
  by (simp add: slot_def nonces_of_def split: option.split)

lemma mm_invar_update: "mm_invar mm \<Longrightarrow> m \<noteq> [] \<Longrightarrow> bt_invar m \<Longrightarrow> mm_invar (AList.update s m mm)"
  by (auto simp: mm_invar_def hm_invar_def update_conv' distinct_update)

lemma mm_invar_delete: "mm_invar mm \<Longrightarrow> mm_invar (AList.delete s mm)"
  by (auto simp: mm_invar_def hm_invar_def delete_conv' distinct_delete split: if_splits)

lemma mm_invarD: "mm_invar mm \<Longrightarrow> map_of mm s = Some m \<Longrightarrow> m \<noteq> [] \<and> bt_invar m"
  by (auto simp: mm_invar_def)

lemma bt_invar_nonces_of: "mm_invar mm \<Longrightarrow> bt_invar (nonces_of mm s)"
  by (auto simp: nonces_of_def dest: mm_invarD split: option.split) (simp add: bt_invar_def)

lemma bt_insert_not_Nil [simp]: "bt_insert k v m \<noteq> []"
  by (cases m) auto

text \<open>The first entry of a \<open>BTreeMap\<close>.\<close>

lemma bt_first_Nil [simp]: "bt_first [] = None"
  by (simp add: bt_first_def)

lemma bt_first_None [simp]: "bt_first m = None \<longleftrightarrow> m = []"
  by (simp add: bt_first_def split: list.split)

lemma bt_first_least:
  assumes "bt_invar m" and "bt_first m = Some (n, h)"
  shows "map_of m n = Some h" and "map_of m k = Some x \<Longrightarrow> n \<le> k"
proof -
  from assms(2) obtain m' where m: "m = (n, h) # m'" by (auto simp: bt_first_def split: list.splits)
  then show "map_of m n = Some h" by simp
  show "n \<le> k" if "map_of m k = Some x"
    using that assms(1) m by (auto simp: bt_invar_def dest!: map_of_SomeD split: if_splits)
qed

lemma bt_first_unique:
  assumes "bt_invar m" and "map_of m n = Some h" and "\<And>k x. map_of m k = Some x \<Longrightarrow> n \<le> k"
  shows "bt_first m = Some (n, h)"
proof -
  from assms(2) have "m \<noteq> []" by auto
  then obtain k x where f: "bt_first m = Some (k, x)" by (metis bt_first_None not_None_eq surj_pair)
  from bt_first_least [OF assms(1) f] assms(2,3) show ?thesis using f by (metis option.inject order.antisym)
qed

text \<open>The entry that a sender's pending transactions have to have among the heads.\<close>

definition head_entry :: "transaction_pool \<Rightarrow> address \<Rightarrow> sender_head option" where
  "head_entry p s = Option.bind (map_of (tp_pending_by_sender p) s) (\<lambda>m.
     Option.bind (bt_first m) (\<lambda>(_, h). map_option (\<lambda>v. head_of v s) (tx_at p h)))"

definition heads_inv :: "transaction_pool \<Rightarrow> bool" where
  "heads_inv p \<longleftrightarrow> sorted (tp_sender_heads p) \<and> distinct (tp_sender_heads p)
     \<and> (\<forall>hd \<in> set (tp_sender_heads p). head_entry p (sh_sender hd) = Some hd)"

definition holds :: "transaction_pool \<Rightarrow> address \<Rightarrow> u64 \<Rightarrow> hash \<Rightarrow> bool" where
  "holds p s n h \<longleftrightarrow> (\<exists>v. tx_at p h = Some v \<and> tx_sender (vt_tx v) = s \<and> tx_nonce (vt_tx v) = n)"

text \<open>Whether a nonce is below the one that is expected next from its sender.\<close>

definition below_expected :: "transaction_pool \<Rightarrow> address \<Rightarrow> u64 \<Rightarrow> bool" where
  "below_expected p s n \<longleftrightarrow> (\<exists>e. get_pending_nonce s p = Some e \<and> n < e)"

definition tx_ok :: "hash \<Rightarrow> validated_transaction \<Rightarrow> bool" where
  "tx_ok h v \<longleftrightarrow> tx_hash (vt_tx v) = h \<and> vt_priority v = tx_fee (vt_tx v) \<and> tx_nonce (vt_tx v) \<noteq> - 1"

definition index_inv :: "transaction_pool \<Rightarrow> bool" where
  "index_inv p \<longleftrightarrow> hm_invar (tp_by_hash p)
     \<and> (\<forall>h v. tx_at p h = Some v \<longrightarrow> tx_ok h v
         \<and> (pending_slot p (tx_sender (vt_tx v)) (tx_nonce (vt_tx v)) = Some h
            \<or> queued_slot p (tx_sender (vt_tx v)) (tx_nonce (vt_tx v)) = Some h))"

definition slots_inv :: "transaction_pool \<Rightarrow> bool" where
  "slots_inv p \<longleftrightarrow> mm_invar (tp_pending_by_sender p) \<and> mm_invar (tp_queued_by_sender p)
     \<and> (\<forall>s n h. pending_slot p s n = Some h \<longrightarrow>
          holds p s n h \<and> below_expected p s n \<and> queued_slot p s n = None)
     \<and> (\<forall>s n h. queued_slot p s n = Some h \<longrightarrow> holds p s n h)"

definition content_inv :: "transaction_pool \<Rightarrow> bool" where
  "content_inv p \<longleftrightarrow> index_inv p \<and> slots_inv p"

definition queues_bounded :: "nat \<Rightarrow> transaction_pool \<Rightarrow> bool" where
  "queues_bounded k p \<longleftrightarrow> (\<forall>s. length (nonces_of (tp_queued_by_sender p) s) \<le> k)"

definition pool_inv :: "transaction_pool \<Rightarrow> bool" where
  "pool_inv p \<longleftrightarrow> content_inv p \<and> heads_inv p \<and> queues_bounded MAX_QUEUED_PER_SENDER p"

lemma pool_inv_new: "pool_inv (pool_new capacity)"
  by (auto simp: pool_inv_def content_inv_def pool_new_def index_inv_def slots_inv_def heads_inv_def queues_bounded_def
      hm_invar_def mm_invar_def slot_def nonces_of_def)

lemma pool_inv_clear: "pool_inv (pool_clear p)"
  by (auto simp: pool_inv_def content_inv_def pool_clear_def index_inv_def slots_inv_def heads_inv_def queues_bounded_def
      hm_invar_def mm_invar_def slot_def nonces_of_def)

text \<open>What does not depend on the counters.\<close>

lemma pool_inv_stats [simp]:
  "pool_inv (p\<lparr>tp_stats_added := a\<rparr>) = pool_inv p" "pool_inv (p\<lparr>tp_stats_removed := a\<rparr>) = pool_inv p"
  by (simp_all add: pool_inv_def content_inv_def index_inv_def slots_inv_def heads_inv_def queues_bounded_def holds_def
      below_expected_def get_pending_nonce_def head_entry_def)

lemma insert_head_sel [simp]:
  "tp_by_hash (insert_head x p) = tp_by_hash p" "tp_pending_by_sender (insert_head x p) = tp_pending_by_sender p"
  "tp_queued_by_sender (insert_head x p) = tp_queued_by_sender p" "tp_pending_nonces (insert_head x p) = tp_pending_nonces p"
  "tp_capacity (insert_head x p) = tp_capacity p" "tp_stats_added (insert_head x p) = tp_stats_added p"
  "tp_stats_removed (insert_head x p) = tp_stats_removed p"
  "tp_by_hash (remove_head x p) = tp_by_hash p" "tp_pending_by_sender (remove_head x p) = tp_pending_by_sender p"
  "tp_queued_by_sender (remove_head x p) = tp_queued_by_sender p" "tp_pending_nonces (remove_head x p) = tp_pending_nonces p"
  "tp_capacity (remove_head x p) = tp_capacity p" "tp_stats_added (remove_head x p) = tp_stats_added p"
  "tp_stats_removed (remove_head x p) = tp_stats_removed p"
  "set (tp_sender_heads (insert_head x p)) = insert x (set (tp_sender_heads p))"
  "set (tp_sender_heads (remove_head x p)) = set (tp_sender_heads p) - {x}"
  by (simp_all add: insert_head_def remove_head_def set_insort_insert)

lemma insert_head_of_sel [simp]:
  "tp_by_hash (insert_head_of m s p) = tp_by_hash p"
  "tp_pending_by_sender (insert_head_of m s p) = tp_pending_by_sender p"
  "tp_queued_by_sender (insert_head_of m s p) = tp_queued_by_sender p"
  "tp_pending_nonces (insert_head_of m s p) = tp_pending_nonces p"
  "tp_capacity (insert_head_of m s p) = tp_capacity p"
  by (simp_all add: insert_head_of_def split: option.splits prod.splits)

lemma sorted_heads:
  "sorted (tp_sender_heads p) \<Longrightarrow> sorted (tp_sender_heads (insert_head x p))"
  "distinct (tp_sender_heads p) \<Longrightarrow> distinct (tp_sender_heads (insert_head x p))"
  "sorted (tp_sender_heads p) \<Longrightarrow> sorted (tp_sender_heads (remove_head x p))"
  "distinct (tp_sender_heads p) \<Longrightarrow> distinct (tp_sender_heads (remove_head x p))"
  by (simp_all add: insert_head_def remove_head_def sorted_insort_insert distinct_insort_insert sorted_remove1
      removeAll_filter_not_eq sorted_wrt_filter)

text \<open>The invariants of index and slots do not look at the heads, and the heads of other senders do
  not change when one sender's transactions do.\<close>

lemma head_entry_cong:
  assumes "map_of (tp_pending_by_sender q) s = map_of (tp_pending_by_sender p) s"
    and "\<And>m n h. map_of (tp_pending_by_sender p) s = Some m \<Longrightarrow> map_of m n = Some h \<Longrightarrow> tx_at q h = tx_at p h"
  shows "head_entry q s = head_entry p s"
proof (cases "map_of (tp_pending_by_sender p) s")
  case (Some m)
  show ?thesis
  proof (cases m)
    case (Cons e m')
    have "tx_at q (snd e) = tx_at p (snd e)" by (rule assms(2) [OF Some, of "fst e"]) (simp add: Cons)
    with Some Cons assms(1) show ?thesis by (cases e) (simp add: head_entry_def bt_first_def)
  qed (use Some assms(1) in \<open>simp add: head_entry_def\<close>)
qed (use assms(1) in \<open>simp add: head_entry_def\<close>)

lemma sh_sender_head_of [simp]: "sh_sender (head_of v s) = s"
  by (simp add: head_of_def)

lemma contentD:
  assumes "content_inv p"
  shows "hm_invar (tp_by_hash p)" and "mm_invar (tp_pending_by_sender p)" and "mm_invar (tp_queued_by_sender p)"
    and "tx_at p h = Some v \<Longrightarrow> tx_ok h v"
    and "tx_at p h = Some v \<Longrightarrow> pending_slot p (tx_sender (vt_tx v)) (tx_nonce (vt_tx v)) = Some h
      \<or> queued_slot p (tx_sender (vt_tx v)) (tx_nonce (vt_tx v)) = Some h"
    and "pending_slot p s n = Some h \<Longrightarrow> holds p s n h"
    and "pending_slot p s n = Some h \<Longrightarrow> below_expected p s n"
    and "pending_slot p s n = Some h \<Longrightarrow> queued_slot p s n = None"
    and "queued_slot p s n = Some h \<Longrightarrow> holds p s n h"
  using assms by (simp_all add: content_inv_def index_inv_def slots_inv_def)

lemma pool_content: "pool_inv p \<Longrightarrow> content_inv p"
  by (simp add: pool_inv_def)

lemma headsD:
  assumes "pool_inv p"
  shows "hx \<in> set (tp_sender_heads p) \<Longrightarrow> head_entry p (sh_sender hx) = Some hx"
    and "length (nonces_of (tp_queued_by_sender p) s) \<le> MAX_QUEUED_PER_SENDER"
    and "sorted (tp_sender_heads p)" and "distinct (tp_sender_heads p)"
  using assms by (simp_all add: pool_inv_def heads_inv_def queues_bounded_def)

lemmas pool_invD = contentD [OF pool_content] headsD

text \<open>A hash is in one slot only.\<close>

lemma slot_unique:
  assumes "content_inv p" and "pending_slot p s n = Some h \<or> queued_slot p s n = Some h"
    and "pending_slot p u k = Some h \<or> queued_slot p u k = Some h"
  shows "u = s \<and> k = n"
proof -
  have "holds p s n h" "holds p u k h" using assms(2,3) contentD(6,9) [OF assms(1)] by blast+
  then show ?thesis by (auto simp: holds_def)
qed

text \<open>Heads after a change of the transactions of one sender.\<close>

lemma heads_inv_change:
  assumes "heads_inv p" and "sorted (tp_sender_heads q)" and "distinct (tp_sender_heads q)"
    and "\<And>u. u \<noteq> s \<Longrightarrow> head_entry q u = head_entry p u"
    and "\<And>hx. hx \<in> set (tp_sender_heads q) \<Longrightarrow> sh_sender hx \<noteq> s \<Longrightarrow> hx \<in> set (tp_sender_heads p)"
    and "\<And>hx. hx \<in> set (tp_sender_heads q) \<Longrightarrow> sh_sender hx = s \<Longrightarrow> head_entry q s = Some hx"
  shows "heads_inv q"
  unfolding heads_inv_def
proof (intro conjI ballI)
  fix hx assume hx: "hx \<in> set (tp_sender_heads q)"
  show "head_entry q (sh_sender hx) = Some hx"
  proof (cases "sh_sender hx = s")
    case False
    with assms(1) assms(4) [of "sh_sender hx"] assms(5) [OF hx] show ?thesis by (simp add: heads_inv_def)
  qed (use assms(6) hx in simp)
qed (use assms(2,3) in simp_all)

lemma head_entry_pending:
  assumes "map_of (tp_pending_by_sender p) s = Some m" and "bt_first m = Some (n, h)" and "tx_at p h = Some v"
  shows "head_entry p s = Some (head_of v s)"
  using assms by (simp add: head_entry_def)

text \<open>What \<open>insert_head_of\<close> adds is the sender's entry.\<close>

lemma insert_head_of_heads:
  "map_of (tp_pending_by_sender p) s = Some m \<Longrightarrow>
   set (tp_sender_heads (insert_head_of m s p)) = set (tp_sender_heads p) \<union> set_option (head_entry p s)"
  "sorted (tp_sender_heads p) \<Longrightarrow> sorted (tp_sender_heads (insert_head_of m s p))"
  "distinct (tp_sender_heads p) \<Longrightarrow> distinct (tp_sender_heads (insert_head_of m s p))"
  "head_entry (insert_head_of m s p) u = head_entry p u"
  by (auto simp: insert_head_of_def head_entry_def sorted_heads split: option.splits prod.splits)

subsection \<open>Removing keeps the invariant\<close>

text \<open>Emptying the slot of a transaction together with its entry in the index.\<close>

lemma drop_slot_inv:
  assumes inv: "content_inv p" and v: "tx_at p h = Some v"
    and sn: "s = tx_sender (vt_tx v)" "n = tx_nonce (vt_tx v)"
    and "tp_by_hash q = AList.delete h (tp_by_hash p)"
    and ps: "\<And>u k. pending_slot q u k = (if u = s \<and> k = n then None else pending_slot p u k)"
    and qs: "\<And>u k. queued_slot q u k = (if u = s \<and> k = n then None else queued_slot p u k)"
    and nonces: "\<And>u. get_pending_nonce u q = get_pending_nonce u p"
    and mm: "mm_invar (tp_pending_by_sender q)" "mm_invar (tp_queued_by_sender q)"
  shows "content_inv q"
proof -
  note I = contentD [OF inv]
  have tx: "tx_at q = (tx_at p)(h := None)" by (simp add: assms(5) delete_conv')
  have only: "x = h" if "tx_at p x = Some w" "tx_sender (vt_tx w) = s" "tx_nonce (vt_tx w) = n" for x w
    using I(5) [OF that(1)] I(5) [OF v] I(8) that(2,3) sn by (metis option.distinct(1) option.inject)
  have keep: "holds q u k x" if "holds p u k x" "\<not> (u = s \<and> k = n)" for u k x
    using that sn v by (auto simp: holds_def tx)
  have "index_inv q"
    unfolding index_inv_def
  proof (intro conjI allI impI)
    show "hm_invar (tp_by_hash q)" using hm.invar_del [OF I(1), of h] by (simp add: assms(5))
    fix x w assume "tx_at q x = Some w"
    then have w: "x \<noteq> h" "tx_at p x = Some w" by (auto simp: tx split: if_splits)
    show "tx_ok x w" by (rule I(4) [OF w(2)])
    from I(5) [OF w(2)] only [OF w(2)] w(1) show "pending_slot q (tx_sender (vt_tx w)) (tx_nonce (vt_tx w)) = Some x
        \<or> queued_slot q (tx_sender (vt_tx w)) (tx_nonce (vt_tx w)) = Some x"
      by (auto simp: ps qs)
  qed
  moreover have "slots_inv q"
    unfolding slots_inv_def below_expected_def nonces
    using mm keep I(6,7,8,9) by (auto simp: ps qs below_expected_def split: if_splits)
  ultimately show ?thesis by (simp add: content_inv_def)
qed

lemma bt_first_delete:
  assumes "bt_invar m" and "bt_first m = Some (k, x)" and "k \<noteq> n"
  shows "bt_first (AList.delete n m) = Some (k, x)"
  using assms by (auto simp: bt_first_def AList.delete_eq split: list.splits)

lemma delete_Nil_iff: "AList.delete n m = [] \<longleftrightarrow> dom (map_of m) \<subseteq> {n}"
  by (auto simp: AList.delete_eq filter_empty_conv dom_map_of_conv_image_fst image_subset_iff split: prod.splits)

lemma remove_pending_inv:
  assumes inv: "pool_inv p" and v: "tx_at p h = Some v"
    and sn: "s = tx_sender (vt_tx v)" "n = tx_nonce (vt_tx v)" and pend: "pending_slot p s n = Some h"
    and p1: "p1 = p\<lparr>tp_by_hash := AList.delete h (tp_by_hash p)\<rparr>"
  shows "\<exists>q. remove_pending s n v p1 = Some q \<and> pool_inv q \<and> tp_by_hash q = AList.delete h (tp_by_hash p)
    \<and> tp_pending_nonces q = tp_pending_nonces p \<and> tp_capacity q = tp_capacity p
    \<and> tp_queued_by_sender q = tp_queued_by_sender p
    \<and> pending_slot q = (pending_slot p)(s := (pending_slot p s)(n := None))"
proof -
  note I = pool_invD [OF inv]
  from pend obtain m where m: "map_of (tp_pending_by_sender p) s = Some m" "map_of m n = Some h"
    by (auto simp: slot_Some)
  have bm: "m \<noteq> []" "bt_invar m" using mm_invarD [OF I(2) m(1)] by simp_all
  let ?m = "AList.delete n m"
  obtain k x where f: "bt_first m = Some (k, x)" using bm(1) by (metis bt_first_None not_None_eq surj_pair)
  note least = bt_first_least [OF bm(2) f]
  define q0 where "q0 = (if ?m = [] then p1\<lparr>tp_pending_by_sender := AList.delete s (tp_pending_by_sender p)\<rparr>
      else p1\<lparr>tp_pending_by_sender := AList.update s ?m (tp_pending_by_sender p)\<rparr>)"
  have slots: "pending_slot q0 = (pending_slot p)(s := (pending_slot p s)(n := None))"
  proof -
    have "map_of ?m = (map_of m)(n := None)" by (simp add: delete_conv')
    moreover have "?m = [] \<Longrightarrow> map_of ?m = Map.empty" by simp
    moreover have "pending_slot p s = map_of m" using m(1) by (simp add: slot_def nonces_of_def fun_eq_iff)
    ultimately show ?thesis by (auto simp: q0_def p1 fun_eq_iff) metis
  qed
  have q0: "tp_by_hash q0 = AList.delete h (tp_by_hash p)" "tp_queued_by_sender q0 = tp_queued_by_sender p"
    "tp_pending_nonces q0 = tp_pending_nonces p" "tp_sender_heads q0 = tp_sender_heads p" "tp_capacity q0 = tp_capacity p"
    by (simp_all add: q0_def p1)
  have tx: "tx_at q0 = (tx_at p)(h := None)" by (simp add: q0 delete_conv')
  have un: "u = s \<and> k = n" if "pending_slot p u k = Some h \<or> queued_slot p u k = Some h" for u k
    using slot_unique [OF pool_content [OF inv] _ that] pend by blast
  have "mm_invar (tp_pending_by_sender q0)"
    using I(2) bm by (auto simp: q0_def mm_invar_delete mm_invar_update bt_invar_delete)
  then have ixsl: "content_inv q0"
    by (intro drop_slot_inv [OF pool_content [OF inv] v sn]) (use I(3) in \<open>auto simp: slots q0 I(8) [OF pend] get_pending_nonce_def\<close>)
  have other: "head_entry q0 u = head_entry p u" if "u \<noteq> s" for u
    by (rule head_entry_cong) (use that un in \<open>auto simp: q0_def p1 update_conv' delete_conv' tx slot_Some\<close>)
  have own: "hx = head_of v s" if "hx \<in> set (tp_sender_heads p)" "sh_sender hx = s" "k = n" for hx
    using I(10) [OF that(1)] that(2,3) head_entry_pending [OF m(1) f] least(1) m(2) v by simp
  have own0: "hx = head_of v s" if "hx \<in> set (tp_sender_heads p)" "sh_sender hx = s" "?m = []" for hx
    using own [OF that(1,2)] that(3) least(1) by (auto simp: delete_Nil_iff)
  have same: "head_entry q0 s = head_entry p s" if "k \<noteq> n"
  proof -
    have "x \<noteq> h" using un [of s k] least(1) m(1) that by (auto simp: slot_Some)
    moreover have "?m \<noteq> []" using least(1) that by (auto simp: delete_Nil_iff)
    ultimately show ?thesis
      using m(1) f bt_first_delete [OF bm(2) f that] by (simp add: head_entry_def q0_def p1 update_conv' delete_conv')
  qed
  define q where "q = (if ?m = [] then remove_head (head_of v s) q0
      else if k = n then insert_head_of ?m s (remove_head (head_of v s) q0) else q0)"
  have rm: "remove_pending s n v p1 = Some q"
    using m f by (simp add: remove_pending_def p1 q_def q0_def Let_def)
  have hd: "heads_inv q"
  proof (rule heads_inv_change [of p _ s])
    have s0: "sorted (tp_sender_heads q0)" "distinct (tp_sender_heads q0)" using I(12,13) by (simp_all add: q0)
    then show "sorted (tp_sender_heads q)" "distinct (tp_sender_heads q)"
      by (simp_all add: q_def sorted_heads insert_head_of_heads(2,3))
    show "head_entry q u = head_entry p u" if "u \<noteq> s" for u
      using other [OF that] by (simp add: q_def insert_head_of_heads(4) head_entry_def)
  next
    fix hx assume hx: "hx \<in> set (tp_sender_heads q)"
    have pm: "map_of (tp_pending_by_sender (remove_head (head_of v s) q0)) s = Some ?m" if "?m \<noteq> []"
      using that by (simp add: q0_def update_conv')
    have he: "head_entry (remove_head y q0) u = head_entry q0 u" for y u by (simp add: head_entry_def)
    show "hx \<in> set (tp_sender_heads p)" if "sh_sender hx \<noteq> s"
      using hx that insert_head_of_heads(1) [OF pm] by (auto simp: q_def q0 he head_entry_def split: if_splits)
    show "head_entry q s = Some hx" if "sh_sender hx = s"
      using hx that insert_head_of_heads(1) [OF pm] own own0 same I(10)
      by (auto simp: q_def q0 he insert_head_of_heads(4) split: if_splits)
  qed (use inv in \<open>simp add: pool_inv_def\<close>)
  have "pool_inv q"
    using ixsl hd inv
    by (auto simp: pool_inv_def content_inv_def q_def index_inv_def slots_inv_def queues_bounded_def holds_def
        below_expected_def get_pending_nonce_def q0)
  then show ?thesis using rm slots by (auto simp: q_def q0)
qed

lemma remove_queued_inv:
  assumes inv: "pool_inv p" and v: "tx_at p h = Some v"
    and sn: "s = tx_sender (vt_tx v)" "n = tx_nonce (vt_tx v)" and que: "queued_slot p s n = Some h"
    and p1: "p1 = p\<lparr>tp_by_hash := AList.delete h (tp_by_hash p)\<rparr>"
  shows "pool_inv (remove_queued s n p1)"
    and "queued_slot (remove_queued s n p1) = (queued_slot p)(s := (queued_slot p s)(n := None))"
    and "tp_pending_by_sender (remove_queued s n p1) = tp_pending_by_sender p"
    and "tp_by_hash (remove_queued s n p1) = AList.delete h (tp_by_hash p)"
    and "tp_pending_nonces (remove_queued s n p1) = tp_pending_nonces p"
    and "tp_capacity (remove_queued s n p1) = tp_capacity p"
proof -
  note I = pool_invD [OF inv]
  from que obtain m where m: "map_of (tp_queued_by_sender p) s = Some m" "map_of m n = Some h"
    by (auto simp: slot_Some)
  have bm: "m \<noteq> []" "bt_invar m" using mm_invarD [OF I(3) m(1)] by simp_all
  let ?m = "AList.delete n m"
  define q where "q = remove_queued s n p1"
  have q: "q = p1\<lparr>tp_queued_by_sender := (if ?m = [] then AList.delete s (tp_queued_by_sender p)
      else AList.update s ?m (tp_queued_by_sender p))\<rparr>"
    using m by (simp add: q_def remove_queued_def p1 Let_def)
  have pn: "pending_slot p s n = None" using I(8) [of s n] que by (cases "pending_slot p s n") auto
  show slots: "queued_slot (remove_queued s n p1) = (queued_slot p)(s := (queued_slot p s)(n := None))"
  proof -
    have "map_of ?m = (map_of m)(n := None)" by (simp add: delete_conv')
    moreover have "?m = [] \<Longrightarrow> map_of ?m = Map.empty" by simp
    moreover have "queued_slot p s = map_of m" using m(1) by (simp add: slot_def nonces_of_def fun_eq_iff)
    ultimately show ?thesis unfolding q_def [symmetric] by (auto simp: q p1 fun_eq_iff) metis
  qed
  show "tp_pending_by_sender (remove_queued s n p1) = tp_pending_by_sender p"
    "tp_by_hash (remove_queued s n p1) = AList.delete h (tp_by_hash p)"
    "tp_pending_nonces (remove_queued s n p1) = tp_pending_nonces p"
    "tp_capacity (remove_queued s n p1) = tp_capacity p"
    unfolding q_def [symmetric] by (simp_all add: q p1)
  have "mm_invar (tp_queued_by_sender q)"
    using I(3) bm by (auto simp: q p1 mm_invar_delete mm_invar_update bt_invar_delete)
  moreover have "queued_slot q = (queued_slot p)(s := (queued_slot p s)(n := None))" using slots by (simp add: q_def)
  moreover have "tp_pending_by_sender q = tp_pending_by_sender p" "tp_by_hash q = AList.delete h (tp_by_hash p)"
    "tp_pending_nonces q = tp_pending_nonces p" by (simp_all add: q p1)
  ultimately have ixsl: "content_inv q"
    by (intro drop_slot_inv [OF pool_content [OF inv] v sn]) (use I(2) pn in \<open>auto simp: get_pending_nonce_def\<close>)
  have "x \<noteq> h" if "pending_slot p u k = Some x" for u k x
    using slot_unique [OF pool_content [OF inv], of s n h u k] que that pn by auto
  then have "head_entry q u = head_entry p u" for u
    by (intro head_entry_cong) (auto simp: q p1 slot_Some delete_conv')
  then have "heads_inv q" using inv by (auto simp: pool_inv_def heads_inv_def q p1)
  moreover have "queues_bounded MAX_QUEUED_PER_SENDER q"
    unfolding queues_bounded_def
  proof
    fix u
    have "length ?m \<le> length m" by (simp add: AList.delete_eq)
    with I(11) [of u] I(11) [of s] m(1) show "length (nonces_of (tp_queued_by_sender q) u) \<le> MAX_QUEUED_PER_SENDER"
      by (auto simp: q p1 nonces_of_def update_conv' delete_conv' split: option.splits)
  qed
  ultimately show "pool_inv (remove_queued s n p1)" using ixsl by (simp add: pool_inv_def q_def)
qed

lemma pool_remove_inv:
  assumes inv: "pool_inv p"
  shows "pool_inv (snd (pool_remove h p))" (is ?A)
    and "tp_by_hash (snd (pool_remove h p)) = AList.delete h (tp_by_hash p)" (is ?B)
    and "tp_pending_nonces (snd (pool_remove h p)) = tp_pending_nonces p" (is ?C)
    and "tp_capacity (snd (pool_remove h p)) = tp_capacity p" (is ?D)
    and "pending_slot (snd (pool_remove h p)) u k = (if pending_slot p u k = Some h then None else pending_slot p u k)" (is ?E)
    and "queued_slot (snd (pool_remove h p)) u k = (if queued_slot p u k = Some h then None else queued_slot p u k)" (is ?F)
proof -
  have "?A \<and> ?B \<and> ?C \<and> ?D \<and> ?E \<and> ?F"
  proof (cases "tx_at p h")
    case None
    then have "pending_slot p u k \<noteq> Some h" "queued_slot p u k \<noteq> Some h"
      using pool_invD(6,9) [OF inv] by (fastforce simp: holds_def)+
    moreover have "AList.delete h (tp_by_hash p) = tp_by_hash p"
      by (rule delete_id) (use None in \<open>simp add: map_of_eq_None_iff\<close>)
    ultimately show ?thesis using None inv by (simp add: pool_remove_def)
  next
    case (Some v)
    let ?s = "tx_sender (vt_tx v)" let ?n = "tx_nonce (vt_tx v)"
    let ?p1 = "p\<lparr>tp_by_hash := AList.delete h (tp_by_hash p)\<rparr>"
    note un = slot_unique [OF pool_content [OF inv], of ?s ?n h u k]
    from pool_invD(5) [OF inv Some] show ?thesis
    proof
      assume pend: "pending_slot p ?s ?n = Some h"
      from remove_pending_inv [OF inv Some refl refl pend refl] obtain q where
        q: "remove_pending ?s ?n v ?p1 = Some q" "pool_inv q" "tp_by_hash q = AList.delete h (tp_by_hash p)"
          "tp_pending_nonces q = tp_pending_nonces p" "tp_capacity q = tp_capacity p"
          "tp_queued_by_sender q = tp_queued_by_sender p"
          "pending_slot q = (pending_slot p)(?s := (pending_slot p ?s)(?n := None))" by blast
      have r: "snd (pool_remove h p) = q\<lparr>tp_stats_removed := tp_stats_removed q + 1\<rparr>"
        using q(1) Some by (simp add: pool_remove_def Let_def)
      have e: "pending_slot p u k = Some h \<longleftrightarrow> u = ?s \<and> k = ?n" using un pend by blast
      have f: "queued_slot p u k \<noteq> Some h" using un pend pool_invD(8) [OF inv pend] by auto
      have "pending_slot q u k = (if pending_slot p u k = Some h then None else pending_slot p u k)"
        unfolding e by (simp add: q(7))
      with q f show ?thesis unfolding r by simp
    next
      assume que: "queued_slot p ?s ?n = Some h"
      have "pending_slot p ?s ?n = None" using pool_invD(8) [OF inv, of ?s ?n] que by (cases "pending_slot p ?s ?n") auto
      then have "remove_pending ?s ?n v ?p1 = None"
        by (auto simp: remove_pending_def slot_def nonces_of_def split: option.splits)
      then have r: "snd (pool_remove h p) = q\<lparr>tp_stats_removed := tp_stats_removed q + 1\<rparr>"
        if "q = remove_queued ?s ?n ?p1" for q
        using that Some by (simp add: pool_remove_def Let_def)
      note q = remove_queued_inv [OF inv Some refl refl que refl]
      have e: "queued_slot p u k = Some h \<longleftrightarrow> u = ?s \<and> k = ?n" using un que by blast
      have f: "pending_slot p u k \<noteq> Some h" using un que \<open>pending_slot p ?s ?n = None\<close> by auto
      have "queued_slot (remove_queued ?s ?n ?p1) u k = (if queued_slot p u k = Some h then None else queued_slot p u k)"
        unfolding e by (simp add: q(2))
      with q f show ?thesis unfolding r [OF refl] by simp
    qed
  qed
  then show ?A ?B ?C ?D ?E ?F by simp_all
qed

subsection \<open>Adding keeps the invariant\<close>

lemma nonce_less_Suc:
  fixes n :: u64
  assumes "n \<noteq> - 1"
  shows "n < n + 1"
proof -
  have "unat n \<noteq> u64_max" using assms unat_minus_one_u64 unsigned_word_eqI by metis
  with unat_u64_le_max [of n] have "unat n < u64_max" by (rule le_neq_implies_less)
  then have "unat n + unat (1 :: u64) \<le> u64_max" by simp
  then show ?thesis by (simp add: word_less_nat_alt unat_add_u64)
qed

lemma bt_first_insert:
  "bt_first (bt_insert n h m) = (case bt_first m of
     None \<Rightarrow> Some (n, h) | Some (k, x) \<Rightarrow> if n \<le> k then Some (n, h) else Some (k, x))"
  by (cases m) (auto simp: bt_first_def)

lemma slots_invI:
  assumes "mm_invar (tp_pending_by_sender p)" and "mm_invar (tp_queued_by_sender p)"
    and "\<And>s n h. pending_slot p s n = Some h \<Longrightarrow> holds p s n h \<and> below_expected p s n \<and> queued_slot p s n = None"
    and "\<And>s n h. queued_slot p s n = Some h \<Longrightarrow> holds p s n h"
  shows "slots_inv p"
  using assms by (simp add: slots_inv_def)

text \<open>Filling a free slot with a new transaction.\<close>

lemma fill_slot_inv:
  assumes inv: "content_inv r" and new: "tx_at r h = None" and ok: "tx_ok h v"
    and sn: "s = tx_sender (vt_tx v)" "n = tx_nonce (vt_tx v)"
    and q: "hm_invar (tp_by_hash q)" "tx_at q = (tx_at r)(h \<mapsto> v)"
    and free: "pending_slot r s n = None" "queued_slot r s n = None"
    and ps: "\<And>u k. pending_slot q u k = (if pend \<and> u = s \<and> k = n then Some h else pending_slot r u k)"
    and qs: "\<And>u k. queued_slot q u k = (if \<not> pend \<and> u = s \<and> k = n then Some h else queued_slot r u k)"
    and nonces: "\<And>u k. below_expected r u k \<Longrightarrow> below_expected q u k" "pend \<Longrightarrow> below_expected q s n"
    and mm: "mm_invar (tp_pending_by_sender q)" "mm_invar (tp_queued_by_sender q)"
  shows "content_inv q"
proof -
  note I = contentD [OF inv]
  have h: "holds q s n h" using sn by (simp add: holds_def q(2))
  have keep: "holds q u k x" if "holds r u k x" for u k x
    using that new by (auto simp: holds_def q(2))
  have "index_inv q"
    unfolding index_inv_def
  proof (intro conjI allI impI)
    fix x w assume a: "tx_at q x = Some w"
    have "tx_ok x w \<and> (pending_slot q (tx_sender (vt_tx w)) (tx_nonce (vt_tx w)) = Some x
        \<or> queued_slot q (tx_sender (vt_tx w)) (tx_nonce (vt_tx w)) = Some x)"
    proof (cases "x = h")
      case True
      with a have "w = v" by (simp add: q(2))
      with True show ?thesis using ok by (cases pend) (simp_all add: ps qs sn)
    next
      case False
      with a have w: "tx_at r x = Some w" by (simp add: q(2))
      from I(4) [OF w] I(5) [OF w] free show ?thesis by (auto simp: ps qs)
    qed
    then show "tx_ok x w" "pending_slot q (tx_sender (vt_tx w)) (tx_nonce (vt_tx w)) = Some x
        \<or> queued_slot q (tx_sender (vt_tx w)) (tx_nonce (vt_tx w)) = Some x" by simp_all
  qed (rule q(1))
  moreover have "slots_inv q"
  proof (rule slots_invI [OF mm])
    fix u k x assume a: "pending_slot q u k = Some x"
    show "holds q u k x \<and> below_expected q u k \<and> queued_slot q u k = None"
    proof (cases "pend \<and> u = s \<and> k = n")
      case False
      with a have a': "pending_slot r u k = Some x" by (auto simp: ps split: if_splits)
      with I(6) [OF a'] I(7) [OF a'] I(8) [OF a'] keep nonces(1) free(1) show ?thesis by (auto simp: qs)
    qed (use a h nonces(2) free(2) in \<open>auto simp: ps qs\<close>)
  next
    fix u k x assume a: "queued_slot q u k = Some x"
    show "holds q u k x"
    proof (cases "\<not> pend \<and> u = s \<and> k = n")
      case False
      with a have "queued_slot r u k = Some x" by (auto simp: qs split: if_splits)
      then show ?thesis using I(9) keep by blast
    qed (use a h in \<open>auto simp: qs\<close>)
  qed
  ultimately show ?thesis by (simp add: content_inv_def)
qed

text \<open>Promotion moves a transaction from a queued to the same pending slot.\<close>

lemma promote_one_inv:
  assumes inv: "pool_inv p" and pr: "promote_one s p = Some q"
  shows "pool_inv q" and "tp_by_hash q = tp_by_hash p" and "tp_capacity q = tp_capacity p"
proof -
  note I = pool_invD [OF inv]
  define n where "n = expected_of s p"
  from pr obtain m h where m: "map_of (tp_queued_by_sender p) s = Some m" "map_of m n = Some h"
    by (auto simp: promote_one_def Let_def n_def split: option.splits)
  let ?m = "AList.delete n m" let ?pm = "nonces_of (tp_pending_by_sender p) s"
  have q: "q = p\<lparr>tp_queued_by_sender := (if ?m = [] then AList.delete s (tp_queued_by_sender p)
        else AList.update s ?m (tp_queued_by_sender p)),
      tp_pending_by_sender := AList.update s (bt_insert n h ?pm) (tp_pending_by_sender p),
      tp_pending_nonces := AList.update s (n + 1) (tp_pending_nonces p)\<rparr>"
    using pr m by (auto simp: promote_one_def Let_def n_def)
  show "tp_by_hash q = tp_by_hash p" "tp_capacity q = tp_capacity p" by (simp_all add: q)
  have qslot: "queued_slot p s n = Some h" using m by (auto simp: slot_Some)
  from I(9) [OF this] obtain v where v: "tx_at p h = Some v" "tx_sender (vt_tx v) = s" "tx_nonce (vt_tx v) = n"
    by (auto simp: holds_def)
  have n1: "n < n + 1" using I(4) [OF v(1)] v(3) by (intro nonce_less_Suc) (simp add: tx_ok_def)
  have below: "k < n" if "pending_slot p s k = Some x" for k x
    using I(7) [OF that] by (auto simp: below_expected_def n_def expected_of_def)
  have ps: "pending_slot q u k = (if u = s \<and> k = n then Some h else pending_slot p u k)" for u k
    by (simp add: q map_of_bt_insert slot_def)
  have qs: "queued_slot q u k = (if u = s \<and> k = n then None else queued_slot p u k)" for u k
  proof -
    have "map_of ?m = (map_of m)(n := None)" by (simp add: delete_conv')
    moreover have "?m = [] \<Longrightarrow> map_of ?m = Map.empty" by simp
    moreover have "queued_slot p s = map_of m" using m(1) by (simp add: slot_def nonces_of_def fun_eq_iff)
    ultimately show ?thesis by (auto simp: q fun_eq_iff) metis
  qed
  have be: "below_expected q u k" if "below_expected p u k" for u k
    using that n1 less_trans [of k n "n + 1"]
    by (auto simp: below_expected_def get_pending_nonce_def q update_conv' n_def expected_of_def)
  have ho: "holds q u k x = holds p u k x" for u k x by (simp add: holds_def q)
  have "below_expected q s n" using n1 by (simp add: below_expected_def get_pending_nonce_def q update_conv')
  moreover have "mm_invar (tp_pending_by_sender q)"
    using I(2) by (simp add: q mm_invar_update bt_invar_insert bt_invar_nonces_of)
  moreover have "mm_invar (tp_queued_by_sender q)"
    using I(3) mm_invarD [OF I(3) m(1)] by (simp add: q mm_invar_delete mm_invar_update bt_invar_delete)
  ultimately have "slots_inv q"
    by (intro slots_invI) (use I(6,7,8,9) be qslot in \<open>auto simp: ps qs ho split: if_splits\<close>)
  moreover have "index_inv q"
    unfolding index_inv_def
  proof (intro conjI allI impI)
    fix x w assume "tx_at q x = Some w"
    then have w: "tx_at p x = Some w" by (simp add: q)
    show "tx_ok x w" by (rule I(4) [OF w])
    have "pending_slot p s n = None" using I(8) [of s n] qslot by (cases "pending_slot p s n") auto
    with I(5) [OF w] qslot show "pending_slot q (tx_sender (vt_tx w)) (tx_nonce (vt_tx w)) = Some x
        \<or> queued_slot q (tx_sender (vt_tx w)) (tx_nonce (vt_tx w)) = Some x" by (auto simp: ps qs)
  qed (use I(1) in \<open>simp add: q\<close>)
  ultimately have "content_inv q" by (simp add: content_inv_def)
  moreover have "heads_inv q"
  proof (rule heads_inv_change [of p _ s])
    show "head_entry q u = head_entry p u" if "u \<noteq> s" for u
      by (rule head_entry_cong) (use that in \<open>simp_all add: q update_conv'\<close>)
    fix hx assume hx: "hx \<in> set (tp_sender_heads q)" "sh_sender hx = s"
    then have e: "head_entry p s = Some hx" using I(10) [of hx] by (simp add: q)
    then obtain pm k x where pm: "map_of (tp_pending_by_sender p) s = Some pm" "bt_first pm = Some (k, x)"
      by (auto simp: head_entry_def bind_eq_Some_conv)
    have "k < n" using below [of k x] bt_first_least(1) [OF _ pm(2)] mm_invarD [OF I(2) pm(1)] pm(1) by (auto simp: slot_Some)
    then have "bt_first (bt_insert n h ?pm) = Some (k, x)" using pm by (auto simp: bt_first_insert nonces_of_def)
    with e pm show "head_entry q s = Some hx" by (simp add: head_entry_def q update_conv')
  qed (use inv in \<open>simp_all add: pool_inv_def heads_inv_def q\<close>)
  moreover have "queues_bounded MAX_QUEUED_PER_SENDER q"
    unfolding queues_bounded_def
  proof
    fix u
    have "length ?m \<le> length m" by (simp add: AList.delete_eq)
    with I(11) [of u] I(11) [of s] m(1) show "length (nonces_of (tp_queued_by_sender q) u) \<le> MAX_QUEUED_PER_SENDER"
      by (auto simp: q nonces_of_def update_conv' delete_conv' split: option.splits)
  qed
  ultimately show "pool_inv q" by (simp add: pool_inv_def)
qed

lemma promote_queued_inv:
  "pool_inv p \<Longrightarrow> pool_inv (promote_queued s p) \<and> tp_by_hash (promote_queued s p) = tp_by_hash p
     \<and> tp_capacity (promote_queued s p) = tp_capacity p"
proof (induction s p rule: promote_queued.induct)
  case (1 s p)
  show ?case
  proof (cases "promote_one s p")
    case (Some q)
    then show ?thesis
      using 1(1) [OF Some] promote_one_inv [OF 1(2) Some] by (subst (1 2 3) promote_queued.simps) simp
  qed (use 1(2) in \<open>simp add: promote_queued.simps\<close>)
qed

lemma heads_inv_frame:
  assumes "heads_inv p" and "tp_sender_heads q = tp_sender_heads p" and "\<And>u. head_entry q u = head_entry p u"
  shows "heads_inv q"
  using assms by (simp add: heads_inv_def)

lemma no_head_without_pending:
  assumes "pool_inv p" and "map_of (tp_pending_by_sender p) s = None" and "hx \<in> set (tp_sender_heads p)"
  shows "sh_sender hx \<noteq> s"
  using pool_invD(10) [OF assms(1,3)] assms(2) by (auto simp: head_entry_def)

lemma new_vtx_ok: "tx_nonce tx \<noteq> - 1 \<Longrightarrow> tx_ok (tx_hash tx) (new_with_received_at tx now)"
  by (simp add: tx_ok_def new_with_received_at_def)

lemma new_vtx_sel [simp]: "vt_tx (new_with_received_at tx now) = tx"
  by (simp add: new_with_received_at_def)

text \<open>Replacing a pending transaction: as if the old one was removed and the new one filled its slot.\<close>

lemma replace_pending_inv:
  assumes inv: "pool_inv p" and rep: "try_replace_pending now (tx_sender tx) (tx_nonce tx) tx p = (Some True, p1)"
    and new: "tx_at p (tx_hash tx) = None" and nonce: "tx_nonce tx \<noteq> - 1"
  shows "pool_inv (store_tx (new_with_received_at tx now) p1)"
proof -
  note I = pool_invD [OF inv]
  let ?s = "tx_sender tx" let ?n = "tx_nonce tx" let ?h = "tx_hash tx" let ?v = "new_with_received_at tx now"
  from rep obtain m old vtx where m: "map_of (tp_pending_by_sender p) ?s = Some m" "map_of m ?n = Some old"
      "tx_at p old = Some vtx"
    by (auto simp: try_replace_pending_def Let_def split: option.splits if_splits)
  have bm: "m \<noteq> []" "bt_invar m" using mm_invarD [OF I(2) m(1)] by simp_all
  obtain k x where f: "bt_first m = Some (k, x)" using bm(1) by (metis bt_first_None not_None_eq surj_pair)
  have pend: "pending_slot p ?s ?n = Some old" using m by (auto simp: slot_Some)
  have kn: "k \<le> ?n" by (rule bt_first_least(2) [OF bm(2) f m(2)])
  define q where "q = store_tx ?v p1"
  have sel: "tp_by_hash q = AList.update ?h ?v (AList.delete old (tp_by_hash p))"
    "tp_pending_by_sender q = AList.update ?s (bt_insert ?n ?h m) (tp_pending_by_sender p)"
    "tp_queued_by_sender q = tp_queued_by_sender p" "tp_pending_nonces q = tp_pending_nonces p"
    "tp_sender_heads q = (if k = ?n then insort_insert (head_of ?v ?s) (removeAll (head_of vtx ?s) (tp_sender_heads p))
       else tp_sender_heads p)"
    using rep m f
    by (auto simp: q_def store_tx_def try_replace_pending_def Let_def insert_head_def remove_head_def head_of_def
        new_with_received_at_def split: if_splits)
  let ?r = "snd (pool_remove old p)"
  note r = pool_remove_inv [OF inv, of old]
  have un: "u = ?s \<and> j = ?n" if "pending_slot p u j = Some old \<or> queued_slot p u j = Some old" for u j
    using slot_unique [OF pool_content [OF inv] _ that] pend by blast
  have base: "pending_slot q u j = (if u = ?s \<and> j = ?n then Some ?h else pending_slot p u j)" for u j
    using m(1) by (simp add: sel map_of_bt_insert slot_def nonces_of_def)
  have ne: "y \<noteq> old \<and> y \<noteq> ?h" if "pending_slot p u j = Some y" "u \<noteq> ?s \<or> j \<noteq> ?n" for u j y
    using un [of u j] I(6) [OF that(1)] that new by (auto simp: holds_def)
  have "content_inv q"
  proof (rule fill_slot_inv [where r = ?r and h = ?h and v = ?v and pend = True and s = ?s and n = ?n])
    show "content_inv ?r" by (rule pool_content [OF r(1)])
    show "tx_at ?r ?h = None" using new by (simp add: r(2) delete_conv')
    show "hm_invar (tp_by_hash q)" unfolding sel by (intro hm.invar_put hm.invar_del I(1))
    show "tx_at q = (tx_at ?r)(?h \<mapsto> ?v)" by (simp add: sel r(2) update_conv')
    show "pending_slot ?r ?s ?n = None" by (simp add: r(5) pend)
    show "queued_slot ?r ?s ?n = None" by (simp add: r(6) I(8) [OF pend])
    show "pending_slot q u j = (if True \<and> u = ?s \<and> j = ?n then Some ?h else pending_slot ?r u j)" for u j
    proof (cases "u = ?s \<and> j = ?n")
      case False
      with un [of u j] have "pending_slot p u j \<noteq> Some old" by blast
      then show ?thesis using False by (auto simp: base r(5))
    qed (simp add: base)
    show "queued_slot q u j = (if \<not> True \<and> u = ?s \<and> j = ?n then Some ?h else queued_slot ?r u j)" for u j
    proof -
      have "queued_slot p u j \<noteq> Some old" using un [of u j] I(8) [OF pend] by auto
      then show ?thesis by (simp add: sel r(6))
    qed
    show "below_expected q u j" if "below_expected ?r u j" for u j
      using that by (simp add: below_expected_def get_pending_nonce_def sel r(3))
    show "below_expected q ?s ?n" using I(7) [OF pend] by (simp add: below_expected_def get_pending_nonce_def sel)
    show "mm_invar (tp_pending_by_sender q)" unfolding sel by (intro mm_invar_update I(2) bt_invar_insert bm(2)) simp
    show "mm_invar (tp_queued_by_sender q)" by (simp add: sel I(3))
  qed (use nonce in \<open>simp_all add: new_vtx_ok\<close>)
  moreover have "heads_inv q"
  proof (rule heads_inv_change [of p _ ?s])
    show "sorted (tp_sender_heads q)" "distinct (tp_sender_heads q)"
      using I(12,13) by (simp_all add: sel sorted_insort_insert distinct_insort_insert removeAll_filter_not_eq sorted_wrt_filter)
    show "head_entry q u = head_entry p u" if "u \<noteq> ?s" for u
      by (rule head_entry_cong)
        (use that ne [unfolded slot_Some] in \<open>auto simp: sel update_conv' delete_conv'\<close>)
    fix hx assume hx: "hx \<in> set (tp_sender_heads q)"
    show "hx \<in> set (tp_sender_heads p)" if "sh_sender hx \<noteq> ?s"
      using hx that by (auto simp: sel set_insort_insert split: if_splits)
    show "head_entry q ?s = Some hx" if s: "sh_sender hx = ?s"
    proof (cases "k = ?n")
      case True
      have "hx = head_of ?v ?s"
        using hx s I(10) [of hx] head_entry_pending [OF m(1) f, of vtx] bt_first_least(1) [OF bm(2) f] m(2,3) True
        by (auto simp: sel set_insort_insert)
      then show ?thesis using f True by (simp add: head_entry_def sel update_conv' bt_first_insert)
    next
      case False
      have "x \<noteq> old" "x \<noteq> ?h"
        using ne [of ?s k x] bt_first_least(1) [OF bm(2) f] m(1) False by (auto simp: slot_Some)
      then show ?thesis
        using hx s False kn f m(1) I(10) [of hx]
        by (auto simp: head_entry_def sel update_conv' delete_conv' bt_first_insert)
    qed
  qed (use inv in \<open>simp add: pool_inv_def\<close>)
  moreover have "queues_bounded MAX_QUEUED_PER_SENDER q" using I(11) by (simp add: queues_bounded_def sel)
  ultimately show ?thesis by (simp add: pool_inv_def q_def)
qed

text \<open>The queued transaction with the same nonce is gone afterwards.\<close>

lemma replace_queued_inv:
  assumes inv: "pool_inv p" and rep: "replace_queued tx p = Some q"
  shows "pool_inv q" and "queued_slot q (tx_sender tx) (tx_nonce tx) = None"
    and "tp_pending_nonces q = tp_pending_nonces p" and "tp_capacity q = tp_capacity p"
    and "tx_at p h = None \<Longrightarrow> tx_at q h = None" and "pool_len q \<le> pool_len p"
proof -
  let ?s = "tx_sender tx" let ?n = "tx_nonce tx"
  have "pool_inv q \<and> queued_slot q ?s ?n = None \<and> tp_pending_nonces q = tp_pending_nonces p
      \<and> tp_capacity q = tp_capacity p \<and> (tx_at p h = None \<longrightarrow> tx_at q h = None) \<and> pool_len q \<le> pool_len p"
  proof (cases "queued_slot p ?s ?n")
    case None
    then have "q = p" using rep by (auto simp: replace_queued_def slot_def nonces_of_def split: option.splits)
    then show ?thesis using inv None by simp
  next
    case (Some old)
    note r = pool_remove_inv [OF inv, of old]
    from pool_invD(9) [OF inv Some] obtain v where "tx_at p old = Some v" by (auto simp: holds_def)
    then have q: "q = snd (pool_remove old p)"
      using rep Some by (auto simp: replace_queued_def slot_Some split: if_splits)
    have "length (AList.delete old (tp_by_hash p)) \<le> length (tp_by_hash p)" by (simp add: AList.delete_eq)
    then show ?thesis unfolding q using r Some by (simp add: delete_conv' pool_len_def)
  qed
  then show "pool_inv q" "queued_slot q ?s ?n = None" "tp_pending_nonces q = tp_pending_nonces p"
    "tp_capacity q = tp_capacity p" "tx_at p h = None \<Longrightarrow> tx_at q h = None" "pool_len q \<le> pool_len p" by simp_all
qed

lemma evict_inv:
  assumes inv: "pool_inv p"
  shows "pool_inv (evict_lowest_pending p)" and "tp_pending_nonces (evict_lowest_pending p) = tp_pending_nonces p"
    and "tp_capacity (evict_lowest_pending p) = tp_capacity p"
    and "tx_at p h = None \<Longrightarrow> tx_at (evict_lowest_pending p) h = None"
    and "queued_slot p s n = None \<Longrightarrow> queued_slot (evict_lowest_pending p) s n = None"
proof -
  have "evict_lowest_pending p = p \<or> (\<exists>old. evict_lowest_pending p = snd (pool_remove old p))"
    by (auto simp: evict_lowest_pending_def Let_def split: option.splits)
  then consider "evict_lowest_pending p = p" | old where "evict_lowest_pending p = snd (pool_remove old p)" by blast
  then have "pool_inv (evict_lowest_pending p) \<and> tp_pending_nonces (evict_lowest_pending p) = tp_pending_nonces p
      \<and> tp_capacity (evict_lowest_pending p) = tp_capacity p \<and> (tx_at p h = None \<longrightarrow> tx_at (evict_lowest_pending p) h = None)
      \<and> (queued_slot p s n = None \<longrightarrow> queued_slot (evict_lowest_pending p) s n = None)"
  proof cases
    case (2 old)
    note r = pool_remove_inv [OF inv, of old]
    show ?thesis unfolding 2 using r by (simp add: delete_conv')
  qed (use inv in simp)
  then show "pool_inv (evict_lowest_pending p)" "tp_pending_nonces (evict_lowest_pending p) = tp_pending_nonces p"
    "tp_capacity (evict_lowest_pending p) = tp_capacity p"
    "tx_at p h = None \<Longrightarrow> tx_at (evict_lowest_pending p) h = None"
    "queued_slot p s n = None \<Longrightarrow> queued_slot (evict_lowest_pending p) s n = None" by simp_all
qed

lemma make_room_inv:
  assumes inv: "pool_inv p" and room: "make_room tx p = Some q"
  shows "pool_inv q" and "tp_pending_nonces q = tp_pending_nonces p" and "tp_capacity q = tp_capacity p"
    and "tx_at p h = None \<Longrightarrow> tx_at q h = None"
    and "queued_slot p s n = None \<Longrightarrow> queued_slot q s n = None"
  using room evict_inv [OF inv] inv by (auto simp: make_room_def split: if_splits)

text \<open>A new executable transaction.\<close>

lemma insert_pending_inv:
  assumes inv: "pool_inv p" and new: "tx_at p (tx_hash tx) = None" and nonce: "tx_nonce tx \<noteq> - 1"
    and e: "get_pending_nonce (tx_sender tx) p = Some (tx_nonce tx)"
    and free: "queued_slot p (tx_sender tx) (tx_nonce tx) = None"
    and v_def: "v = new_with_received_at tx now"
    and q_def: "q = (add_to_pending (tx_sender tx) (tx_nonce tx) (tx_hash tx) v (store_tx v p))
      \<lparr>tp_pending_nonces := AList.update (tx_sender tx) (tx_nonce tx + 1) (tp_pending_nonces p)\<rparr>"
  shows "pool_inv q"
proof -
  note I = pool_invD [OF inv]
  let ?s = "tx_sender tx" let ?n = "tx_nonce tx" let ?h = "tx_hash tx"
  let ?pm = "nonces_of (tp_pending_by_sender p) ?s"
  have below: "k < ?n" if "pending_slot p ?s k = Some x" for k x
    using I(7) [OF that] e by (auto simp: below_expected_def)
  have pfree: "pending_slot p ?s ?n = None" using below [of ?n] by (cases "pending_slot p ?s ?n") auto
  have sel: "tp_by_hash q = AList.update ?h v (tp_by_hash p)"
    "tp_pending_by_sender q = AList.update ?s (bt_insert ?n ?h ?pm) (tp_pending_by_sender p)"
    "tp_queued_by_sender q = tp_queued_by_sender p"
    "tp_pending_nonces q = AList.update ?s (?n + 1) (tp_pending_nonces p)"
    "tp_sender_heads q = (if map_of (tp_pending_by_sender p) ?s = None
       then insort_insert (head_of v ?s) (tp_sender_heads p) else tp_sender_heads p)"
    by (simp_all add: q_def add_to_pending_def Let_def store_tx_def insert_head_def v_def)
  have n1: "?n < ?n + 1" by (rule nonce_less_Suc [OF nonce])
  have ps: "pending_slot q u j = (if True \<and> u = ?s \<and> j = ?n then Some ?h else pending_slot p u j)" for u j
    by (simp add: sel map_of_bt_insert slot_def)
  have ci: "content_inv q"
  proof (rule fill_slot_inv [where r = p and h = ?h and v = v and pend = True and s = ?s and n = ?n, OF pool_content [OF inv] new])
    show "below_expected q u j" if "below_expected p u j" for u j
      using that n1 e less_trans [of j ?n "?n + 1"] by (auto simp: below_expected_def get_pending_nonce_def sel update_conv')
    show "below_expected q ?s ?n" using n1 by (simp add: below_expected_def get_pending_nonce_def sel update_conv')
    show "mm_invar (tp_pending_by_sender q)"
      unfolding sel by (intro mm_invar_update I(2) bt_invar_insert bt_invar_nonces_of) simp
    show "hm_invar (tp_by_hash q)" unfolding sel by (intro hm.invar_put I(1))
  qed (use nonce free pfree I(3) ps in \<open>simp_all add: sel(1,3) v_def new_vtx_ok update_conv'\<close>)
  have ne: "hy \<noteq> ?h" if "pending_slot p u j = Some hy" for u j hy
    using I(6) [OF that] new by (auto simp: holds_def)
  have hi: "heads_inv q"
  proof (rule heads_inv_change [of p _ ?s])
    show "sorted (tp_sender_heads q)" "distinct (tp_sender_heads q)"
      using I(12,13) by (simp_all add: sel sorted_insort_insert distinct_insort_insert)
    show "head_entry q u = head_entry p u" if "u \<noteq> ?s" for u
      by (rule head_entry_cong) (use that ne [unfolded slot_Some] in \<open>auto simp: sel update_conv'\<close>)
    fix hx assume hx: "hx \<in> set (tp_sender_heads q)"
    show "hx \<in> set (tp_sender_heads p)" if "sh_sender hx \<noteq> ?s"
      using hx that by (auto simp: sel set_insort_insert split: if_splits)
    show "head_entry q ?s = Some hx" if s: "sh_sender hx = ?s"
    proof (cases "map_of (tp_pending_by_sender p) ?s")
      case None
      then have "hx = head_of v ?s" using hx s no_head_without_pending [OF inv None] by (auto simp: sel set_insort_insert)
      then show ?thesis using None by (simp add: head_entry_def sel update_conv' nonces_of_def bt_first_def)
    next
      case (Some pm)
      have bm: "pm \<noteq> []" "bt_invar pm" using mm_invarD [OF I(2) Some] by simp_all
      obtain k x where f: "bt_first pm = Some (k, x)" using bm(1) by (cases pm) (auto simp: bt_first_def)
      have "pending_slot p ?s k = Some x" using bt_first_least(1) [OF bm(2) f] Some by (simp add: slot_Some)
      from below [OF this] ne [OF this] have kx: "\<not> ?n \<le> k" "x \<noteq> ?h" by simp_all
      have "head_entry q ?s = head_entry p ?s"
        using kx Some f by (simp add: sel head_entry_def update_conv' nonces_of_def bt_first_insert)
      moreover have "hx \<in> set (tp_sender_heads p)" using hx Some by (simp add: sel)
      ultimately show ?thesis using I(10) [of hx] s by simp
    qed
  qed (use inv in \<open>simp add: pool_inv_def\<close>)
  have "queues_bounded MAX_QUEUED_PER_SENDER q" using I(11) by (simp add: queues_bounded_def sel)
  with ci hi show ?thesis by (simp add: pool_inv_def)
qed

text \<open>The last entry of a \<open>BTreeMap\<close>.\<close>

lemma bt_invar_butlast: "bt_invar m \<Longrightarrow> bt_invar (butlast m)"
  by (cases m rule: rev_cases) (auto simp: bt_invar_def sorted_wrt_append)

lemma map_of_butlast:
  "bt_invar m \<Longrightarrow> m \<noteq> [] \<Longrightarrow> map_of (butlast m) = (map_of m)(fst (last m) := None)"
  by (cases m rule: rev_cases)
    (fastforce simp: bt_invar_def sorted_wrt_append fun_eq_iff map_add_def split: option.split dest: map_of_SomeD)+

lemma bt_last_mem: "bt_invar m \<Longrightarrow> m \<noteq> [] \<Longrightarrow> map_of m (fst (last m)) = Some (snd (last m))"
  by (simp add: bt_invar_distinct)

lemma update_same: "map_of al k = Some v \<Longrightarrow> AList.update k v al = al"
  by (induction al) (auto split: if_splits)

lemma length_bt_insert: "length (bt_insert k v m) \<le> Suc (length m)"
  by (induction m) auto

text \<open>One transaction too many in the queue of one sender.\<close>

lemma enforce_queued_limit_inv:
  assumes con: "content_inv p" and heads: "heads_inv p"
    and len: "length (nonces_of (tp_queued_by_sender p) s) \<le> Suc MAX_QUEUED_PER_SENDER"
    and others: "\<And>u. u \<noteq> s \<Longrightarrow> length (nonces_of (tp_queued_by_sender p) u) \<le> MAX_QUEUED_PER_SENDER"
  shows "pool_inv (enforce_queued_limit s p)"
proof (cases "length (nonces_of (tp_queued_by_sender p) s) \<le> MAX_QUEUED_PER_SENDER")
  case True
  then have "enforce_queued_limit s p = p"
    by (cases "map_of (tp_queued_by_sender p) s")
      (auto simp: enforce_queued_limit_def drop_highest.simps nonces_of_def update_same)
  moreover have "queues_bounded MAX_QUEUED_PER_SENDER p"
    unfolding queues_bounded_def using True others by (metis (full_types))
  ultimately show ?thesis using con heads by (simp add: pool_inv_def)
next
  case False
  note I = contentD [OF con]
  from False obtain m where m: "map_of (tp_queued_by_sender p) s = Some m" "length m = Suc MAX_QUEUED_PER_SENDER"
    using len by (auto simp: nonces_of_def split: option.splits)
  have bm: "m \<noteq> []" "bt_invar m" using mm_invarD [OF I(3) m(1)] by simp_all
  define n where "n = fst (last m)"
  define h where "h = snd (last m)"
  define q where "q = enforce_queued_limit s p"
  have mn: "map_of m n = Some h" unfolding n_def h_def by (rule bt_last_mem [OF bm(2,1)])
  have ne: "butlast m \<noteq> []" using m(2) by (cases m rule: rev_cases) (auto simp: MAX_QUEUED_PER_SENDER_def)
  have sel: "tp_by_hash q = AList.delete h (tp_by_hash p)" "tp_pending_by_sender q = tp_pending_by_sender p"
    "tp_queued_by_sender q = AList.update s (butlast m) (tp_queued_by_sender p)"
    "tp_pending_nonces q = tp_pending_nonces p" "tp_sender_heads q = tp_sender_heads p"
    using m by (simp_all add: q_def enforce_queued_limit_def drop_highest.simps [of m]
        drop_highest.simps [of "butlast m"] h_def)
  have qslot: "queued_slot p s n = Some h" using m(1) mn by (auto simp: slot_Some)
  from I(9) [OF this] obtain v where v: "tx_at p h = Some v" "tx_sender (vt_tx v) = s" "tx_nonce (vt_tx v) = n"
    by (auto simp: holds_def)
  have pnone: "pending_slot p s n = None" using I(8) [of s n] qslot by (cases "pending_slot p s n") auto
  have ci: "content_inv q"
  proof (rule drop_slot_inv [OF con v(1), of s n])
    show "pending_slot q u k = (if u = s \<and> k = n then None else pending_slot p u k)" for u k
      using pnone by (auto simp: sel)
    show "queued_slot q u k = (if u = s \<and> k = n then None else queued_slot p u k)" for u k
      using m(1) by (simp add: sel map_of_butlast [OF bm(2,1)] n_def slot_def nonces_of_def)
    show "mm_invar (tp_queued_by_sender q)"
      unfolding sel by (intro mm_invar_update I(3) ne bt_invar_butlast bm)
  qed (use v I(2) in \<open>simp_all add: sel get_pending_nonce_def\<close>)
  have "x \<noteq> h" if "pending_slot p u k = Some x" for u k x
    using slot_unique [OF con, of s n h u k] that qslot pnone by auto
  then have "head_entry q u = head_entry p u" for u
    by (intro head_entry_cong) (auto simp: sel delete_conv' slot_Some)
  then have hi: "heads_inv q" by (rule heads_inv_frame [OF heads sel(5)])
  have "length (nonces_of (tp_queued_by_sender q) u) \<le> MAX_QUEUED_PER_SENDER" for u
    using others [of u] m(2) by (cases "u = s") (simp_all add: sel nonces_of_def update_conv')
  with ci hi show ?thesis by (simp add: pool_inv_def queues_bounded_def flip: q_def)
qed

text \<open>A new transaction behind a gap.\<close>

lemma insert_queued_inv:
  assumes inv: "pool_inv p" and new: "tx_at p (tx_hash tx) = None" and nonce: "tx_nonce tx \<noteq> - 1"
    and e: "get_pending_nonce (tx_sender tx) p = Some e" "e \<le> tx_nonce tx"
    and free: "queued_slot p (tx_sender tx) (tx_nonce tx) = None"
    and v_def: "v = new_with_received_at tx now"
    and q_def: "q = add_to_queued (tx_sender tx) (tx_nonce tx) (tx_hash tx) (store_tx v p)"
  shows "pool_inv (enforce_queued_limit (tx_sender tx) q)"
proof -
  note I = pool_invD [OF inv]
  let ?s = "tx_sender tx" let ?n = "tx_nonce tx" let ?h = "tx_hash tx"
  let ?qm = "nonces_of (tp_queued_by_sender p) ?s"
  have pfree: "pending_slot p ?s ?n = None"
    using I(7) [of ?s ?n] e by (cases "pending_slot p ?s ?n") (auto simp: below_expected_def)
  have sel: "tp_by_hash q = AList.update ?h v (tp_by_hash p)" "tp_pending_by_sender q = tp_pending_by_sender p"
    "tp_queued_by_sender q = AList.update ?s (bt_insert ?n ?h ?qm) (tp_queued_by_sender p)"
    "tp_pending_nonces q = tp_pending_nonces p" "tp_sender_heads q = tp_sender_heads p"
    by (simp_all add: q_def add_to_queued_def store_tx_def v_def)
  have qs: "queued_slot q u j = (if \<not> False \<and> u = ?s \<and> j = ?n then Some ?h else queued_slot p u j)" for u j
    by (simp add: sel map_of_bt_insert slot_def)
  have ci: "content_inv q"
  proof (rule fill_slot_inv [where r = p and h = ?h and v = v and pend = False and s = ?s and n = ?n, OF pool_content [OF inv] new])
    show "mm_invar (tp_queued_by_sender q)"
      unfolding sel by (intro mm_invar_update I(3) bt_invar_insert bt_invar_nonces_of) simp
    show "hm_invar (tp_by_hash q)" unfolding sel by (intro hm.invar_put I(1))
  qed (use nonce free pfree I(2) qs in
      \<open>simp_all add: sel(1,2,4) v_def new_vtx_ok update_conv' below_expected_def get_pending_nonce_def\<close>)
  have "x \<noteq> ?h" if "pending_slot p u k = Some x" for u k x
    using I(6) [OF that] new by (auto simp: holds_def)
  then have "head_entry q u = head_entry p u" for u
    by (intro head_entry_cong) (auto simp: sel update_conv' slot_Some)
  with inv have hi: "heads_inv q" by (auto intro: heads_inv_frame [of p] simp: pool_inv_def sel)
  show ?thesis
  proof (rule enforce_queued_limit_inv [OF ci hi])
    show "length (nonces_of (tp_queued_by_sender q) ?s) \<le> Suc MAX_QUEUED_PER_SENDER"
      using I(11) [of ?s] length_bt_insert [of ?n ?h ?qm] by (simp add: sel nonces_of_def [of "AList.update _ _ _"] update_conv')
    show "length (nonces_of (tp_queued_by_sender q) u) \<le> MAX_QUEUED_PER_SENDER" if "u \<noteq> ?s" for u
      using I(11) [of u] that by (simp add: sel nonces_of_def update_conv')
  qed
qed

text \<open>The expected nonce of a sender only grows.\<close>

lemma raise_nonce_inv:
  assumes inv: "pool_inv p" and up: "\<And>e. get_pending_nonce s p = Some e \<Longrightarrow> e \<le> e'"
  shows "pool_inv (p\<lparr>tp_pending_nonces := AList.update s e' (tp_pending_nonces p)\<rparr>)" (is "pool_inv ?q")
proof -
  have "below_expected ?q u n" if "below_expected p u n" for u n
    using that up less_le_trans [of n _ e'] by (auto simp: below_expected_def get_pending_nonce_def update_conv')
  with inv show ?thesis
    by (simp add: pool_inv_def content_inv_def index_inv_def slots_inv_def heads_inv_def queues_bounded_def holds_def
        head_entry_def)
qed

lemma insert_new_inv:
  assumes inv: "pool_inv p" and new: "tx_at p (tx_hash tx) = None" and nonce: "tx_nonce tx \<noteq> - 1"
    and e: "get_pending_nonce (tx_sender tx) p = Some e" "e \<le> tx_nonce tx"
    and free: "queued_slot p (tx_sender tx) (tx_nonce tx) = None"
  shows "pool_inv (snd (insert_new now tx e p))"
proof (cases "tx_nonce tx = e")
  case True
  then show ?thesis
    using insert_pending_inv [OF inv new nonce _ free refl refl, of now] e
    by (simp add: insert_new_def Let_def promote_queued_inv store_tx_def)
next
  case False
  then show ?thesis
    using insert_queued_inv [OF inv new nonce e free refl refl, of now] by (simp add: insert_new_def Let_def)
qed

lemma try_add_unfold:
  assumes "tx_at p (tx_hash tx) = None"
    and "e = (case get_pending_nonce (tx_sender tx) p of None \<Rightarrow> base | Some e \<Rightarrow> e)"
    and "p0 = p\<lparr>tp_pending_nonces := AList.update (tx_sender tx) e (tp_pending_nonces p)\<rparr>"
  shows "try_add now tx base p = (if tx_nonce tx < e then
      (case try_replace_pending now (tx_sender tx) (tx_nonce tx) tx p0 of
         (Some True, p1) \<Rightarrow> (AddedPending, store_tx (new_with_received_at tx now) p1) | (_, p1) \<Rightarrow> (Rejected, p1))
      else case replace_queued tx p0 of None \<Rightarrow> (Rejected, p0)
        | Some p1 \<Rightarrow> (case make_room tx p1 of None \<Rightarrow> (Rejected, p1) | Some p2 \<Rightarrow> insert_new now tx e p2))"
  unfolding try_add_def Let_def assms(2,3) using assms(1) by simp

lemma try_add_inv:
  assumes inv: "pool_inv p" and nonce: "tx_nonce tx \<noteq> - 1"
  shows "pool_inv (snd (try_add now tx base p))"
proof (cases "tx_at p (tx_hash tx)")
  case new: None
  define e where "e = (case get_pending_nonce (tx_sender tx) p of None \<Rightarrow> base | Some e \<Rightarrow> e)"
  define p0 where "p0 = p\<lparr>tp_pending_nonces := AList.update (tx_sender tx) e (tp_pending_nonces p)\<rparr>"
  have p0: "pool_inv p0" "tx_at p0 (tx_hash tx) = None" "get_pending_nonce (tx_sender tx) p0 = Some e"
    using raise_nonce_inv [OF inv, of "tx_sender tx" e] new
    by (simp_all add: p0_def e_def get_pending_nonce_def update_conv')
  note unfold = try_add_unfold [OF new e_def p0_def]
  show ?thesis
  proof (cases "tx_nonce tx < e")
    case True
    obtain r p1 where rep: "try_replace_pending now (tx_sender tx) (tx_nonce tx) tx p0 = (r, p1)" by fastforce
    show ?thesis
    proof (cases "r = Some True")
      case True
      then show ?thesis
        using replace_pending_inv [OF p0(1) _ p0(2) nonce, of now] \<open>tx_nonce tx < e\<close> rep by (simp add: unfold)
    next
      case False
      then have "p1 = p0" using rep
        by (auto simp: try_replace_pending_def Let_def split: option.splits if_splits)
      then show ?thesis using p0(1) False \<open>tx_nonce tx < e\<close> rep by (auto simp: unfold split: option.split bool.split)
    qed
  next
    case False
    then have le: "e \<le> tx_nonce tx" by simp
    show ?thesis
    proof (cases "replace_queued tx p0")
      case (Some p1)
      note r = replace_queued_inv [OF p0(1) Some]
      show ?thesis
      proof (cases "make_room tx p1")
        case (Some p2)
        note m = make_room_inv [OF r(1) Some]
        have "pool_inv (snd (insert_new now tx e p2))"
          by (rule insert_new_inv [OF m(1) m(4) [OF r(5) [OF p0(2)]] nonce _ le m(5) [OF r(2)]])
            (use p0(3) in \<open>simp add: get_pending_nonce_def m(2) r(3)\<close>)
        then show ?thesis using False \<open>replace_queued tx p0 = Some p1\<close> Some by (simp add: unfold)
      qed (use False Some r(1) in \<open>simp add: unfold\<close>)
    qed (use False p0(1) in \<open>simp add: unfold\<close>)
  qed
qed (use inv in \<open>simp add: try_add_def\<close>)

lemma remove_finalized_inv: "pool_inv p \<Longrightarrow> pool_inv (remove_finalized hs p)"
  by (induction hs arbitrary: p) (simp_all add: remove_finalized_def pool_remove_inv)

subsection \<open>A new base nonce keeps the invariant\<close>

lemma forget_tx_sel [simp]:
  "tp_by_hash (forget_tx h p) = AList.delete h (tp_by_hash p)"
  "tp_pending_by_sender (forget_tx h p) = tp_pending_by_sender p" "tp_queued_by_sender (forget_tx h p) = tp_queued_by_sender p"
  "tp_pending_nonces (forget_tx h p) = tp_pending_nonces p" "tp_sender_heads (forget_tx h p) = tp_sender_heads p"
  "tp_capacity (forget_tx h p) = tp_capacity p"
  by (auto simp: forget_tx_def map_of_eq_None_iff delete_id split: option.split)

lemma forget_txs:
  fixes xs :: nonce_map
  defines "q p \<equiv> fold (\<lambda>(_, h). forget_tx h) xs p"
  shows "tx_at (q p) x = (if x \<in> snd ` set xs then None else tx_at p x)"
    and "hm_invar (tp_by_hash p) \<Longrightarrow> hm_invar (tp_by_hash (q p))"
    and "tp_pending_by_sender (q p) = tp_pending_by_sender p" and "tp_queued_by_sender (q p) = tp_queued_by_sender p"
    and "tp_pending_nonces (q p) = tp_pending_nonces p" and "tp_sender_heads (q p) = tp_sender_heads p"
    and "tp_capacity (q p) = tp_capacity p"
  unfolding q_def by (induction xs arbitrary: p) (auto simp: delete_conv' hm.invar_del)

text \<open>Dropping all pending transactions of a sender, with its head.\<close>

lemma drop_sender_inv:
  assumes inv: "pool_inv p" and m: "map_of (tp_pending_by_sender p) s = Some m"
    and tx: "\<And>x. tx_at q x = (if x \<in> snd ` set m then None else tx_at p x)" and hm: "hm_invar (tp_by_hash q)"
    and sel: "tp_pending_by_sender q = AList.delete s (tp_pending_by_sender p)"
      "tp_queued_by_sender q = tp_queued_by_sender p" "tp_pending_nonces q = tp_pending_nonces p"
      "tp_sender_heads q = filter (\<lambda>hx. sh_sender hx \<noteq> s) (tp_sender_heads p)"
  shows "pool_inv q"
proof -
  note I = pool_invD [OF inv]
  have bm: "bt_invar m" using mm_invarD [OF I(2) m] by simp
  have in_m: "x \<in> snd ` set m \<longleftrightarrow> (\<exists>n. pending_slot p s n = Some x)" for x
    using m bt_invar_distinct [OF bm] by (force simp: slot_def nonces_of_def dest: map_of_SomeD)
  have out: "x \<notin> snd ` set m" if a: "pending_slot p u k = Some x \<and> u \<noteq> s \<or> queued_slot p u k = Some x" for u k x
  proof
    assume "x \<in> snd ` set m"
    then obtain n where n: "pending_slot p s n = Some x" by (auto simp: in_m)
    with slot_unique [OF pool_content [OF inv], of s n x u k] a have "u = s" "k = n" by auto
    with a I(8) [OF n] show False by simp
  qed
  have "index_inv q"
    unfolding index_inv_def
  proof (intro conjI allI impI hm)
    fix x w assume "tx_at q x = Some w"
    then have w: "tx_at p x = Some w" "x \<notin> snd ` set m" by (auto simp: tx split: if_splits)
    show "tx_ok x w" by (rule I(4) [OF w(1)])
    from I(5) [OF w(1)] w(2) show "pending_slot q (tx_sender (vt_tx w)) (tx_nonce (vt_tx w)) = Some x
        \<or> queued_slot q (tx_sender (vt_tx w)) (tx_nonce (vt_tx w)) = Some x"
      by (auto simp: sel in_m)
  qed
  moreover have "slots_inv q"
  proof (rule slots_invI)
    have keep: "holds q u k x" if "holds p u k x" "x \<notin> snd ` set m" for u k x
      using that by (auto simp: holds_def tx)
    show "holds q u k x \<and> below_expected q u k \<and> queued_slot q u k = None" if "pending_slot q u k = Some x" for u k x
      using that out [of u k x] I(6,7,8) [of u k x] keep [of u k x]
      by (auto simp: sel below_expected_def get_pending_nonce_def split: if_splits)
    show "holds q u k x" if "queued_slot q u k = Some x" for u k x
      using that out [of u k x] I(9) [of u k x] keep [of u k x] by (auto simp: sel)
  qed (use I(2,3) in \<open>simp_all add: sel mm_invar_delete\<close>)
  moreover have "heads_inv q"
  proof (rule heads_inv_change [of p _ s])
    show "head_entry q u = head_entry p u" if "u \<noteq> s" for u
      by (rule head_entry_cong) (use that out in \<open>auto simp: sel tx delete_conv' slot_Some\<close>)
  qed (use inv I(12,13) in \<open>auto simp: pool_inv_def sel sorted_wrt_filter\<close>)
  moreover have "queues_bounded MAX_QUEUED_PER_SENDER q" using I(11) by (simp add: queues_bounded_def sel)
  ultimately show ?thesis by (simp add: pool_inv_def content_inv_def)
qed

text \<open>Whatever is pending is below the expected nonce, so nothing is kept when the base nonce passes it.\<close>

lemma update_sender_nonce_inv:
  assumes inv: "pool_inv p"
  shows "pool_inv (update_sender_nonce s n p)"
proof (cases "n \<le> expected_of s p")
  case False
  note I = pool_invD [OF inv]
  define q where "q = drop_below s n (remove_old_head s p)"
  have low: "k < n" if "pending_slot p s k = Some x" for k x
    using I(7) [OF that] False by (auto simp: below_expected_def expected_of_def)
  have "pool_inv q \<and> tp_pending_nonces q = tp_pending_nonces p"
  proof (cases "map_of (tp_pending_by_sender p) s")
    case None
    then have "q = p" by (simp add: q_def drop_below_def remove_old_head_def get_base_nonce_def)
    then show ?thesis using inv by simp
  next
    case (Some m)
    have bm: "m \<noteq> []" "bt_invar m" using mm_invarD [OF I(2) Some] by simp_all
    obtain k x where f: "bt_first m = Some (k, x)" using bm(1) by (cases m) (auto simp: bt_first_def)
    have x: "map_of m k = Some x" by (rule bt_first_least(1) [OF bm(2) f])
    then obtain v where v: "tx_at p x = Some v" using I(6) [of s k x] Some by (auto simp: slot_Some holds_def)
    have old: "remove_old_head s p = remove_head (head_of v s) p"
      using Some f x v by (simp add: remove_old_head_def get_base_nonce_def)
    have "\<forall>(k, x) \<in> set m. k < n"
      using low Some bt_invar_distinct [OF bm(2)] by (force simp: slot_def nonces_of_def)
    then have "filter (\<lambda>(k, _). n \<le> k) m = []" "filter (\<lambda>(k, _). k < n) m = m"
      by (auto simp: filter_empty_conv filter_id_conv)
    then have q: "q = fold (\<lambda>(_, h). forget_tx h) m
        ((remove_head (head_of v s) p)\<lparr>tp_pending_by_sender := AList.delete s (tp_pending_by_sender p)\<rparr>)"
      using Some by (simp add: q_def old drop_below_def Let_def)
    have own: "head_of v s \<noteq> hx \<longleftrightarrow> sh_sender hx \<noteq> s" if "hx \<in> set (tp_sender_heads p)" for hx
      using I(10) [OF that] head_entry_pending [OF Some f v] by auto
    have heads: "removeAll (head_of v s) (tp_sender_heads p) = filter (\<lambda>hx. sh_sender hx \<noteq> s) (tp_sender_heads p)"
      unfolding removeAll_filter_not_eq by (rule filter_cong) (simp_all add: own)
    have "pool_inv q"
      by (rule drop_sender_inv [OF inv Some]) (use I(1) in \<open>simp_all add: q forget_txs remove_head_def heads\<close>)
    then show ?thesis by (simp add: q forget_txs)
  qed
  then have "pool_inv (q\<lparr>tp_pending_nonces := AList.update s n (tp_pending_nonces q)\<rparr>)"
    using False by (intro raise_nonce_inv) (auto simp: get_pending_nonce_def expected_of_def)
  then show ?thesis using False by (simp add: update_sender_nonce_def q_def Let_def promote_queued_inv)
qed (use inv in \<open>simp add: update_sender_nonce_def\<close>)

subsection \<open>The iterator for block building\<close>

text \<open>The entry that the current nonce of a sender has to have on the heap.\<close>

definition iter_entry :: "transaction_pool \<Rightarrow> pending_iter \<Rightarrow> address \<Rightarrow> sender_head option" where
  "iter_entry p it s = Option.bind (map_of (it_current_nonces it) s) (\<lambda>n.
     Option.bind (pending_slot p s n) (\<lambda>h. map_option (\<lambda>v. head_of v s) (tx_at p h)))"

definition iter_inv :: "transaction_pool \<Rightarrow> pending_iter \<Rightarrow> bool" where
  "iter_inv p it \<longleftrightarrow> distinct (it_heap it) \<and> (\<forall>hx \<in> set (it_heap it). iter_entry p it (sh_sender hx) = Some hx)"

lemma map_of_map_filter:
  "distinct (map fst xs) \<Longrightarrow>
   map_of (List.map_filter (\<lambda>(s, m). map_option (\<lambda>y. (s, f y)) (g m)) xs) s
     = Option.bind (map_of xs s) (\<lambda>m. map_option f (g m))"
proof (induction xs)
  case (Cons x xs)
  obtain u m where x: "x = (u, m)" by (cases x)
  have "map_of xs u = None" using Cons.prems by (simp add: x map_of_eq_None_iff)
  then show ?case using Cons by (cases "g m") (auto simp: x map_filter_simps)
qed (simp add: map_filter_simps)

lemma iter_new_nonce:
  assumes "mm_invar (tp_pending_by_sender p)"
  shows "map_of (it_current_nonces (iter_new p)) s = get_base_nonce s p"
  using map_of_map_filter [of "tp_pending_by_sender p" fst bt_first s] assms
  by (simp add: iter_new_def get_base_nonce_def mm_invar_def hm_invar_def case_prod_unfold)

lemma iter_new_inv:
  assumes "pool_inv p"
  shows "iter_inv p (iter_new p)"
proof -
  note I = pool_invD [OF assms]
  have "iter_entry p (iter_new p) s = head_entry p s" for s
  proof (cases "map_of (tp_pending_by_sender p) s")
    case (Some m)
    then show ?thesis
      using bt_first_least(1) [of m] mm_invarD [OF I(2) Some]
      by (cases "bt_first m")
        (auto simp: iter_entry_def iter_new_nonce [OF I(2)] get_base_nonce_def head_entry_def slot_def nonces_of_def)
  qed (simp add: iter_entry_def iter_new_nonce [OF I(2)] get_base_nonce_def head_entry_def)
  then show ?thesis using I(10,13) by (simp add: iter_inv_def iter_new_def)
qed

text \<open>One step of the iterator: it succeeds as long as the heap has an entry.\<close>

lemma iter_next_Cons:
  assumes inv: "iter_inv p it" and heap: "it_heap it = hx # heap"
  obtains n h v it' where "map_of (it_current_nonces it) (sh_sender hx) = Some n"
    "pending_slot p (sh_sender hx) n = Some h" "tx_at p h = Some v" "iter_next p it = Some (vt_tx v, it')"
    "it_current_nonces it' = AList.update (sh_sender hx) (n + 1) (it_current_nonces it)"
    "set (it_heap it') = set heap \<union> set_option (iter_entry p it' (sh_sender hx))"
    "iter_inv p it'" "hx \<notin> set heap" "\<And>hy. hy \<in> set heap \<Longrightarrow> sh_sender hy \<noteq> sh_sender hx"
proof -
  let ?s = "sh_sender hx"
  have entry: "iter_entry p it (sh_sender hy) = Some hy" if "hy \<in> set (hx # heap)" for hy
    using inv that unfolding iter_inv_def heap by blast
  from entry [of hx] obtain n h v where n: "map_of (it_current_nonces it) ?s = Some n" "pending_slot p ?s n = Some h" "tx_at p h = Some v"
    by (auto simp: iter_entry_def bind_eq_Some_conv)
  from n(2) obtain m where m: "map_of (tp_pending_by_sender p) ?s = Some m" "map_of m n = Some h" by (auto simp: slot_Some)
  define it' where "it' = \<lparr>it_heap = (case Option.bind (map_of m (n + 1)) (tx_at p) of
        None \<Rightarrow> heap | Some v' \<Rightarrow> insort_insert (head_of v' ?s) heap),
      it_current_nonces = AList.update ?s (n + 1) (it_current_nonces it)\<rparr>"
  have nxt: "iter_next p it = Some (vt_tx v, it')" using heap n m by (simp add: iter_next_def it'_def Let_def)
  have cur: "it_current_nonces it' = AList.update ?s (n + 1) (it_current_nonces it)" by (simp add: it'_def)
  have own: "iter_entry p it' ?s = map_option (\<lambda>v. head_of v ?s) (Option.bind (map_of m (n + 1)) (tx_at p))"
    using m(1) by (cases "map_of m (n + 1)") (simp_all add: iter_entry_def cur update_conv' slot_def nonces_of_def)
  have heap': "set (it_heap it') = set heap \<union> set_option (iter_entry p it' ?s)"
    unfolding own by (auto simp: it'_def set_insort_insert split: option.split)
  have new: "hx \<notin> set heap" "distinct heap" using inv heap by (simp_all add: iter_inv_def)
  have other: "sh_sender hy \<noteq> ?s" if "hy \<in> set heap" for hy
    using entry [of hy] entry [of hx] that new(1) by (metis list.set_intros option.inject)
  have "iter_entry p it' (sh_sender hy) = Some hy" if "hy \<in> set heap" for hy
    using entry [of hy] that other [OF that] by (simp add: iter_entry_def cur update_conv')
  moreover have "sh_sender hy = ?s" if "iter_entry p it' ?s = Some hy" for hy
    using that by (auto simp: iter_entry_def bind_eq_Some_conv)
  moreover have "distinct (it_heap it')" using new(2) by (auto simp: it'_def distinct_insort_insert split: option.split)
  ultimately have "iter_inv p it'" by (auto simp: iter_inv_def heap')
  with that [OF n nxt cur heap' _ new(1) other] show ?thesis .
qed

lemma iter_next_Nil: "it_heap it = [] \<Longrightarrow> iter_next p it = None"
  by (simp add: iter_next_def)

text \<open>The slots from a nonce on, up to some distance, are all occupied.\<close>

definition run_of :: "transaction_pool \<Rightarrow> address \<Rightarrow> u64 \<Rightarrow> nat \<Rightarrow> bool" where
  "run_of p s n d \<longleftrightarrow> (\<forall>i \<le> d. pending_slot p s (n + of_nat i) \<noteq> None)"

lemma run_of_Suc: "run_of p s n (Suc d) \<longleftrightarrow> pending_slot p s n \<noteq> None \<and> run_of p s (n + 1) d"
  unfolding run_of_def less_Suc_eq_le [symmetric] All_less_Suc2 by (simp add: add.assoc)

lemma run_of_0 [simp]: "run_of p s n 0 \<longleftrightarrow> pending_slot p s n \<noteq> None"
  by (simp add: run_of_def)

text \<open>Whatever is yielded lies in a run that starts at the current nonce of a sender on the heap.\<close>

definition in_run :: "transaction_pool \<Rightarrow> pending_iter \<Rightarrow> transaction \<Rightarrow> bool" where
  "in_run p it t \<longleftrightarrow> tx_sender t \<in> sh_sender ` set (it_heap it)
     \<and> (\<exists>n d. map_of (it_current_nonces it) (tx_sender t) = Some n \<and> tx_nonce t = n + of_nat d
          \<and> run_of p (tx_sender t) n d)
     \<and> (\<exists>v. tx_at p (tx_hash t) = Some v \<and> vt_tx v = t)"

lemma in_runI:
  assumes "tx_sender t \<in> sh_sender ` set (it_heap it)" and "map_of (it_current_nonces it) (tx_sender t) = Some n"
    and "tx_nonce t = n + of_nat d" and "run_of p (tx_sender t) n d" and "tx_at p (tx_hash t) = Some v" and "vt_tx v = t"
  shows "in_run p it t"
  using assms unfolding in_run_def by blast

lemma in_run_next:
  assumes cur: "it_current_nonces it' = AList.update s (n + 1) (it_current_nonces it)"
    and n: "map_of (it_current_nonces it) s = Some n" "pending_slot p s n \<noteq> None"
    and heap: "sh_sender ` set (it_heap it') \<subseteq> sh_sender ` set (it_heap it)" and t: "in_run p it' t"
  shows "in_run p it t"
proof -
  from t obtain n' d v where t: "tx_sender t \<in> sh_sender ` set (it_heap it')"
    "map_of (it_current_nonces it') (tx_sender t) = Some n'" "tx_nonce t = n' + of_nat d"
    "run_of p (tx_sender t) n' d" "tx_at p (tx_hash t) = Some v" "vt_tx v = t"
    unfolding in_run_def by blast
  have mem: "tx_sender t \<in> sh_sender ` set (it_heap it)" using heap t(1) by blast
  show ?thesis
  proof (cases "tx_sender t = s")
    case True
    with t(2) cur have n': "n' = n + 1" by (simp add: update_conv')
    have "tx_nonce t = n + of_nat (Suc d)" using t(3) n' by (simp add: add.assoc)
    moreover have "run_of p (tx_sender t) n (Suc d)" using t(4) n(2) n' True by (simp add: run_of_Suc)
    ultimately show ?thesis using mem n(1) True t(5,6) by (intro in_runI) simp_all
  next
    case False
    then show ?thesis using mem t cur by (intro in_runI [of t it n' d]) (simp_all add: update_conv')
  qed
qed

lemma iter_take_run:
  assumes "pool_inv p" and "iter_inv p it" and "t \<in> set (iter_take k p it)"
  shows "in_run p it t"
  using assms(2,3)
proof (induction k arbitrary: it)
  case (Suc k)
  show ?case
  proof (cases "it_heap it")
    case (Cons hx heap)
    obtain n h v it' where n: "map_of (it_current_nonces it) (sh_sender hx) = Some n"
      "pending_slot p (sh_sender hx) n = Some h" "tx_at p h = Some v" "iter_next p it = Some (vt_tx v, it')"
      and cur: "it_current_nonces it' = AList.update (sh_sender hx) (n + 1) (it_current_nonces it)"
      and heap': "set (it_heap it') = set heap \<union> set_option (iter_entry p it' (sh_sender hx))"
      and inv': "iter_inv p it'" by (rule iter_next_Cons [OF Suc.prems(1) Cons])
    from pool_invD(6) [OF assms(1) n(2)] n(3) have v: "tx_sender (vt_tx v) = sh_sender hx" "tx_nonce (vt_tx v) = n"
      by (auto simp: holds_def)
    have vh: "tx_hash (vt_tx v) = h" using pool_invD(4) [OF assms(1) n(3)] by (simp add: tx_ok_def)
    have sub: "sh_sender ` set (it_heap it') \<subseteq> sh_sender ` set (it_heap it)"
      by (auto simp: heap' Cons iter_entry_def bind_eq_Some_conv)
    show ?thesis
    proof (cases "t = vt_tx v")
      case True
      show ?thesis
        by (rule in_runI [of _ _ n 0 _ v]) (use True n v vh in \<open>simp_all add: Cons\<close>)
    next
      case False
      with Suc.prems(2) n(4) have "t \<in> set (iter_take k p it')" by simp
      from in_run_next [OF cur n(1) _ sub Suc.IH [OF inv' this]] n(2) show ?thesis by simp
    qed
  qed (use Suc.prems in \<open>simp add: iter_next_Nil\<close>)
qed simp

text \<open>Nonces in a run do not wrap, so they are not below its start.\<close>

lemma run_nonce_le:
  assumes inv: "pool_inv p" and run: "run_of p s n d"
  shows "unat (n + of_nat d) = unat n + d"
  using run
proof (induction d arbitrary: n)
  case (Suc d)
  from Suc.prems obtain h where h: "pending_slot p s n = Some h" and run: "run_of p s (n + 1) d"
    by (auto simp: run_of_Suc)
  from pool_invD(6) [OF inv h] obtain v where "tx_at p h = Some v" "tx_nonce (vt_tx v) = n" by (auto simp: holds_def)
  with pool_invD(4) [OF inv] have "n \<noteq> - 1" by (auto simp: tx_ok_def)
  then have "1 + n \<noteq> 0" by (metis add.commute add_eq_0_iff2)
  then have "unat (n + 1) = Suc (unat n)" by (simp add: unatSuc add.commute)
  with Suc.IH [OF run] show ?case by (simp add: add.assoc)
qed simp

lemma run_nonce_ge: "pool_inv p \<Longrightarrow> run_of p s n d \<Longrightarrow> n \<le> n + of_nat d"
  using run_nonce_le [of p s n d] by (simp add: word_le_nat_alt)

lemma iter_take_distinct:
  assumes "pool_inv p" and "iter_inv p it"
  shows "distinct (map tx_hash (iter_take k p it))"
  using assms(2)
proof (induction k arbitrary: it)
  case (Suc k)
  show ?case
  proof (cases "it_heap it")
    case (Cons hx heap)
    obtain n h v it' where n: "map_of (it_current_nonces it) (sh_sender hx) = Some n"
      "pending_slot p (sh_sender hx) n = Some h" "tx_at p h = Some v" "iter_next p it = Some (vt_tx v, it')"
      and cur: "it_current_nonces it' = AList.update (sh_sender hx) (n + 1) (it_current_nonces it)"
      and inv': "iter_inv p it'" by (rule iter_next_Cons [OF Suc.prems Cons])
    from pool_invD(6) [OF assms(1) n(2)] n(3) have v: "tx_sender (vt_tx v) = sh_sender hx" "tx_nonce (vt_tx v) = n"
      by (auto simp: holds_def)
    have "tx_hash (vt_tx v) \<noteq> tx_hash t" if "t \<in> set (iter_take k p it')" for t
    proof
      assume same: "tx_hash (vt_tx v) = tx_hash t"
      from iter_take_run [OF assms(1) inv' that] obtain n' d w where t: "map_of (it_current_nonces it') (tx_sender t) = Some n'"
        "tx_nonce t = n' + of_nat d" "run_of p (tx_sender t) n' d" "tx_at p (tx_hash t) = Some w" "vt_tx w = t"
        unfolding in_run_def by blast
      have ok: "tx_ok h v" by (rule pool_invD(4) [OF assms(1) n(3)])
      with same n(3) t(4,5) have "t = vt_tx v" by (simp add: tx_ok_def)
      with t(1) cur v have "n' = n + 1" by (simp add: update_conv')
      moreover have "n' \<le> tx_nonce t" unfolding t(2) by (rule run_nonce_ge [OF assms(1) t(3)])
      ultimately have "n + 1 \<le> n" using v(2) \<open>t = vt_tx v\<close> by (simp only:)
      moreover have "n < n + 1" using ok v(2) by (intro nonce_less_Suc) (simp add: tx_ok_def)
      ultimately show False by simp
    qed
    then show ?thesis using n(4) Suc.IH [OF inv'] by auto
  qed (simp add: iter_next_Nil)
qed simp

text \<open>As many elements as there are pending transactions are enough.\<close>

lemma iter_take_length:
  assumes inv: "pool_inv p" and it: "iter_inv p it"
  shows "length (iter_take k p it) \<le> pending_len p"
proof -
  let ?hs = "concat (map (map snd \<circ> snd) (tp_pending_by_sender p))"
  have "tx_hash t \<in> set ?hs" if t: "t \<in> set (iter_take k p it)" for t
  proof -
    from iter_take_run [OF inv it t] obtain n d v where r: "tx_nonce t = n + of_nat d" "run_of p (tx_sender t) n d"
      and v: "tx_at p (tx_hash t) = Some v" "vt_tx v = t" unfolding in_run_def by blast
    from r obtain h where h: "pending_slot p (tx_sender t) (tx_nonce t) = Some h" by (auto simp: run_of_def)
    from pool_invD(5) [OF inv v(1)] v(2) pool_invD(8) [OF inv h] h
    have "pending_slot p (tx_sender t) (tx_nonce t) = Some (tx_hash t)" by auto
    then show ?thesis by (force simp: slot_Some dest: map_of_SomeD)
  qed
  then have "set (map tx_hash (iter_take k p it)) \<subseteq> set ?hs" by auto
  then have "card (set (map tx_hash (iter_take k p it))) \<le> card (set ?hs)" by (intro card_mono) simp_all
  also have "\<dots> \<le> length ?hs" by (rule card_length)
  also have "\<dots> = pending_len p" by (simp add: pending_len_def length_concat comp_def)
  finally show ?thesis using distinct_card [OF iter_take_distinct [OF inv it, of k]] by simp
qed

lemma iter_take_prefix: "k \<le> j \<Longrightarrow> iter_take k p it = take k (iter_take j p it)"
proof (induction k arbitrary: j it)
  case (Suc k)
  then obtain j' where "j = Suc j'" "k \<le> j'" by (cases j) auto
  with Suc.IH show ?case by (auto split: option.split)
qed simp

lemma iter_take_pending:
  assumes "pool_inv p" and "pending_len p \<le> k"
  shows "iter_take k p (iter_new p) = iter_pending p"
  using iter_take_length [OF assms(1) iter_new_inv [OF assms(1)], of k] iter_take_prefix [OF assms(2), of p "iter_new p"]
    assms(2) by (simp add: iter_pending_def)

text \<open>A run of a sender on the heap is yielded completely.\<close>

lemma iter_take_complete:
  assumes inv: "pool_inv p"
  shows "iter_inv p it \<Longrightarrow> length (iter_take k p it) < k \<Longrightarrow> s \<in> sh_sender ` set (it_heap it) \<Longrightarrow>
    map_of (it_current_nonces it) s = Some n \<Longrightarrow> run_of p s n d \<Longrightarrow>
    \<exists>t \<in> set (iter_take k p it). tx_sender t = s \<and> tx_nonce t = n + of_nat d"
proof (induction k arbitrary: it n d)
  case (Suc k)
  then obtain hx heap where Cons: "it_heap it = hx # heap" by (cases "it_heap it") auto
  obtain n0 h v it' where n0: "map_of (it_current_nonces it) (sh_sender hx) = Some n0"
    "pending_slot p (sh_sender hx) n0 = Some h" "tx_at p h = Some v" "iter_next p it = Some (vt_tx v, it')"
    and cur: "it_current_nonces it' = AList.update (sh_sender hx) (n0 + 1) (it_current_nonces it)"
    and heap': "set (it_heap it') = set heap \<union> set_option (iter_entry p it' (sh_sender hx))"
    and inv': "iter_inv p it'" by (rule iter_next_Cons [OF Suc.prems(1) Cons])
  from pool_invD(6) [OF inv n0(2)] n0(3) have v: "tx_sender (vt_tx v) = sh_sender hx" "tx_nonce (vt_tx v) = n0"
    by (auto simp: holds_def)
  have len: "length (iter_take k p it') < k" using Suc.prems(2) n0(4) by simp
  show ?case
  proof (cases "s = sh_sender hx")
    case False
    have "s \<in> sh_sender ` set (it_heap it')" using Suc.prems(3) False by (auto simp: Cons heap')
    moreover have "map_of (it_current_nonces it') s = Some n" using Suc.prems(4) False by (simp add: cur update_conv')
    ultimately show ?thesis using Suc.IH [OF inv' len _ _ Suc.prems(5)] n0(4) by auto
  next
    case s: True
    then have n: "n = n0" using Suc.prems(4) n0(1) by simp
    show ?thesis
    proof (cases d)
      case 0
      then show ?thesis using n0(4) v s n by auto
    next
      case (Suc d')
      then have run: "run_of p s (n + 1) d'" using Suc.prems(5) by (simp add: run_of_Suc)
      then obtain h' where h': "pending_slot p s (n + 1) = Some h'" by (auto simp: run_of_def dest: spec [of _ 0])
      from pool_invD(6) [OF inv h'] obtain v' where "tx_at p h' = Some v'" by (auto simp: holds_def)
      then have "iter_entry p it' s = Some (head_of v' s)" using h' n s by (simp add: iter_entry_def cur update_conv')
      then have "s \<in> sh_sender ` set (it_heap it')" using s by (force simp: heap')
      moreover have "map_of (it_current_nonces it') s = Some (n + 1)" using n s by (simp add: cur update_conv')
      ultimately obtain t where "t \<in> set (iter_take k p it')" "tx_sender t = s" "tx_nonce t = n + 1 + of_nat d'"
        using Suc.IH [OF inv' len _ _ run] by blast
      then show ?thesis using n0(4) Suc by (auto simp: add.assoc)
    qed
  qed
qed simp

lemma pending_tx_slot:
  assumes inv: "pool_inv p" and v: "tx_at p (tx_hash t) = Some v" "vt_tx v = t"
    and h: "pending_slot p (tx_sender t) (tx_nonce t) \<noteq> None"
  shows "pending_slot p (tx_sender t) (tx_nonce t) = Some (tx_hash t)"
proof -
  from h obtain x where x: "pending_slot p (tx_sender t) (tx_nonce t) = Some x" by auto
  show ?thesis using pool_invD(5) [OF inv v(1)] v(2) pool_invD(8) [OF inv x] by auto
qed

text \<open>Nonces that count up from a start.\<close>

primrec counts_up :: "u64 \<Rightarrow> u64 list \<Rightarrow> bool" where
  "counts_up n [] = True"
| "counts_up n (x # xs) = (x = n \<and> counts_up (n + 1) xs)"

lemma iter_take_counts_up:
  assumes "pool_inv p"
  shows "iter_inv p it \<Longrightarrow> map_of (it_current_nonces it) s = Some n \<Longrightarrow>
    counts_up n (map tx_nonce (filter (\<lambda>t. tx_sender t = s) (iter_take k p it)))"
proof (induction k arbitrary: it n)
  case (Suc k)
  show ?case
  proof (cases "it_heap it")
    case (Cons hx heap)
    obtain n0 h v it' where n0: "map_of (it_current_nonces it) (sh_sender hx) = Some n0"
      "pending_slot p (sh_sender hx) n0 = Some h" "tx_at p h = Some v" "iter_next p it = Some (vt_tx v, it')"
      and cur: "it_current_nonces it' = AList.update (sh_sender hx) (n0 + 1) (it_current_nonces it)"
      and inv': "iter_inv p it'" by (rule iter_next_Cons [OF Suc.prems(1) Cons])
    from pool_invD(6) [OF assms n0(2)] n0(3) have v: "tx_sender (vt_tx v) = sh_sender hx" "tx_nonce (vt_tx v) = n0"
      by (auto simp: holds_def)
    show ?thesis
    proof (cases "s = sh_sender hx")
      case True
      then have "map_of (it_current_nonces it') s = Some (n0 + 1)" by (simp add: cur update_conv')
      from Suc.IH [OF inv' this] show ?thesis using n0 v True Suc.prems(2) by simp
    next
      case False
      then have "map_of (it_current_nonces it') s = Some n" using Suc.prems(2) by (simp add: cur update_conv')
      from Suc.IH [OF inv' this] show ?thesis using n0(4) v(1) False by simp
    qed
  qed (simp add: iter_next_Nil)
qed simp

lemma iter_pending_mem:
  assumes inv: "pool_inv p"
  shows "t \<in> set (iter_pending p) \<longleftrightarrow> tx_sender t \<in> sh_sender ` set (tp_sender_heads p)
    \<and> (\<exists>n d. get_base_nonce (tx_sender t) p = Some n \<and> tx_nonce t = n + of_nat d \<and> run_of p (tx_sender t) n d)
    \<and> (\<exists>v. tx_at p (tx_hash t) = Some v \<and> vt_tx v = t)" (is "?L \<longleftrightarrow> ?R")
proof -
  note it = iter_new_inv [OF inv]
  have cur: "map_of (it_current_nonces (iter_new p)) s = get_base_nonce s p" for s
    by (rule iter_new_nonce [OF pool_invD(2) [OF inv]])
  have run: "in_run p (iter_new p) t \<longleftrightarrow> ?R" by (simp add: in_run_def cur) (simp add: iter_new_def)
  show ?thesis
  proof
    assume ?L
    then show ?R using iter_take_run [OF inv it] run by (simp add: iter_pending_def)
  next
    assume R: ?R
    then obtain n d v where t: "tx_sender t \<in> sh_sender ` set (it_heap (iter_new p))"
      "map_of (it_current_nonces (iter_new p)) (tx_sender t) = Some n" "tx_nonce t = n + of_nat d"
      "run_of p (tx_sender t) n d" "tx_at p (tx_hash t) = Some v" "vt_tx v = t"
      unfolding cur by (auto simp: iter_new_def)
    have "length (iter_take (Suc (pending_len p)) p (iter_new p)) < Suc (pending_len p)"
      using iter_take_length [OF inv it] le_imp_less_Suc by blast
    from iter_take_complete [OF inv it this t(1,2,4)] obtain u where u: "u \<in> set (iter_pending p)"
      "tx_sender u = tx_sender t" "tx_nonce u = tx_nonce t" unfolding t(3) by (auto simp: iter_take_pending [OF inv] simp del: iter_take.simps)
    from iter_take_run [OF inv it, of u] u(1) obtain w where w: "tx_at p (tx_hash u) = Some w" "vt_tx w = u"
      by (auto simp: iter_pending_def in_run_def)
    have slot: "pending_slot p (tx_sender t) (tx_nonce t) \<noteq> None" using t(3,4) by (simp add: run_of_def)
    from pending_tx_slot [OF inv t(5,6) slot] pending_tx_slot [OF inv w] slot u(2,3) have "tx_hash u = tx_hash t" by simp
    with w t(5,6) have "u = t" by simp
    with u(1) show ?L by simp
  qed
qed

subsection \<open>The pool as a machine\<close>

text \<open>The operations of the pool. The nonces of added transactions are below \<open>2 ^ 64 - 1\<close>, so that
  the next nonce does not wrap.\<close>

inductive pool_step :: "transaction_pool \<Rightarrow> transaction_pool \<Rightarrow> bool" where
  added: "tx_nonce tx \<noteq> - 1 \<Longrightarrow> pool_step p (snd (try_add now tx base p))"
| removed: "pool_step p (snd (pool_remove h p))"
| finalized: "pool_step p (remove_finalized hs p)"
| nonce_updated: "pool_step p (update_sender_nonce s n p)"
| cleared: "pool_step p (pool_clear p)"

lemma pool_step_inv: "pool_step p q \<Longrightarrow> pool_inv p \<Longrightarrow> pool_inv q"
  by (induction rule: pool_step.induct)
    (simp_all add: try_add_inv pool_remove_inv remove_finalized_inv update_sender_nonce_inv pool_inv_clear)

interpretation poolm: invariant_machine "\<lambda>p. \<exists>capacity. p = pool_new capacity" pool_step pool_inv
  by unfold_locales (auto simp: pool_inv_new intro: pool_step_inv)

text \<open>C21: In every pool that the operations can produce, as long as no transaction with the nonce
  \<open>2 ^ 64 - 1\<close> is added (the expected nonce after it would wrap), the three indices agree. A stored transaction
  is under its own hash, in exactly one slot of its sender and nonce, pending or queued; every slot
  refers to a stored transaction; pending nonces are below the expected nonce of their sender; no
  sender has more than 64 queued transactions; and the priority set is ordered, has at most one entry
  per sender, and each entry carries the fee and arrival time of that sender's lowest pending nonce.\<close>

theorem pool_invariant:
  assumes "pool_step\<^sup>*\<^sup>* (pool_new capacity) p"
  shows "pool_inv p"
  using poolm.inv_reachable [of "pool_new capacity" p] assms by blast

text \<open>C22: The iterator for block building yields, each once, exactly the transactions of the senders
  that have an entry in the priority set which lie in the unbroken run of nonces that starts at the
  sender's lowest pending nonce, and it yields the nonces of a sender in order and without gaps. Its
  loop ends after at most as many rounds as there are pending transactions.\<close>

theorem iter_pending_spec:
  assumes "pool_inv p"
  shows "(t \<in> set (iter_pending p) \<longleftrightarrow> tx_sender t \<in> sh_sender ` set (tp_sender_heads p)
      \<and> (\<exists>n d. get_base_nonce (tx_sender t) p = Some n \<and> tx_nonce t = n + of_nat d \<and> run_of p (tx_sender t) n d)
      \<and> (\<exists>v. tx_at p (tx_hash t) = Some v \<and> vt_tx v = t))
    \<and> distinct (map tx_hash (iter_pending p))
    \<and> (get_base_nonce s p = Some n \<longrightarrow> counts_up n (map tx_nonce (filter (\<lambda>t. tx_sender t = s) (iter_pending p))))
    \<and> (pending_len p \<le> k \<longrightarrow> iter_take k p (iter_new p) = iter_pending p)"
proof (intro conjI impI)
  note it = iter_new_inv [OF assms]
  show "distinct (map tx_hash (iter_pending p))" unfolding iter_pending_def by (rule iter_take_distinct [OF assms it])
  show "counts_up n (map tx_nonce (filter (\<lambda>t. tx_sender t = s) (iter_pending p)))" if "get_base_nonce s p = Some n"
    unfolding iter_pending_def
    by (rule iter_take_counts_up [OF assms it]) (simp add: that iter_new_nonce [OF pool_invD(2) [OF assms]])
qed (simp_all add: iter_pending_mem [OF assms] iter_take_pending [OF assms])

text \<open>Promotion leaves the priority set alone and keeps what is pending.\<close>

lemma promote_one_slot:
  assumes inv: "pool_inv p" and pr: "promote_one s p = Some q"
  shows "tp_sender_heads q = tp_sender_heads p"
    and "pending_slot q s (expected_of s p) = queued_slot p s (expected_of s p)"
    and "pending_slot p u k = Some h \<Longrightarrow> pending_slot q u k = Some h"
proof -
  let ?n = "expected_of s p"
  from pr obtain m x where m: "map_of (tp_queued_by_sender p) s = Some m" "map_of m ?n = Some x"
    by (auto simp: promote_one_def Let_def split: option.splits)
  then have sel: "tp_sender_heads q = tp_sender_heads p" "tp_pending_by_sender q =
      AList.update s (bt_insert ?n x (nonces_of (tp_pending_by_sender p) s)) (tp_pending_by_sender p)"
    using pr by (auto simp: promote_one_def Let_def)
  show "tp_sender_heads q = tp_sender_heads p" by (rule sel(1))
  show "pending_slot q s ?n = queued_slot p s ?n"
    using m by (simp add: sel map_of_bt_insert slot_def nonces_of_def [of "tp_queued_by_sender p"])
  show "pending_slot q u k = Some h" if h: "pending_slot p u k = Some h"
  proof -
    have "k < ?n" if "u = s" using pool_invD(7) [OF inv h] that by (auto simp: below_expected_def expected_of_def)
    then show ?thesis using h by (auto simp: sel map_of_bt_insert slot_def)
  qed
qed

lemma promote_queued_frame:
  "pool_inv p \<Longrightarrow> tp_sender_heads (promote_queued s p) = tp_sender_heads p
     \<and> (pending_slot p u k = Some h \<longrightarrow> pending_slot (promote_queued s p) u k = Some h)"
proof (induction s p rule: promote_queued.induct)
  case (1 s p)
  show ?case
  proof (cases "promote_one s p")
    case (Some q)
    note pr = promote_one_slot [OF 1(2) Some]
    from 1(1) [OF Some promote_one_inv(1) [OF 1(2) Some]] pr show ?thesis
      by (subst (1 2) promote_queued.simps) (auto simp: Some)
  qed (simp add: promote_queued.simps)
qed

text \<open>When the chain's nonce of a sender who has nothing pending reaches the nonce of a queued
  transaction, \<open>update_sender_nonce\<close> makes that transaction pending, but the sender gets no entry in
  the priority set, so the iterator for block building yields nothing of this sender.\<close>

theorem promoted_tx_is_not_proposed:
  assumes inv: "pool_inv p" and none: "map_of (tp_pending_by_sender p) s = None"
    and que: "queued_slot p s n = Some h" and up: "expected_of s p < n"
  shows "pending_slot (update_sender_nonce s n p) s n = Some h
    \<and> s \<notin> tx_sender ` set (iter_pending (update_sender_nonce s n p))"
proof -
  let ?q = "update_sender_nonce s n p"
  define p1 where "p1 = p\<lparr>tp_pending_nonces := AList.update s n (tp_pending_nonces p)\<rparr>"
  have q: "?q = promote_queued s p1"
    using up none by (simp add: update_sender_nonce_def remove_old_head_def drop_below_def get_base_nonce_def p1_def Let_def)
  have p1: "pool_inv p1"
    unfolding p1_def by (rule raise_nonce_inv [OF inv]) (use up in \<open>auto simp: expected_of_def\<close>)
  have e: "expected_of s p1 = n" by (simp add: p1_def expected_of_def get_pending_nonce_def update_conv')
  have "queued_slot p1 s n = Some h" using que by (simp add: p1_def)
  then obtain r where r: "promote_one s p1 = Some r"
    by (auto simp: promote_one_def Let_def e slot_Some)
  have "pending_slot r s n = Some h" using promote_one_slot(2) [OF p1 r] \<open>queued_slot p1 s n = Some h\<close> by (simp add: e)
  then have "pending_slot ?q s n = Some h"
    using promote_queued_frame [OF promote_one_inv(1) [OF p1 r], of s s n h]
    by (simp add: q promote_queued.simps [of s p1] r)
  moreover have "s \<notin> sh_sender ` set (tp_sender_heads ?q)"
    using promote_queued_frame [OF p1, of s] no_head_without_pending [OF inv none] by (auto simp: q p1_def)
  ultimately show ?thesis
    using iter_pending_mem [OF update_sender_nonce_inv [OF inv]] by blast
qed

subsection \<open>Examples\<close>

definition ex_tx :: "address \<Rightarrow> u64 \<Rightarrow> u64 \<Rightarrow> transaction" where
  "ex_tx s n fee = \<lparr>tx_sender = s, tx_instruction = Transfer [9] 1, tx_nonce = n, tx_timestamp = 0, tx_fee = fee,
     tx_hash = s @ [ucast n, ucast fee], tx_signature = []\<rparr>"

definition ex_add :: "transaction list \<Rightarrow> nat \<Rightarrow> transaction_pool" where
  "ex_add txs capacity = fold (\<lambda>tx p. snd (try_add 0 tx 0 p)) txs (pool_new capacity)"

lemma ex_add_reachable:
  "list_all (\<lambda>tx. tx_nonce tx \<noteq> - 1) txs \<Longrightarrow> pool_step\<^sup>*\<^sup>* (pool_new capacity) (ex_add txs capacity)"
proof (induction txs rule: rev_induct)
  case (snoc tx txs)
  then show ?case by (auto simp: ex_add_def intro: rtranclp.rtrancl_into_rtrancl pool_step.added)
qed (simp add: ex_add_def)

text \<open>Two transactions of one sender, a gap, and a cheaper one of another sender.\<close>

definition ex_txs :: "transaction list" where
  "ex_txs = [ex_tx [1] 0 5, ex_tx [2] 0 3, ex_tx [1] 1 7, ex_tx [1] 3 9]"

lemma ex_txs_nonces: "list_all (\<lambda>tx. tx_nonce tx \<noteq> - 1) ex_txs"
  by code_simp

theorem pool_invariant_witness:
  "pool_step\<^sup>*\<^sup>* (pool_new 8) (ex_add ex_txs 8) \<and> pool_inv (ex_add ex_txs 8)
   \<and> pool_len (ex_add ex_txs 8) = 4 \<and> queued_len (ex_add ex_txs 8) = 1"
proof -
  have "pool_len (ex_add ex_txs 8) = 4 \<and> queued_len (ex_add ex_txs 8) = 1" by code_simp
  then show ?thesis
    using ex_add_reachable [OF ex_txs_nonces] pool_invariant [OF ex_add_reachable [OF ex_txs_nonces, of 8]] by blast
qed

lemma ex_pool_inv: "pool_inv (ex_add ex_txs capacity)"
  using poolm.inv_reachable [of "pool_new capacity"] ex_add_reachable [OF ex_txs_nonces, of capacity] by blast

theorem iter_pending_spec_witness:
  "pool_inv (ex_add ex_txs 8) \<and> iter_pending (ex_add ex_txs 8) = [ex_tx [1] 0 5, ex_tx [1] 1 7, ex_tx [2] 0 3]
   \<and> distinct (map tx_hash (iter_pending (ex_add ex_txs 8)))"
proof -
  have "iter_pending (ex_add ex_txs 8) = [ex_tx [1] 0 5, ex_tx [1] 1 7, ex_tx [2] 0 3]" by code_simp
  then show ?thesis using ex_pool_inv iter_pending_spec [OF ex_pool_inv, of _ 8 "[1]" 0 0] by blast
qed

lemma ex_queued: "list_all (\<lambda>tx. tx_nonce tx \<noteq> - 1) [ex_tx [1] 1 5]"
  by code_simp

theorem promoted_tx_is_not_proposed_witness:
  "pending_slot (update_sender_nonce [1] 1 (ex_add [ex_tx [1] 1 5] 8)) [1] 1 = Some [1, 1, 5]
   \<and> [1] \<notin> tx_sender ` set (iter_pending (update_sender_nonce [1] 1 (ex_add [ex_tx [1] 1 5] 8)))"
proof -
  let ?p = "ex_add [ex_tx [1] 1 5] 8"
  have inv: "pool_inv ?p" using poolm.inv_reachable [of "pool_new 8"] ex_add_reachable [OF ex_queued, of 8] by blast
  have "map_of (tp_pending_by_sender ?p) [1] = None" by code_simp
  moreover have "queued_slot ?p [1] 1 = Some [1, 1, 5]" by code_simp
  moreover have "expected_of [1] ?p < 1" by code_simp
  ultimately show ?thesis by (rule promoted_tx_is_not_proposed [OF inv])
qed

text \<open>The capacity does not bound the pool: without pending transactions there is nothing to evict.\<close>

theorem queued_txs_exceed_capacity:
  "tp_capacity (ex_add [ex_tx [1] 1 5, ex_tx [2] 1 5, ex_tx [3] 1 5] 1) = 1
   \<and> pool_len (ex_add [ex_tx [1] 1 5, ex_tx [2] 1 5, ex_tx [3] 1 5] 1) = 3"
  by code_simp

text \<open>An evicted head cannot come back, and what its sender sends afterwards stays behind the gap.\<close>

theorem evicted_head_locks_sender_out:
  "let p = ex_add [ex_tx [1] 0 5, ex_tx [2] 0 9] 1
   in get_sender_pending [1] p = [] \<and> get_pending_nonce [1] p = Some 1
    \<and> try_add 0 (ex_tx [1] 0 20) 0 (p\<lparr>tp_capacity := 8\<rparr>) = (Rejected, p\<lparr>tp_capacity := 8\<rparr>)
    \<and> fst (try_add 0 (ex_tx [1] 1 20) 0 (p\<lparr>tp_capacity := 8\<rparr>)) = AddedPending"
  by code_simp

end
