(* ===== verification/Mempool_Service.thy ===== *)
theory Mempool_Service
  imports Mempool State_Machine "HOL-Library.Sublist"
begin

text \<open>
  The mempool thread (\<open>mempool/service.rs\<close>): it builds block proposals on request, admits
  transactions from the two queues and follows finalizations. The accounts that the thread reads are
  the argument \<open>R\<close>, one state of the accounts for each group of reads; the clock of the \<open>n\<close>-th
  admission is \<open>clk n\<close>. The queues are lists. An operation that panics, which ends the thread, is
  \<open>None\<close>. The last part connects proposals with block validation.
\<close>

subsection \<open>Building a proposal\<close>

definition estimate_tx_size :: "transaction \<Rightarrow> nat" where
  "estimate_tx_size tx =
     (let SIGNATURE_SIZE = 64; ADDRESS_SIZE = 32; NONCE_SIZE = 8; FEE_SIZE = 8; HASH_SIZE = 32;
          INSTRUCTION_TYPE_SIZE = 1;
          base_size = SIGNATURE_SIZE + ADDRESS_SIZE + NONCE_SIZE + FEE_SIZE + HASH_SIZE;
          instruction_size = (case tx_instruction tx of
              Transfer _ _ \<Rightarrow> INSTRUCTION_TYPE_SIZE + ADDRESS_SIZE + 8
            | CreateAccount _ \<Rightarrow> INSTRUCTION_TYPE_SIZE + ADDRESS_SIZE
            | Burn _ _ \<Rightarrow> INSTRUCTION_TYPE_SIZE + 8 + ADDRESS_SIZE
            | Mint _ _ \<Rightarrow> INSTRUCTION_TYPE_SIZE + ADDRESS_SIZE + 8)
      in base_size + instruction_size)"

definition get_effective_balance ::
    "(address \<Rightarrow> account_state option) \<Rightarrow> address \<Rightarrow> (address \<times> int) list \<Rightarrow> int" where
  "get_effective_balance R a pending_balances = (case map_of pending_balances a of
      Some balance \<Rightarrow> balance
    | None \<Rightarrow> (case R a of Some acc \<Rightarrow> uint (as_balance acc) | None \<Rightarrow> 0))"

definition chain_nonce :: "(address \<Rightarrow> account_state option) \<Rightarrow> address \<Rightarrow> u64" where
  "chain_nonce R a = (case R a of Some acc \<Rightarrow> as_nonce acc | None \<Rightarrow> 0)"

text \<open>The variables of the loop.\<close>

record selection =
  sl_selected :: "transaction list"
  sl_total_bytes :: nat
  sl_total_fees :: u64
  sl_pending_balances :: "(address \<times> int) list"
  sl_sender_next_nonce :: "(address \<times> u64) list"

definition selection_new :: selection where
  "selection_new = \<lparr>sl_selected = [], sl_total_bytes = 0, sl_total_fees = 0, sl_pending_balances = [],
     sl_sender_next_nonce = []\<rparr>"

definition nonce_in_order :: "(address \<Rightarrow> account_state option) \<Rightarrow> transaction \<Rightarrow> selection \<Rightarrow> bool" where
  "nonce_in_order R tx sl = (case map_of (sl_sender_next_nonce sl) (tx_sender tx) of
      Some expected \<Rightarrow> tx_nonce tx = expected
    | None \<Rightarrow> \<not> tx_nonce tx < chain_nonce R (tx_sender tx) \<and> tx_nonce tx = chain_nonce R (tx_sender tx))"

definition required_balance :: "transaction \<Rightarrow> int" where
  "required_balance tx = uint (tx_amount (tx_instruction tx)) + uint (tx_fee tx)"

definition credit_recipient ::
    "(address \<Rightarrow> account_state option) \<Rightarrow> transaction \<Rightarrow> (address \<times> int) list \<Rightarrow> (address \<times> int) list" where
  "credit_recipient R tx balances = (case tx_recipient (tx_instruction tx) of
      None \<Rightarrow> balances
    | Some recipient \<Rightarrow> AList.update recipient
        (get_effective_balance R recipient balances + uint (tx_amount (tx_instruction tx))) balances)"

text \<open>One round: a skipped transaction changes nothing.\<close>

definition consider_tx ::
    "(address \<Rightarrow> account_state option) \<Rightarrow> proposal_request \<Rightarrow> transaction \<Rightarrow> selection \<Rightarrow> selection" where
  "consider_tx R req tx sl =
     (let sender = tx_sender tx;
          balance = get_effective_balance R sender (sl_pending_balances sl);
          required = required_balance tx;
          tx_size = estimate_tx_size tx
      in if \<not> nonce_in_order R tx sl then sl
         else if balance < required then sl
         else if sl_total_bytes sl + tx_size > pr_max_bytes req then sl
         else \<lparr>sl_selected = sl_selected sl @ [tx], sl_total_bytes = sl_total_bytes sl + tx_size,
               sl_total_fees = sl_total_fees sl + tx_fee tx,
               sl_pending_balances = credit_recipient R tx
                 (AList.update sender (balance - required) (sl_pending_balances sl)),
               sl_sender_next_nonce = AList.update sender (tx_nonce tx + 1) (sl_sender_next_nonce sl)\<rparr>)"

fun select_txs ::
    "(address \<Rightarrow> account_state option) \<Rightarrow> proposal_request \<Rightarrow> transaction list \<Rightarrow> selection \<Rightarrow> selection" where
  "select_txs R req [] sl = sl"
| "select_txs R req (tx # txs) sl =
     (if length (sl_selected sl) \<ge> pr_max_txs req then sl
      else select_txs R req txs (consider_tx R req tx sl))"

definition build_validated_proposal ::
    "(address \<Rightarrow> account_state option) \<Rightarrow> transaction_pool \<Rightarrow> proposal_request \<Rightarrow> proposal_response" where
  "build_validated_proposal R pool req =
     (let sl = select_txs R req (iter_pending pool) selection_new
      in \<lparr>ps_view = pr_view req, ps_transactions = sl_selected sl, ps_total_fees = sl_total_fees sl\<rparr>)"

subsection \<open>The thread\<close>

definition TX_BATCH_SIZE :: nat where "TX_BATCH_SIZE = 1024"

record mempool_service =
  ms_pool :: transaction_pool
  ms_proposal_requests :: "proposal_request list"
  ms_grpc_tx_queue :: "transaction list"
  ms_p2p_tx_queue :: "transaction list"
  ms_finalized :: "finalized_notification list"
  ms_proposal_responses :: "proposal_response list"
  ms_published_stats :: pool_stats
  ms_stats_proposals_built :: u64
  ms_stats_invalid_signatures :: u64
  ms_stats_added_pending :: u64
  ms_stats_added_queued :: u64
  ms_stats_rejected :: u64
  ms_asked :: nat

definition pool_stats_default :: pool_stats where
  "pool_stats_default = \<lparr>st_pending_size = 0, st_queued_size = 0, st_total_size = 0, st_capacity = 10000,
     st_unique_senders = 0, st_total_added = 0, st_total_removed = 0\<rparr>"

definition mempool_service_new :: "nat \<Rightarrow> mempool_service" where
  "mempool_service_new pool_capacity = \<lparr>ms_pool = pool_new pool_capacity, ms_proposal_requests = [],
     ms_grpc_tx_queue = [], ms_p2p_tx_queue = [], ms_finalized = [], ms_proposal_responses = [],
     ms_published_stats = pool_stats_default, ms_stats_proposals_built = 0, ms_stats_invalid_signatures = 0,
     ms_stats_added_pending = 0, ms_stats_added_queued = 0, ms_stats_rejected = 0, ms_asked = 0\<rparr>"

definition process_incoming_tx ::
    "env \<Rightarrow> (nat \<Rightarrow> instant) \<Rightarrow> (address \<Rightarrow> account_state option) \<Rightarrow> transaction \<Rightarrow> mempool_service
     \<Rightarrow> mempool_service option" where
  "process_incoming_tx E clk R tx s = (case tx_verify E tx of
      None \<Rightarrow> None
    | Some False \<Rightarrow> Some (s\<lparr>ms_stats_invalid_signatures := ms_stats_invalid_signatures s + 1\<rparr>)
    | Some True \<Rightarrow>
        (let sender_base_nonce = chain_nonce R (tx_sender tx)
         in case try_add (clk (ms_asked s)) tx sender_base_nonce (ms_pool s) of (result, pool) \<Rightarrow>
           let s' = s\<lparr>ms_pool := pool, ms_asked := Suc (ms_asked s)\<rparr>
           in Some (case result of
                AddedPending \<Rightarrow> s'\<lparr>ms_stats_added_pending := ms_stats_added_pending s + 1\<rparr>
              | AddedQueued \<Rightarrow> s'\<lparr>ms_stats_added_queued := ms_stats_added_queued s + 1\<rparr>
              | Rejected \<Rightarrow> s'\<lparr>ms_stats_rejected := ms_stats_rejected s + 1\<rparr>)))"

fun process_txs ::
    "env \<Rightarrow> (nat \<Rightarrow> instant) \<Rightarrow> (address \<Rightarrow> account_state option) \<Rightarrow> transaction list \<Rightarrow> mempool_service
     \<Rightarrow> mempool_service option" where
  "process_txs E clk R [] s = Some s"
| "process_txs E clk R (tx # txs) s = Option.bind (process_incoming_tx E clk R tx s) (process_txs E clk R txs)"

text \<open>At most one batch from both queues together, the gRPC queue first.\<close>

definition process_queues ::
    "env \<Rightarrow> (nat \<Rightarrow> instant) \<Rightarrow> (address \<Rightarrow> account_state option) \<Rightarrow> mempool_service \<Rightarrow> mempool_service option" where
  "process_queues E clk R s =
     (let grpc = take TX_BATCH_SIZE (ms_grpc_tx_queue s);
          p2p = take (TX_BATCH_SIZE - length grpc) (ms_p2p_tx_queue s)
      in process_txs E clk R (grpc @ p2p)
           (s\<lparr>ms_grpc_tx_queue := drop (length grpc) (ms_grpc_tx_queue s),
              ms_p2p_tx_queue := drop (length p2p) (ms_p2p_tx_queue s)\<rparr>))"

text \<open>The push of a response is retried while the ring buffer is full, until it succeeds or the
  shutdown is seen: whether the \<open>i\<close>-th attempt finds room and the \<open>i\<close>-th look at the flag sees the
  shutdown are \<open>room i\<close> and \<open>stop i\<close>. The result says whether the response was delivered.\<close>

partial_function (option) push_with_backpressure :: "(nat \<Rightarrow> bool) \<Rightarrow> (nat \<Rightarrow> bool) \<Rightarrow> nat \<Rightarrow> bool option" where
  "push_with_backpressure room stop i =
     (if room i then Some True else if stop i then Some False else push_with_backpressure room stop (Suc i))"

declare push_with_backpressure.simps [code]

fun answer_requests ::
    "(address \<Rightarrow> account_state option) \<Rightarrow> (nat \<Rightarrow> nat \<Rightarrow> bool) \<Rightarrow> (nat \<Rightarrow> nat \<Rightarrow> bool) \<Rightarrow> proposal_request list
     \<Rightarrow> mempool_service \<Rightarrow> mempool_service option" where
  "answer_requests R room stop [] s = Some s"
| "answer_requests R room stop (req # reqs) s =
     Option.bind (push_with_backpressure (room (ms_asked s)) (stop (ms_asked s)) 0) (\<lambda>delivered.
       answer_requests R room stop reqs
         (s\<lparr>ms_proposal_responses := ms_proposal_responses s
                @ (if delivered then [build_validated_proposal R (ms_pool s) req] else []),
            ms_stats_proposals_built := ms_stats_proposals_built s + 1, ms_asked := Suc (ms_asked s)\<rparr>))"

definition handle_requests ::
    "(address \<Rightarrow> account_state option) \<Rightarrow> (nat \<Rightarrow> nat \<Rightarrow> bool) \<Rightarrow> (nat \<Rightarrow> nat \<Rightarrow> bool) \<Rightarrow> mempool_service
     \<Rightarrow> mempool_service option" where
  "handle_requests R room stop s =
     answer_requests R room stop (ms_proposal_requests s) (s\<lparr>ms_proposal_requests := []\<rparr>)"

text \<open>The senders of the finalized transactions that the pool has, and all senders with queued ones.\<close>

definition senders_to_update :: "finalized_notification \<Rightarrow> transaction_pool \<Rightarrow> address list" where
  "senders_to_update notif p = remdups
     (List.map_filter (\<lambda>h. map_option (tx_sender \<circ> vt_tx) (map_of (tp_by_hash p) h)) (fn_tx_hashes notif)
      @ queued_senders p)"

definition apply_finalization ::
    "(address \<Rightarrow> account_state option) \<Rightarrow> finalized_notification \<Rightarrow> transaction_pool \<Rightarrow> transaction_pool" where
  "apply_finalization R notif p =
     fold (\<lambda>s q. update_sender_nonce s (chain_nonce R s) q) (senders_to_update notif p)
       (remove_finalized (fn_tx_hashes notif) p)"

definition handle_finalizations ::
    "(address \<Rightarrow> account_state option) \<Rightarrow> mempool_service \<Rightarrow> mempool_service" where
  "handle_finalizations R s =
     s\<lparr>ms_pool := fold (apply_finalization R) (ms_finalized s) (ms_pool s), ms_finalized := []\<rparr>"

definition publish_stats :: "mempool_service \<Rightarrow> mempool_service" where
  "publish_stats s = s\<lparr>ms_published_stats := stats (ms_pool s)\<rparr>"

text \<open>One round of the loop with the accounts as they are at each of the three priorities, and whether
  the statistics are due.\<close>

definition mempool_round ::
    "env \<Rightarrow> (nat \<Rightarrow> instant) \<Rightarrow> (nat \<Rightarrow> nat \<Rightarrow> bool) \<Rightarrow> (nat \<Rightarrow> nat \<Rightarrow> bool) \<Rightarrow> (address \<Rightarrow> account_state option)
     \<Rightarrow> (address \<Rightarrow> account_state option) \<Rightarrow> (address \<Rightarrow> account_state option) \<Rightarrow> bool \<Rightarrow> mempool_service
     \<Rightarrow> mempool_service option" where
  "mempool_round E clk room stop R1 R2 R3 due s =
     Option.bind (handle_requests R1 room stop s) (\<lambda>s1.
     Option.bind (process_queues E clk R2 s1) (\<lambda>s2.
     let s3 = handle_finalizations R3 s2 in Some (if due then publish_stats s3 else s3)))"

text \<open>After the shutdown the requests that are left are answered as far as there is room.\<close>

definition mempool_exit ::
    "(address \<Rightarrow> account_state option) \<Rightarrow> (nat \<Rightarrow> bool) \<Rightarrow> mempool_service \<Rightarrow> mempool_service" where
  "mempool_exit R room s =
     s\<lparr>ms_proposal_requests := [],
       ms_proposal_responses := ms_proposal_responses s @
         map (\<lambda>(i, req). build_validated_proposal R (ms_pool s) req)
           (filter (\<lambda>(i, req). room i) (enumerate 0 (ms_proposal_requests s)))\<rparr>"

subsection \<open>What a proposal contains\<close>

lemma effective_update [simp]:
  "get_effective_balance R a (AList.update b x bs) = (if a = b then x else get_effective_balance R a bs)"
  by (simp add: get_effective_balance_def update_conv')

lemma effective_Nil: "get_effective_balance R a [] = bal (R a)"
  by (simp add: get_effective_balance_def bal_def split: option.split)

text \<open>A transaction is selected when its nonce is in order, its sender can pay and it fits.\<close>

definition selectable :: "(address \<Rightarrow> account_state option) \<Rightarrow> proposal_request \<Rightarrow> transaction \<Rightarrow> selection \<Rightarrow> bool" where
  "selectable R req tx sl \<longleftrightarrow> nonce_in_order R tx sl
     \<and> required_balance tx \<le> get_effective_balance R (tx_sender tx) (sl_pending_balances sl)
     \<and> sl_total_bytes sl + estimate_tx_size tx \<le> pr_max_bytes req"

definition select_tx :: "(address \<Rightarrow> account_state option) \<Rightarrow> transaction \<Rightarrow> selection \<Rightarrow> selection" where
  "select_tx R tx sl = \<lparr>sl_selected = sl_selected sl @ [tx], sl_total_bytes = sl_total_bytes sl + estimate_tx_size tx,
     sl_total_fees = sl_total_fees sl + tx_fee tx,
     sl_pending_balances = credit_recipient R tx (AList.update (tx_sender tx)
       (get_effective_balance R (tx_sender tx) (sl_pending_balances sl) - required_balance tx) (sl_pending_balances sl)),
     sl_sender_next_nonce = AList.update (tx_sender tx) (tx_nonce tx + 1) (sl_sender_next_nonce sl)\<rparr>"

lemma consider_tx_cases: "consider_tx R req tx sl = (if selectable R req tx sl then select_tx R tx sl else sl)"
  by (auto simp: consider_tx_def selectable_def select_tx_def Let_def)

text \<open>An invariant of the loop is kept by every selected transaction.\<close>

lemma select_txs_induct:
  assumes "I txs sl"
    and "\<And>tx txs sl. I (tx # txs) sl \<Longrightarrow> I txs sl"
    and "\<And>tx txs sl. I (tx # txs) sl \<Longrightarrow> selectable R req tx sl \<Longrightarrow> length (sl_selected sl) < pr_max_txs req \<Longrightarrow>
          I txs (select_tx R tx sl)"
  shows "\<exists>rest. I rest (select_txs R req txs sl)"
  using assms(1)
proof (induction txs arbitrary: sl)
  case (Cons tx txs)
  show ?case
  proof (cases "pr_max_txs req \<le> length (sl_selected sl)")
    case False
    have "I txs (consider_tx R req tx sl)"
      using assms(2,3) [OF Cons.prems] False by (simp add: consider_tx_cases)
    from Cons.IH [OF this] False show ?thesis by simp
  qed (use Cons.prems in auto)
qed auto

lemma select_txs_limits:
  "let sl = select_txs R req txs selection_new
   in length (sl_selected sl) \<le> pr_max_txs req \<and> sl_total_bytes sl \<le> pr_max_bytes req
    \<and> sl_total_bytes sl = sum_list (map estimate_tx_size (sl_selected sl))
    \<and> sl_total_fees sl = sum_list (map tx_fee (sl_selected sl))
    \<and> subseq (sl_selected sl) txs"
proof -
  let ?I = "\<lambda>xs sl. length (sl_selected sl) \<le> pr_max_txs req \<and> sl_total_bytes sl \<le> pr_max_bytes req
    \<and> sl_total_bytes sl = sum_list (map estimate_tx_size (sl_selected sl))
    \<and> sl_total_fees sl = sum_list (map tx_fee (sl_selected sl)) \<and> subseq (sl_selected sl @ xs) txs"
  have "\<exists>rest. ?I rest (select_txs R req txs selection_new)"
  proof (rule select_txs_induct)
    show "?I txs selection_new" by (simp add: selection_new_def)
    show "?I xs sl" if "?I (tx # xs) sl" for tx xs sl
    proof -
      have "subseq (sl_selected sl @ xs) (sl_selected sl @ tx # xs)"
        by (rule list_emb_append_mono) (auto intro: list_emb_Cons)
      with that subseq_order.trans show ?thesis by blast
    qed
    show "?I xs (select_tx R tx sl)"
      if "?I (tx # xs) sl" "selectable R req tx sl" "length (sl_selected sl) < pr_max_txs req" for tx xs sl
      using that by (auto simp: select_tx_def selectable_def)
  qed
  then obtain rest where r: "?I rest (select_txs R req txs selection_new)" ..
  have "subseq (sl_selected (select_txs R req txs selection_new)) (sl_selected (select_txs R req txs selection_new) @ rest)"
    by (rule prefix_imp_subseq) simp
  with r subseq_order.trans show ?thesis unfolding Let_def by blast
qed

text \<open>Whose turn it is: the nonce that the next selected transaction of a sender has.\<close>

definition next_nonce :: "(address \<Rightarrow> account_state option) \<Rightarrow> address \<Rightarrow> selection \<Rightarrow> u64" where
  "next_nonce R a sl = (case map_of (sl_sender_next_nonce sl) a of Some n \<Rightarrow> n | None \<Rightarrow> chain_nonce R a)"

lemma nonce_in_order_iff: "nonce_in_order R tx sl \<longleftrightarrow> tx_nonce tx = next_nonce R (tx_sender tx) sl"
  by (auto simp: nonce_in_order_def next_nonce_def split: option.split)

lemma next_nonce_select [simp]:
  "next_nonce R a (select_tx R tx sl) = (if a = tx_sender tx then tx_nonce tx + 1 else next_nonce R a sl)"
  by (simp add: next_nonce_def select_tx_def update_conv')

abbreviation nonces_by :: "address \<Rightarrow> transaction list \<Rightarrow> u64 list" where
  "nonces_by a txs \<equiv> map tx_nonce (filter (\<lambda>tx. tx_sender tx = a) txs)"

lemma counts_up_snoc: "counts_up n (xs @ [x]) \<longleftrightarrow> counts_up n xs \<and> x = n + of_nat (length xs)"
  by (induction xs arbitrary: n) (auto simp: add.assoc)

lemma select_txs_nonces:
  "let sl = select_txs R req txs selection_new
   in counts_up (chain_nonce R a) (nonces_by a (sl_selected sl))
    \<and> next_nonce R a sl = chain_nonce R a + of_nat (length (nonces_by a (sl_selected sl)))"
proof -
  let ?I = "\<lambda>sl. counts_up (chain_nonce R a) (nonces_by a (sl_selected sl))
    \<and> next_nonce R a sl = chain_nonce R a + of_nat (length (nonces_by a (sl_selected sl)))"
  have "\<exists>rest :: transaction list. ?I (select_txs R req txs selection_new)"
  proof (rule select_txs_induct)
    show "?I selection_new" by (simp add: selection_new_def next_nonce_def)
    show "?I (select_tx R tx sl)" if "?I sl" "selectable R req tx sl" for tx sl
      using that by (auto simp: selectable_def nonce_in_order_iff counts_up_snoc next_nonce_select)
        (auto simp: select_tx_def counts_up_snoc add.assoc)
  qed
  then show ?thesis by (simp add: Let_def)
qed

text \<open>C25: A proposal respects the limits of the request, reports the sum of the fees, and takes its
  transactions in the order in which the pool offers them; the nonces of each sender start at the
  nonce of the account and have no gaps.\<close>

theorem proposal_within_limits:
  "let resp = build_validated_proposal R pool req
   in ps_view resp = pr_view req \<and> length (ps_transactions resp) \<le> pr_max_txs req
    \<and> sum_list (map estimate_tx_size (ps_transactions resp)) \<le> pr_max_bytes req
    \<and> ps_total_fees resp = sum_list (map tx_fee (ps_transactions resp))
    \<and> subseq (ps_transactions resp) (iter_pending pool)
    \<and> counts_up (chain_nonce R a) (nonces_by a (ps_transactions resp))"
  using select_txs_limits [of R req "iter_pending pool"] select_txs_nonces [of R req "iter_pending pool" a]
  by (simp add: build_validated_proposal_def Let_def)
subsection \<open>Proposals pass validation\<close>

text \<open>Transfers and mints, the kinds of transactions whose effect the effective balances follow.\<close>

definition is_payment :: "transaction \<Rightarrow> bool" where
  "is_payment tx \<longleftrightarrow> (case tx_instruction tx of Transfer _ _ \<Rightarrow> True | Mint _ _ \<Rightarrow> True | _ \<Rightarrow> False)"

abbreviation total_amount :: "transaction list \<Rightarrow> int" where
  "total_amount txs \<equiv> (\<Sum>tx\<leftarrow>txs. uint (tx_amount (tx_instruction tx)))"

lemma total_amount_nonneg: "0 \<le> total_amount txs"
  by (induction txs) simp_all

lemma ledger_run_snoc:
  "ledger_run (txs @ [tx]) md = Option.bind (ledger_run txs md) (ledger_step tx (tx_instruction tx))"
  by (induction txs arbitrary: md) (auto split: bind_splits)

text \<open>How the loop's variables and the ledger that has run the selected transactions correspond: the
  effective balances are covered, and the next nonces are those of the accounts.\<close>

definition ledger_sim :: "(address \<Rightarrow> account_state option) \<Rightarrow> selection \<Rightarrow> ledger \<Rightarrow> bool" where
  "ledger_sim R sl m \<longleftrightarrow> (\<forall>a. get_effective_balance R a (sl_pending_balances sl) \<le> uint (la_balance (acct_or_new m a))
     \<and> uint (la_balance (acct_or_new m a)) \<le> bal (R a) + total_amount (sl_selected sl)
     \<and> la_nonce (acct_or_new m a) = next_nonce R a sl)"

lemma ledger_simD:
  assumes "ledger_sim R sl m"
  shows "get_effective_balance R a (sl_pending_balances sl) \<le> uint (la_balance (acct_or_new m a))"
    and "uint (la_balance (acct_or_new m a)) \<le> bal (R a) + total_amount (sl_selected sl)"
    and "la_nonce (acct_or_new m a) = next_nonce R a sl"
  using assms by (simp_all add: ledger_sim_def)

lemma ledger_sim_init: "ledger_sim R selection_new (ledger_of R)"
  by (auto simp: ledger_sim_def selection_new_def effective_Nil next_nonce_def chain_nonce_def bal_def acct_or_new_def
      ledger_of_def split: option.split)

lemma acct_or_new_upd [simp]: "acct_or_new (m(a \<mapsto> l)) b = (if b = a then l else acct_or_new m b)"
  by (simp add: acct_or_new_def)

text \<open>The sender pays at most what the loop requires, then the recipient is credited.\<close>

lemma ledger_sim_pay:
  assumes sim: "ledger_sim R sl m" and l: "m (tx_sender tx) = Some l" and n: "tx_nonce tx = la_nonce l"
    and z: "uint z \<le> required_balance tx" "z \<le> la_balance l"
    and r: "tx_recipient (tx_instruction tx) = Some r" "amt = tx_amount (tx_instruction tx)"
    and room: "\<And>a. bal (R a) + total_amount (sl_selected sl @ [tx]) < 2 ^ 64"
    and m1: "m1 = m(tx_sender tx \<mapsto> \<lparr>la_balance = la_balance l - z, la_nonce = la_nonce l + 1\<rparr>)"
  shows "ledger_sim R (select_tx R tx sl) (fst (credit r amt (m1, d)))"
proof -
  note S = ledger_simD [OF sim]
  let ?s = "tx_sender tx"
  have al: "acct_or_new m ?s = l" using l by (simp add: acct_or_new_def)
  have zb: "uint (la_balance l - z) = uint (la_balance l) - uint z" by (rule uint_minus_le [OF z(2)])
  have up: "uint (la_balance (acct_or_new m1 a)) \<le> bal (R a) + total_amount (sl_selected sl)" for a
  proof (cases "a = ?s")
    case True
    then have "uint (la_balance (acct_or_new m1 a)) = uint (la_balance l) - uint z" by (simp add: m1 zb)
    with S(2) [of ?s] uint_ge_0 [of z] show ?thesis unfolding al True by linarith
  qed (use S(2) [of a] in \<open>simp add: m1\<close>)
  have "uint (la_balance (acct_or_new m1 r)) + uint amt < 18446744073709551616"
    using up [of r] room [of r] by (simp add: r(2))
  then have cr: "uint (saturating_add (la_balance (acct_or_new m1 r)) amt) = uint (la_balance (acct_or_new m1 r)) + uint amt"
    by (simp add: saturating_add_def uint_add_lem [THEN iffD1])
  let ?bs = "AList.update ?s (get_effective_balance R ?s (sl_pending_balances sl) - required_balance tx) (sl_pending_balances sl)"
  have eff: "get_effective_balance R a (sl_pending_balances (select_tx R tx sl)) =
      (if a = r then get_effective_balance R r ?bs + uint amt else get_effective_balance R a ?bs)" for a
    by (simp add: select_tx_def credit_recipient_def r)
  have low: "get_effective_balance R a ?bs \<le> uint (la_balance (acct_or_new m1 a))" for a
    using S(1) [of a] z(1) by (cases "a = ?s") (simp_all add: m1 al zb)
  have non: "la_nonce (acct_or_new m1 a) = next_nonce R a (select_tx R tx sl)" for a
    using S(3) [of a] n by (simp add: m1)
  have tot: "total_amount (sl_selected (select_tx R tx sl)) = total_amount (sl_selected sl) + uint amt"
    by (simp add: select_tx_def r(2))
  show ?thesis
    unfolding ledger_sim_def
  proof (intro allI conjI)
    fix a
    show "get_effective_balance R a (sl_pending_balances (select_tx R tx sl)) \<le> uint (la_balance (acct_or_new (fst (credit r amt (m1, d))) a))"
      unfolding eff using low [of a] by (cases "a = r") (simp_all add: credit_def Let_def cr del: effective_update)
    show "uint (la_balance (acct_or_new (fst (credit r amt (m1, d))) a)) \<le> bal (R a) + total_amount (sl_selected (select_tx R tx sl))"
      unfolding tot add.assoc [symmetric] using up [of a] order_trans [OF up [of a] le_add_same_cancel1 [THEN iffD2, OF uint_ge_0 [of amt]]]
      by (cases "a = r") (simp_all add: credit_def Let_def cr)
    show "la_nonce (acct_or_new (fst (credit r amt (m1, d))) a) = next_nonce R a (select_tx R tx sl)"
      using non [of a] by (cases "a = r") (simp_all add: credit_def Let_def)
  qed
qed
lemma ledger_sim_step:
  assumes sim: "ledger_sim R sl m" and sel: "selectable R req tx sl" and pay: "is_payment tx" "0 < tx_fee tx"
    and room: "\<And>a. bal (R a) + total_amount (sl_selected sl @ [tx]) < 2 ^ 64"
  obtains m' d' where "ledger_step tx (tx_instruction tx) (m, d) = Some (m', d')" "ledger_sim R (select_tx R tx sl) m'"
proof -
  note S = ledger_simD [OF sim]
  let ?s = "tx_sender tx" let ?amt = "tx_amount (tx_instruction tx)"
  have req: "required_balance tx \<le> uint (la_balance (acct_or_new m ?s))"
    using sel S(1) [of ?s] by (simp add: selectable_def)
  have "0 < uint (tx_fee tx)" using pay(2) by (simp add: word_less_def)
  with req uint_ge_0 [of ?amt] have "0 < uint (la_balance (acct_or_new m ?s))" unfolding required_balance_def by linarith
  then obtain l where l: "m ?s = Some l" by (auto simp: acct_or_new_def split: option.splits)
  then have al: "acct_or_new m ?s = l" by (simp add: acct_or_new_def)
  have n: "tx_nonce tx = la_nonce l" using sel S(3) [of ?s] by (simp add: selectable_def nonce_in_order_iff al)
  let ?m1 = "\<lambda>z. m(?s \<mapsto> \<lparr>la_balance = la_balance l - z, la_nonce = la_nonce l + 1\<rparr>)"
  have deb: "debit (tx_nonce tx) ?s z (m, d) = Some (?m1 z, add_balance_change ?s (- uint z) (la_nonce l + 1) d)"
    if "z \<le> la_balance l" for z using l n that by (simp add: debit_def not_less)
  show ?thesis
  proof (cases "tx_instruction tx")
    case (Transfer r amount)
    have le: "uint amount + uint (tx_fee tx) \<le> uint (la_balance l)" using req by (simp add: required_balance_def Transfer al)
    have lt: "uint (la_balance l) < 18446744073709551616" using uint_bounded [of "la_balance l"] by simp
    then have tot: "uint (amount + tx_fee tx) = uint amount + uint (tx_fee tx)"
      using le by (simp add: uint_add_lem [THEN iffD1])
    have ck: "checked_add amount (tx_fee tx) = Some (amount + tx_fee tx)" using le lt by (simp add: checked_add_def)
    have z: "amount + tx_fee tx \<le> la_balance l" using le by (simp add: word_le_def tot)
    let ?md = "credit r amount (?m1 (amount + tx_fee tx), add_balance_change ?s (- uint (amount + tx_fee tx)) (la_nonce l + 1) d)"
    have "ledger_step tx (tx_instruction tx) (m, d) = Some (fees (tx_fee tx) ?md)"
      by (simp add: Transfer ck deb [OF z])
    moreover have "fst (fees (tx_fee tx) ?md) = fst ?md" by (simp add: fees_def split: prod.split)
    moreover have "ledger_sim R (select_tx R tx sl) (fst ?md)"
      by (rule ledger_sim_pay [OF sim l n _ z _ _ room refl]) (simp_all add: required_balance_def Transfer tot)
    ultimately show ?thesis
      using that [of "fst (fees (tx_fee tx) ?md)" "snd (fees (tx_fee tx) ?md)"] unfolding prod.collapse by metis
  next
    case (Mint r amount)
    let ?md = "credit r amount (?m1 0, add_balance_change ?s (- uint (0 :: u64)) (la_nonce l + 1) d)"
    have z: "0 \<le> la_balance l" by simp
    have "ledger_step tx (tx_instruction tx) (m, d) = Some ?md"
      using l by (simp add: Mint deb [OF z, simplified])
    moreover have "ledger_sim R (select_tx R tx sl) (fst ?md)"
      by (rule ledger_sim_pay [OF sim l n _ z _ _ room refl]) (simp_all add: required_balance_def Mint)
    ultimately show ?thesis using that [of "fst ?md" "snd ?md"] by simp
  qed (use pay(1) in \<open>simp_all add: is_payment_def\<close>)
qed

text \<open>The selected transactions only grow.\<close>

lemma select_txs_prefix: "prefix (sl_selected sl) (sl_selected (select_txs R req txs sl))"
proof (induction txs arbitrary: sl)
  case (Cons tx txs)
  have "prefix (sl_selected sl) (sl_selected (consider_tx R req tx sl))"
    by (simp add: consider_tx_cases select_tx_def)
  with Cons.IH [of "consider_tx R req tx sl"] show ?case by (auto intro: prefix_order.trans)
qed simp

lemma select_txs_run:
  assumes pay: "\<And>tx. tx \<in> set (sl_selected (select_txs R req txs sl)) \<Longrightarrow> is_payment tx \<and> 0 < tx_fee tx"
    and room: "\<And>a. bal (R a) + total_amount (sl_selected (select_txs R req txs sl)) < 2 ^ 64"
    and run: "ledger_run (sl_selected sl) (ledger_of R, state_diff_new) = Some (m, d)" and sim: "ledger_sim R sl m"
  shows "\<exists>md. ledger_run (sl_selected (select_txs R req txs sl)) (ledger_of R, state_diff_new) = Some md"
  using assms
proof (induction txs arbitrary: sl m d)
  case (Cons tx txs)
  show ?case
  proof (cases "length (sl_selected sl) \<ge> pr_max_txs req \<or> \<not> selectable R req tx sl")
    case True
    then show ?thesis
      using Cons.IH [of sl m d] Cons.prems by (cases "pr_max_txs req \<le> length (sl_selected sl)") (simp_all add: consider_tx_cases)
  next
    case False
    let ?sl = "select_tx R tx sl"
    have fin: "select_txs R req (tx # txs) sl = select_txs R req txs ?sl" using False by (simp add: consider_tx_cases)
    obtain zs where zs: "sl_selected (select_txs R req txs ?sl) = (sl_selected sl @ [tx]) @ zs"
      using select_txs_prefix [of ?sl R req txs] by (auto simp: select_tx_def prefix_def)
    have p: "is_payment tx" "0 < tx_fee tx" using Cons.prems(1) [unfolded fin zs] by simp_all
    have r: "bal (R a) + total_amount (sl_selected sl @ [tx]) < 2 ^ 64" for a
      using Cons.prems(2) [of a, unfolded fin zs] total_amount_nonneg [of zs] by simp
    obtain m' d' where st: "ledger_step tx (tx_instruction tx) (m, d) = Some (m', d')" "ledger_sim R ?sl m'"
      using ledger_sim_step [OF Cons.prems(4) _ p r] False by blast
    have "ledger_run (sl_selected ?sl) (ledger_of R, state_diff_new) = Some (m', d')"
      using Cons.prems(3) st(1) by (simp add: select_tx_def ledger_run_snoc)
    from Cons.IH [OF _ _ this st(2)] Cons.prems(1,2) show ?thesis unfolding fin by blast
  qed
qed auto
subsection \<open>The thread keeps the pool in order\<close>

text \<open>What holds for all stored transactions.\<close>

definition all_txs :: "(transaction \<Rightarrow> bool) \<Rightarrow> transaction_pool \<Rightarrow> bool" where
  "all_txs P p \<longleftrightarrow> (\<forall>h v. tx_at p h = Some v \<longrightarrow> P (vt_tx v))"

lemma all_txs_delete: "all_txs P p \<Longrightarrow> tp_by_hash q = AList.delete h (tp_by_hash p) \<Longrightarrow> all_txs P q"
  by (auto simp: all_txs_def delete_conv' split: if_splits)

lemma all_txs_frame: "all_txs P p \<Longrightarrow> tp_by_hash q = tp_by_hash p \<Longrightarrow> all_txs P q"
  by (simp add: all_txs_def)

lemma all_txs_store: "all_txs P p \<Longrightarrow> P (vt_tx v) \<Longrightarrow> all_txs P (store_tx v p)"
  by (auto simp: all_txs_def store_tx_def update_conv' split: if_splits)

lemma all_txs_remove: "pool_inv p \<Longrightarrow> all_txs P p \<Longrightarrow> all_txs P (snd (pool_remove h p))"
  by (rule all_txs_delete) (simp_all add: pool_remove_inv)

lemma all_txs_evict: "pool_inv p \<Longrightarrow> all_txs P p \<Longrightarrow> all_txs P (evict_lowest_pending p)"
  by (simp add: evict_lowest_pending_def Let_def all_txs_remove split: option.split)

lemma all_txs_replace_queued: "pool_inv p \<Longrightarrow> all_txs P p \<Longrightarrow> replace_queued tx p = Some q \<Longrightarrow> all_txs P q"
  by (auto simp: replace_queued_def intro: all_txs_remove split: option.splits if_splits)

lemma all_txs_make_room: "pool_inv p \<Longrightarrow> all_txs P p \<Longrightarrow> make_room tx p = Some q \<Longrightarrow> all_txs P q"
  by (auto simp: make_room_def intro: all_txs_evict split: if_splits)

lemma all_txs_drop_highest: "all_txs P p \<Longrightarrow> all_txs P (snd (drop_highest m p))"
proof (induction m p rule: drop_highest.induct)
  case (1 m p)
  show ?case
  proof (cases "MAX_QUEUED_PER_SENDER < length m")
    case True
    let ?p = "p\<lparr>tp_by_hash := AList.delete (snd (last m)) (tp_by_hash p), tp_stats_removed := tp_stats_removed p + 1\<rparr>"
    have "all_txs P ?p" by (rule all_txs_delete [OF 1(2)]) simp
    from 1(1) [OF True this] True show ?thesis by (simp add: drop_highest.simps [of m p])
  qed (use 1(2) in \<open>simp add: drop_highest.simps [of m p]\<close>)
qed

lemma all_txs_enforce: "all_txs P p \<Longrightarrow> all_txs P (enforce_queued_limit s p)"
proof (cases "map_of (tp_queued_by_sender p) s")
  case (Some m)
  assume "all_txs P p"
  obtain m' p' where d: "drop_highest m p = (m', p')" by fastforce
  from all_txs_drop_highest [OF \<open>all_txs P p\<close>, of m] have "all_txs P p'" by (simp add: d)
  then show ?thesis by (rule all_txs_frame) (simp add: enforce_queued_limit_def Some d)
qed (simp add: enforce_queued_limit_def)

lemma all_txs_replace_pending:
  "all_txs P p \<Longrightarrow> try_replace_pending now s n tx p = (r, q) \<Longrightarrow> all_txs P q"
  by (auto simp: try_replace_pending_def Let_def intro: all_txs_delete [of P p] split: option.splits if_splits)

lemma all_txs_insert_new:
  assumes inv: "pool_inv p" and new: "tx_at p (tx_hash tx) = None" and nonce: "tx_nonce tx \<noteq> - 1"
    and e: "get_pending_nonce (tx_sender tx) p = Some e" "e \<le> tx_nonce tx"
    and free: "queued_slot p (tx_sender tx) (tx_nonce tx) = None"
    and all: "all_txs P p" "P tx"
  shows "all_txs P (snd (insert_new now tx e p))"
proof -
  let ?v = "new_with_received_at tx now"
  have st: "all_txs P (store_tx ?v p)" using all by (simp add: all_txs_store)
  show ?thesis
  proof (cases "tx_nonce tx = e")
    case True
    let ?q = "(add_to_pending (tx_sender tx) e (tx_hash tx) ?v (store_tx ?v p))
      \<lparr>tp_pending_nonces := AList.update (tx_sender tx) (e + 1) (tp_pending_nonces (store_tx ?v p))\<rparr>"
    have q: "pool_inv ?q" using insert_pending_inv [OF inv new nonce _ free refl refl, of now] e True by (simp add: store_tx_def)
    have "all_txs P (promote_queued (tx_sender tx) ?q)"
      by (rule all_txs_frame [OF st]) (use q in \<open>simp add: promote_queued_inv add_to_pending_def Let_def\<close>)
    then show ?thesis using True by (simp add: insert_new_def Let_def)
  next
    case False
    have "all_txs P (enforce_queued_limit (tx_sender tx) (add_to_queued (tx_sender tx) (tx_nonce tx) (tx_hash tx) (store_tx ?v p)))"
      by (rule all_txs_enforce, rule all_txs_frame [OF st]) (simp add: add_to_queued_def)
    then show ?thesis using False by (simp add: insert_new_def Let_def)
  qed
qed

lemma all_txs_try_add:
  assumes inv: "pool_inv p" and nonce: "tx_nonce tx \<noteq> - 1" and all: "all_txs P p" "P tx"
  shows "all_txs P (snd (try_add now tx base p))"
proof (cases "tx_at p (tx_hash tx)")
  case new: None
  define e where "e = (case get_pending_nonce (tx_sender tx) p of None \<Rightarrow> base | Some e \<Rightarrow> e)"
  define p0 where "p0 = p\<lparr>tp_pending_nonces := AList.update (tx_sender tx) e (tp_pending_nonces p)\<rparr>"
  have p0: "pool_inv p0" "tx_at p0 (tx_hash tx) = None" "get_pending_nonce (tx_sender tx) p0 = Some e" "all_txs P p0"
    using raise_nonce_inv [OF inv, of "tx_sender tx" e] new all_txs_frame [OF all(1)]
    by (simp_all add: p0_def e_def get_pending_nonce_def update_conv')
  note unfold = try_add_unfold [OF new e_def p0_def]
  show ?thesis
  proof (cases "tx_nonce tx < e")
    case True
    obtain r p1 where rep: "try_replace_pending now (tx_sender tx) (tx_nonce tx) tx p0 = (r, p1)" by fastforce
    have p1: "all_txs P p1" by (rule all_txs_replace_pending [OF p0(4) rep])
    then have "all_txs P (store_tx (new_with_received_at tx now) p1)" using all(2) by (simp add: all_txs_store)
    with p1 show ?thesis using True rep by (auto simp: unfold split: option.split bool.split)
  next
    case False
    then have le: "e \<le> tx_nonce tx" by simp
    show ?thesis
    proof (cases "replace_queued tx p0")
      case (Some p1)
      note r = replace_queued_inv [OF p0(1) Some]
      have p1: "all_txs P p1" by (rule all_txs_replace_queued [OF p0(1,4) Some])
      show ?thesis
      proof (cases "make_room tx p1")
        case (Some p2)
        note m = make_room_inv [OF r(1) Some]
        have "all_txs P (snd (insert_new now tx e p2))"
          by (rule all_txs_insert_new [OF m(1) m(4) [OF r(5) [OF p0(2)]] nonce _ le m(5) [OF r(2)]])
            (use p0(3) all(2) all_txs_make_room [OF r(1) p1 Some] in \<open>simp_all add: get_pending_nonce_def m(2) r(3)\<close>)
        then show ?thesis using False \<open>replace_queued tx p0 = Some p1\<close> Some by (simp add: unfold)
      qed (use False Some p1 in \<open>simp add: unfold\<close>)
    qed (use False p0(4) in \<open>simp add: unfold\<close>)
  qed
qed (use all in \<open>simp add: try_add_def\<close>)

lemma all_txs_finalized: "pool_inv p \<Longrightarrow> all_txs P p \<Longrightarrow> all_txs P (remove_finalized hs p)"
  by (induction hs arbitrary: p) (simp_all add: remove_finalized_def pool_remove_inv all_txs_remove)

lemma promote_queued_by_hash: "tp_by_hash (promote_queued s p) = tp_by_hash p"
proof (induction s p rule: promote_queued.induct)
  case (1 s p)
  show ?case
  proof (cases "promote_one s p")
    case (Some q)
    then have "tp_by_hash q = tp_by_hash p" by (auto simp: promote_one_def Let_def split: option.splits)
    with 1 [OF Some] Some show ?thesis by (simp add: promote_queued.simps [of s p])
  qed (simp add: promote_queued.simps [of s p])
qed

lemma all_txs_update_nonce:
  assumes "all_txs P p"
  shows "all_txs P (update_sender_nonce s n p)"
proof -
  have old: "tp_by_hash (remove_old_head s p) = tp_by_hash p" by (simp add: remove_old_head_def split: option.split)
  have "all_txs P (drop_below s n (remove_old_head s p))"
    using assms by (auto simp: all_txs_def drop_below_def Let_def forget_txs old split: option.splits if_splits)
  then have "all_txs P (let p1 = drop_below s n (remove_old_head s p)
      in p1\<lparr>tp_pending_nonces := AList.update s n (tp_pending_nonces p1)\<rparr>)"
    by (simp add: Let_def all_txs_def)
  then show ?thesis
    using assms all_txs_frame [OF _ promote_queued_by_hash] by (simp add: update_sender_nonce_def)
qed

text \<open>The pool is in order and everything in it is signed.\<close>

definition pool_signed :: "env \<Rightarrow> transaction_pool \<Rightarrow> bool" where
  "pool_signed E p \<longleftrightarrow> pool_inv p \<and> all_txs (tx_signature_ok E) p"

lemma apply_finalization_signed:
  assumes "pool_signed E p"
  shows "pool_signed E (apply_finalization R notif p)"
proof -
  have "pool_signed E (fold (\<lambda>s q. update_sender_nonce s (f s) q) ss q)" if "pool_signed E q" for f q and ss :: "address list"
    using that by (induction ss arbitrary: q) (simp_all add: pool_signed_def update_sender_nonce_inv all_txs_update_nonce)
  moreover have "pool_signed E (remove_finalized (fn_tx_hashes notif) p)"
    using assms by (simp add: pool_signed_def remove_finalized_inv all_txs_finalized)
  ultimately show ?thesis by (simp add: apply_finalization_def)
qed

definition ms_inv :: "env \<Rightarrow> mempool_service \<Rightarrow> bool" where
  "ms_inv E s \<longleftrightarrow> pool_signed E (ms_pool s)
     \<and> (\<forall>tx \<in> set (ms_grpc_tx_queue s) \<union> set (ms_p2p_tx_queue s). tx_nonce tx \<noteq> - 1)"

lemma process_incoming_tx_inv:
  assumes inv: "pool_signed E (ms_pool s)" and tx: "tx_nonce tx \<noteq> - 1" and p: "process_incoming_tx E clk R tx s = Some s'"
  shows "pool_signed E (ms_pool s')" and "ms_grpc_tx_queue s' = ms_grpc_tx_queue s"
    and "ms_p2p_tx_queue s' = ms_p2p_tx_queue s"
proof -
  let ?add = "try_add (clk (ms_asked s)) tx (chain_nonce R (tx_sender tx)) (ms_pool s)"
  obtain r q where add: "?add = (r, q)" by fastforce
  have "(tx_verify E tx = Some False \<and> ms_pool s' = ms_pool s \<or> tx_verify E tx = Some True \<and> ms_pool s' = q)
      \<and> ms_grpc_tx_queue s' = ms_grpc_tx_queue s \<and> ms_p2p_tx_queue s' = ms_p2p_tx_queue s"
    using p add by (cases r) (auto simp: process_incoming_tx_def Let_def split: option.splits bool.splits)
  moreover have "pool_signed E q" if "tx_verify E tx = Some True"
  proof -
    have "tx_signature_ok E tx" using that by (simp add: tx_verify_True)
    with inv tx have "pool_signed E (snd ?add)" by (simp add: pool_signed_def try_add_inv all_txs_try_add)
    then show ?thesis by (simp add: add)
  qed
  ultimately show "pool_signed E (ms_pool s')" "ms_grpc_tx_queue s' = ms_grpc_tx_queue s"
    "ms_p2p_tx_queue s' = ms_p2p_tx_queue s" using inv by auto
qed

lemma process_txs_inv:
  assumes "pool_signed E (ms_pool s)" and "\<forall>tx \<in> set txs. tx_nonce tx \<noteq> - 1" and "process_txs E clk R txs s = Some s'"
  shows "pool_signed E (ms_pool s') \<and> ms_grpc_tx_queue s' = ms_grpc_tx_queue s \<and> ms_p2p_tx_queue s' = ms_p2p_tx_queue s"
  using assms
proof (induction txs arbitrary: s)
  case (Cons tx txs)
  from Cons.prems(3) obtain t where t: "process_incoming_tx E clk R tx s = Some t" "process_txs E clk R txs t = Some s'"
    by (auto simp: bind_eq_Some_conv)
  have "tx_nonce tx \<noteq> - 1" "\<forall>tx \<in> set txs. tx_nonce tx \<noteq> - 1" using Cons.prems(2) by simp_all
  with process_incoming_tx_inv [OF Cons.prems(1) _ t(1)] Cons.IH [OF _ _ t(2)] show ?case by simp
qed simp

lemma process_queues_inv:
  assumes "ms_inv E s" and "process_queues E clk R s = Some s'"
  shows "ms_inv E s'"
proof -
  let ?g = "take TX_BATCH_SIZE (ms_grpc_tx_queue s)"
  let ?p = "take (TX_BATCH_SIZE - length ?g) (ms_p2p_tx_queue s)"
  let ?s = "s\<lparr>ms_grpc_tx_queue := drop (length ?g) (ms_grpc_tx_queue s), ms_p2p_tx_queue := drop (length ?p) (ms_p2p_tx_queue s)\<rparr>"
  from assms(2) have p: "process_txs E clk R (?g @ ?p) ?s = Some s'" by (simp add: process_queues_def Let_def)
  have "\<forall>tx \<in> set (?g @ ?p). tx_nonce tx \<noteq> - 1" using assms(1) by (auto simp: ms_inv_def dest: in_set_takeD)
  from process_txs_inv [OF _ this p] assms(1) show ?thesis
    by (auto simp: ms_inv_def dest: in_set_dropD)
qed

lemma answer_requests_frame:
  "answer_requests R room stop reqs s = Some s' \<Longrightarrow> ms_pool s' = ms_pool s \<and> ms_grpc_tx_queue s' = ms_grpc_tx_queue s
     \<and> ms_p2p_tx_queue s' = ms_p2p_tx_queue s"
proof (induction reqs arbitrary: s)
  case (Cons req reqs)
  then obtain b where "answer_requests R room stop reqs
      (s\<lparr>ms_proposal_responses := ms_proposal_responses s @ (if b then [build_validated_proposal R (ms_pool s) req] else []),
         ms_stats_proposals_built := ms_stats_proposals_built s + 1, ms_asked := Suc (ms_asked s)\<rparr>) = Some s'"
    by (auto simp: bind_eq_Some_conv)
  from Cons.IH [OF this] show ?case by simp
qed simp

text \<open>The steps of the thread and of those who fill its queues, in any order. As in the steps of the
  pool, no transaction with the nonce \<open>2 ^ 64 - 1\<close> arrives.\<close>

inductive ms_step :: "env \<Rightarrow> mempool_service \<Rightarrow> mempool_service \<Rightarrow> bool" for E where
  request: "ms_step E s (s\<lparr>ms_proposal_requests := ms_proposal_requests s @ [req]\<rparr>)"
| grpc: "tx_nonce tx \<noteq> - 1 \<Longrightarrow> ms_step E s (s\<lparr>ms_grpc_tx_queue := ms_grpc_tx_queue s @ [tx]\<rparr>)"
| p2p: "tx_nonce tx \<noteq> - 1 \<Longrightarrow> ms_step E s (s\<lparr>ms_p2p_tx_queue := ms_p2p_tx_queue s @ [tx]\<rparr>)"
| finalization: "ms_step E s (s\<lparr>ms_finalized := ms_finalized s @ [notif]\<rparr>)"
| answered: "handle_requests R room stop s = Some s' \<Longrightarrow> ms_step E s s'"
| admitted: "process_queues E clk R s = Some s' \<Longrightarrow> ms_step E s s'"
| followed: "ms_step E s (handle_finalizations R s)"
| published: "ms_step E s (publish_stats s)"

lemma ms_step_inv: "ms_step E s s' \<Longrightarrow> ms_inv E s \<Longrightarrow> ms_inv E s'"
proof (induction rule: ms_step.induct)
  case (answered R room stop s s')
  from answer_requests_frame [OF answered(1) [unfolded handle_requests_def]] answered(2) show ?case by (simp add: ms_inv_def)
next
  case (admitted clk R s s')
  show ?case by (rule process_queues_inv [OF admitted(2,1)])
next
  case (followed s R)
  have "pool_signed E (fold (apply_finalization R) ns p)" if "pool_signed E p" for ns p
    using that by (induction ns arbitrary: p) (simp_all add: apply_finalization_signed)
  with followed show ?case by (simp add: ms_inv_def handle_finalizations_def)
qed (auto simp: ms_inv_def publish_stats_def)

lemma ms_inv_new: "ms_inv E (mempool_service_new capacity)"
  using pool_inv_new [of capacity]
  by (simp add: ms_inv_def mempool_service_new_def pool_signed_def all_txs_def) (simp add: pool_new_def)

interpretation msm: invariant_machine "\<lambda>s. \<exists>capacity. s = mempool_service_new capacity" "ms_step E" "ms_inv E" for E
  by unfold_locales (auto intro: ms_inv_new ms_step_inv)

subsection \<open>Theorems about the thread\<close>

text \<open>C23: Whatever the thread has done, as long as no transaction with the nonce \<open>2 ^ 64 - 1\<close> has
  arrived, its pool is in order and holds only transactions whose signature was verified.\<close>

theorem mempool_invariant:
  assumes "(ms_step E)\<^sup>*\<^sup>* (mempool_service_new capacity) s"
  shows "pool_inv (ms_pool s) \<and> (tx_at (ms_pool s) h = Some v \<longrightarrow> tx_signature_ok E (vt_tx v))"
  using msm.inv_reachable [of "mempool_service_new capacity" E s] assms by (auto simp: ms_inv_def pool_signed_def all_txs_def)

text \<open>C24: Block building meets block validation. Let a proposal be built from a pool of the thread,
  to which no transaction with the nonce \<open>2 ^ 64 - 1\<close> has come, and an account state, consist of transfers and mints that pay a fee, and let no account's balance
  plus all transferred amounts exceed 64 bits. Then the validator accepts every block with these
  transactions against the same account state.\<close>

theorem proposal_passes_validation:
  assumes "(ms_step E)\<^sup>*\<^sup>* (mempool_service_new capacity) s" and "ed_batch_law E"
    and txs: "b_transactions b = ps_transactions (build_validated_proposal R (ms_pool s) req)"
    and "list_all (\<lambda>tx. is_payment tx \<and> 0 < tx_fee tx) (b_transactions b)"
    and "\<And>a. bal (R a) + total_amount (b_transactions b) < 2 ^ 64"
  shows "\<exists>d. validate_block E R b = Inr d"
proof -
  let ?sl = "select_txs R req (iter_pending (ms_pool s)) selection_new"
  have inv: "pool_inv (ms_pool s)" and sig: "all_txs (tx_signature_ok E) (ms_pool s)"
    using msm.inv_reachable [of "mempool_service_new capacity" E s] assms(1) by (auto simp: ms_inv_def pool_signed_def)
  have sel: "b_transactions b = sl_selected ?sl" using txs by (simp add: build_validated_proposal_def Let_def)
  obtain N where N: "b_transactions b = nths (iter_pending (ms_pool s)) N"
    using select_txs_limits [of R req "iter_pending (ms_pool s)"] by (auto simp: sel Let_def subseq_conv_nths)
  have "\<exists>md. ledger_run (sl_selected ?sl) (ledger_of R, state_diff_new) = Some md"
    by (rule select_txs_run [OF _ _ _ ledger_sim_init])
      (use assms(4,5) in \<open>simp_all add: sel list_all_iff selection_new_def\<close>)
  then obtain m d where "ledger_run (b_transactions b) (ledger_of R, state_diff_new) = Some (m, d)" by (auto simp: sel)
  moreover have "distinct (map tx_hash (b_transactions b))"
    using iter_take_distinct [OF inv iter_new_inv [OF inv], of "pending_len (ms_pool s)"]
    by (simp add: N nths_map [symmetric] distinct_nthsI iter_pending_def)
  moreover have "tx_signature_ok E t" if "t \<in> set (b_transactions b)" for t
  proof -
    have "t \<in> set (iter_pending (ms_pool s))" using that unfolding N by (rule in_set_nthsD)
    with iter_pending_mem [OF inv] sig show ?thesis by (auto simp: all_txs_def)
  qed
  ultimately show ?thesis using validate_block_ledger [OF assms(2), of R b d] by (auto simp: list_all_iff)
qed

text \<open>C40: A transaction whose sender is not a public key ends the mempool thread. Verifying it
  panics, so one such transaction at the front of the gossip queue is enough.\<close>

theorem keyless_tx_ends_mempool:
  assumes "\<not> ed_valid_key E (tx_sender tx)" and "ms_grpc_tx_queue s = []" and "ms_p2p_tx_queue s = tx # rest"
  shows "process_queues E clk R s = None"
  using assms by (simp add: process_queues_def TX_BATCH_SIZE_def process_incoming_tx_def tx_verify_def to_public_key_def
      take_Cons' Let_def)

text \<open>The push of a response returns exactly when there is room or the shutdown is seen at some attempt.\<close>

theorem push_with_backpressure_returns:
  "push_with_backpressure room stop i \<noteq> None \<longleftrightarrow> (\<exists>j \<ge> i. room j \<or> stop j)"
proof
  assume "\<exists>j \<ge> i. room j \<or> stop j"
  then obtain j where j: "i \<le> j" "room j \<or> stop j" by blast
  have "push_with_backpressure room stop (j - k) \<noteq> None" if "k \<le> j" for k
    using that
  proof (induction k)
    case 0
    then show ?case using j(2) by (subst push_with_backpressure.simps) auto
  next
    case (Suc k)
    then have "push_with_backpressure room stop (Suc (j - Suc k)) \<noteq> None" by (simp add: Suc_diff_Suc)
    then show ?case by (subst push_with_backpressure.simps) auto
  qed
  from this [of "j - i"] j(1) show "push_with_backpressure room stop i \<noteq> None" by simp
next
  have "push_with_backpressure room stop i = Some b \<Longrightarrow> \<exists>j \<ge> i. room j \<or> stop j" for i b
  proof (induction rule: push_with_backpressure.raw_induct [rotated 1, consumes 1, case_names step])
    case (step self room stop i b)
    show ?case
    proof (cases "room i \<or> stop i")
      case False
      with step(2) have "self room stop (Suc i) = Some b" by simp
      from step(1) [OF this] show ?thesis using Suc_leD by blast
    qed blast
  qed
  then show "push_with_backpressure room stop i \<noteq> None \<Longrightarrow> \<exists>j \<ge> i. room j \<or> stop j" by blast
qed
subsection \<open>Examples\<close>

text \<open>Transactions and blocks with short hashes; the signatures verify.\<close>

definition pay_tx :: "address \<Rightarrow> transaction_instruction \<Rightarrow> u64 \<Rightarrow> u64 \<Rightarrow> transaction" where
  "pay_tx a instr n fee = \<lparr>tx_sender = a, tx_instruction = instr, tx_nonce = n, tx_timestamp = 0, tx_fee = fee,
     tx_hash = a @ [ucast n], tx_signature = a @ a @ [ucast n]\<rparr>"

definition pay_block :: "transaction list \<Rightarrow> block" where
  "pay_block txs = \<lparr>b_leader = 3, b_header = \<lparr>h_view = 3, h_parent_block_hash = [9], h_timestamp = 0\<rparr>,
     b_leader_signature = 0, b_transactions = txs, b_hash = Some [8], b_is_finalized = False, b_height = 3\<rparr>"

definition toy_received :: "transaction list \<Rightarrow> mempool_service" where
  "toy_received txs = fold (\<lambda>tx s. s\<lparr>ms_p2p_tx_queue := ms_p2p_tx_queue s @ [tx]\<rparr>) txs (mempool_service_new 8)"

definition toy_admitted :: "transaction list \<Rightarrow> mempool_service option" where
  "toy_admitted txs = process_queues toy_env (\<lambda>i. i) toy_get (toy_received txs)"

lemma toy_admitted_reachable:
  assumes "list_all (\<lambda>tx. tx_nonce tx \<noteq> - 1) txs" and "toy_admitted txs = Some s"
  shows "(ms_step toy_env)\<^sup>*\<^sup>* (mempool_service_new 8) s"
proof -
  have "(ms_step toy_env)\<^sup>*\<^sup>* (mempool_service_new 8) (toy_received txs)"
    using assms(1)
    by (induction txs rule: rev_induct)
      (auto simp: toy_received_def intro: rtranclp.rtrancl_into_rtrancl ms_step.p2p)
  then show ?thesis using assms(2) unfolding toy_admitted_def by (auto intro: rtranclp.rtrancl_into_rtrancl ms_step.admitted)
qed

definition toy_request :: proposal_request where
  "toy_request = \<lparr>pr_view = 3, pr_max_txs = 5, pr_max_bytes = 600, pr_parent_block_hash = [9]\<rparr>"

text \<open>The second sender can pay only what it receives first.\<close>

definition toy_payments :: "transaction list" where
  "toy_payments = [pay_tx [1] (Mint [4] 5) 5 1, pay_tx [2] (Transfer [4] 12) 0 2, pay_tx [1] (Transfer [2] 10) 4 3]"

definition toy_mempool :: mempool_service where
  "toy_mempool = the (toy_admitted toy_payments)"

lemma toy_payments_nonces: "list_all (\<lambda>tx. tx_nonce tx \<noteq> - 1) toy_payments"
  by code_simp

lemma toy_payments_admitted: "toy_admitted toy_payments = Some toy_mempool"
proof -
  have "toy_admitted toy_payments \<noteq> None" by code_simp
  then show ?thesis by (simp add: toy_mempool_def)
qed

lemma toy_mempool_reachable: "(ms_step toy_env)\<^sup>*\<^sup>* (mempool_service_new 8) toy_mempool"
  by (rule toy_admitted_reachable [OF toy_payments_nonces toy_payments_admitted])

lemma toy_proposal:
  "ps_transactions (build_validated_proposal toy_get (ms_pool toy_mempool) toy_request)
     = [pay_tx [1] (Transfer [2] 10) 4 3, pay_tx [2] (Transfer [4] 12) 0 2, pay_tx [1] (Mint [4] 5) 5 1]"
  by code_simp

theorem mempool_invariant_witness:
  "(ms_step toy_env)\<^sup>*\<^sup>* (mempool_service_new 8) toy_mempool \<and> pool_inv (ms_pool toy_mempool)
   \<and> ms_stats_added_pending toy_mempool = 2 \<and> ms_stats_added_queued toy_mempool = 1"
proof -
  have "ms_stats_added_pending toy_mempool = 2" by code_simp
  moreover have "ms_stats_added_queued toy_mempool = 1" by code_simp
  ultimately show ?thesis using mempool_invariant [OF toy_mempool_reachable] toy_mempool_reachable by blast
qed

theorem proposal_passes_validation_witness:
  "let b = pay_block (ps_transactions (build_validated_proposal toy_get (ms_pool toy_mempool) toy_request))
   in length (b_transactions b) = 3 \<and> (\<exists>d. validate_block toy_env toy_get b = Inr d)"
proof -
  let ?b = "pay_block (ps_transactions (build_validated_proposal toy_get (ms_pool toy_mempool) toy_request))"
  have b: "b_transactions ?b = ps_transactions (build_validated_proposal toy_get (ms_pool toy_mempool) toy_request)"
    by (simp add: pay_block_def)
  have pay: "list_all (\<lambda>tx. is_payment tx \<and> 0 < tx_fee tx) (b_transactions ?b)" unfolding b toy_proposal by code_simp
  have "total_amount (b_transactions ?b) = 27" unfolding b toy_proposal by code_simp
  then have room: "bal (toy_get a) + total_amount (b_transactions ?b) < 2 ^ 64" for a by (simp add: bal_def toy_get_def)
  have "length (b_transactions ?b) = 3" unfolding b by (simp add: toy_proposal)
  with proposal_passes_validation [OF toy_mempool_reachable toy_env_ed_batch_law b pay room] show ?thesis by simp
qed

theorem keyless_tx_ends_mempool_witness:
  "toy_admitted [pay_tx [1] (Transfer [2] 10) 4 1] \<noteq> None \<and> toy_admitted [pay_tx [] (Transfer [2] 10) 4 1] = None"
proof -
  have "toy_admitted [pay_tx [] (Transfer [2] 10) 4 1] = None"
    unfolding toy_admitted_def
    by (rule keyless_tx_ends_mempool [of _ "pay_tx [] (Transfer [2] 10) 4 1" _ "[]"])
      (simp_all add: toy_env_def toy_received_def pay_tx_def mempool_service_new_def)
  moreover have "toy_admitted [pay_tx [1] (Transfer [2] 10) 4 1] \<noteq> None" by code_simp
  ultimately show ?thesis by blast
qed

text \<open>Creating an account that exists is proposed nevertheless, and makes the block invalid.\<close>

theorem existing_account_proposal_is_rejected:
  "let s = the (toy_admitted [pay_tx [1] (CreateAccount [2]) 4 1]);
       txs = ps_transactions (build_validated_proposal toy_get (ms_pool s) toy_request)
   in txs = [pay_tx [1] (CreateAccount [2]) 4 1]
    \<and> validate_block toy_env toy_get (pay_block txs) = Inl [AccountAlreadyExists 0 [2]]"
  by code_simp

text \<open>So is a burn of another account, whose nonce the validator compares with that of the burned account.\<close>

theorem burn_proposal_is_rejected:
  "let s = the (toy_admitted [pay_tx [1] (Burn [2] 7) 4 9]);
       txs = ps_transactions (build_validated_proposal toy_get (ms_pool s) toy_request)
   in txs = [pay_tx [1] (Burn [2] 7) 4 9]
    \<and> validate_block toy_env toy_get (pay_block txs) = Inl [InvalidNonce 0 [2] 0 4]"
  by code_simp

end
