(* ===== verification/Threshold.thy ===== *)
theory Threshold
  imports Complex_Main Prelude
begin

text \<open>
  Threshold BLS signatures (\<open>crypto/src/scalar.rs\<close>, \<open>polynomial.rs\<close> and \<open>threshold.rs\<close>): Shamir's secret
  sharing, distribution of key shares, partial signatures and their aggregation. The scalar field of
  the curve is an arbitrary field; the curve operations of the \<open>blst\<close> library are the fields of a
  record, with what is relied on as \<open>blst_laws\<close>. The random generator is the sequence of the scalars
  it yields. A value serialised and parsed again is the same value.
\<close>

subsection \<open>Scalars and polynomials\<close>

definition is_zero :: "'a::field \<Rightarrow> bool" where
  "is_zero x \<longleftrightarrow> x = 0"

definition scalar_inverse :: "'a::field \<Rightarrow> 'a option" where
  "scalar_inverse x = (if is_zero x then None else Some (inverse x))"

definition scalar_div :: "'a::field \<Rightarrow> 'a \<Rightarrow> 'a option" where
  "scalar_div a b = (if is_zero b then None else map_option (\<lambda>i. a * i) (scalar_inverse b))"

text \<open>Coefficients from the constant term on.\<close>

type_synonym 'a polynomial = "'a list"

definition poly_random :: "nat \<Rightarrow> 'a \<Rightarrow> (nat \<Rightarrow> 'a) \<Rightarrow> 'a polynomial" where
  "poly_random degree constant_term rng = constant_term # map rng [0..<degree]"

text \<open>Horner's method, from the highest coefficient down.\<close>

definition evaluate :: "'a::field polynomial \<Rightarrow> 'a \<Rightarrow> 'a" where
  "evaluate cs x = (case rev cs of
      [] \<Rightarrow> 0
    | highest # rest \<Rightarrow> fold (\<lambda>coeff result. result * x + coeff) rest highest)"

subsection \<open>Shamir's secret sharing\<close>

record 'a share =
  share_x :: 'a
  share_y :: 'a

record shamir_sharing =
  ss_threshold :: nat
  ss_total_shares :: nat

definition shamir_new :: "nat \<Rightarrow> nat \<Rightarrow> shamir_sharing" where
  "shamir_new threshold total_shares = \<lparr>ss_threshold = threshold, ss_total_shares = total_shares\<rparr>"

text \<open>The panics of the code (a subtraction below zero, a division by zero, a slice or an index out of
  range) are errors beside the errors the code returns.\<close>

datatype threshold_error =
    SubtractUnderflow
  | DivisionByZero
  | SliceOutOfRange
  | NotEnoughSignatures nat nat
  | NotInG1 nat
  | VerificationFailed

text \<open>With threshold 0 the degree \<open>threshold - 1\<close> underflows.\<close>

definition split :: "shamir_sharing \<Rightarrow> 'a::field \<Rightarrow> (nat \<Rightarrow> 'a) \<Rightarrow> threshold_error + 'a share list" where
  "split sh secret rng =
     (if ss_threshold sh = 0 then Inl SubtractUnderflow
      else let poly = poly_random (ss_threshold sh - 1) secret rng
        in Inr (map (\<lambda>i. \<lparr>share_x = of_nat i, share_y = evaluate poly (of_nat i)\<rparr>)
             [1..<Suc (ss_total_shares sh)]))"

text \<open>The coefficients are computed before they are used, which is the same since they change nothing.
  The division fails when two of the shares have the same first coordinate.\<close>

definition lagrange_coefficient :: "'a::field share list \<Rightarrow> nat \<Rightarrow> threshold_error + 'a" where
  "lagrange_coefficient shares i =
     (if shares \<noteq> [] \<and> length shares \<le> i then Inl SliceOutOfRange
      else let (numerator, denominator) = fold (\<lambda>(j, share_j) (numerator, denominator).
            if i \<noteq> j then (numerator * share_x share_j, denominator * (share_x share_j - share_x (shares ! i)))
            else (numerator, denominator)) (enumerate 0 shares) (1, 1)
      in case scalar_div numerator denominator of None \<Rightarrow> Inl DivisionByZero | Some l \<Rightarrow> Inr l)"

fun collect_results :: "('e + 'b) list \<Rightarrow> 'e + 'b list" where
  "collect_results [] = Inr []"
| "collect_results (Inl e # rs) = Inl e"
| "collect_results (Inr x # rs) = map_sum id (\<lambda>xs. x # xs) (collect_results rs)"

definition lagrange_coefficients :: "'a::field share list \<Rightarrow> threshold_error + 'a list" where
  "lagrange_coefficients shares = collect_results (map (lagrange_coefficient shares) [0..<length shares])"

definition reconstruct :: "shamir_sharing \<Rightarrow> 'a::field share list \<Rightarrow> threshold_error + 'a" where
  "reconstruct sh shares =
     (if length shares < ss_threshold sh then Inl SliceOutOfRange
      else let shares_to_use = take (ss_threshold sh) shares
        in map_sum id (\<lambda>ls. fold (\<lambda>(share, lambda) secret. secret + share_y share * lambda) (zip shares_to_use ls) 0)
             (lagrange_coefficients shares_to_use))"

subsection \<open>Threshold signatures\<close>

record ('a, 'g, 'k) blst =
  bl_hash_to_g1 :: "bytes \<Rightarrow> 'g"
  bl_p1_mult :: "'a \<Rightarrow> 'g \<Rightarrow> 'g"
  bl_in_g1 :: "'g \<Rightarrow> bool"
  bl_p2_mult :: "'a \<Rightarrow> 'k \<Rightarrow> 'k"
  bl_p2_generator :: 'k
  bl_verify :: "'k \<Rightarrow> bytes \<Rightarrow> 'g \<Rightarrow> bool"

record ('a, 'k) key_share =
  ks_id :: nat
  ks_secret_scalar :: 'a
  ks_public_key :: 'k

record 'g partial_signature =
  pg_id :: nat
  pg_signature :: 'g

record threshold_bls =
  tb_threshold :: nat
  tb_total_participants :: nat
  tb_shamir :: shamir_sharing

definition threshold_bls_new :: "nat \<Rightarrow> nat \<Rightarrow> threshold_bls" where
  "threshold_bls_new threshold total_participants =
     \<lparr>tb_threshold = threshold, tb_total_participants = total_participants,
      tb_shamir = shamir_new threshold total_participants\<rparr>"

definition scalar_to_public_key :: "('a, 'g, 'k) blst \<Rightarrow> 'a \<Rightarrow> 'k" where
  "scalar_to_public_key B s = bl_p2_mult B s (bl_p2_generator B)"

definition trusted_setup ::
    "('a::field, 'g, 'k) blst \<Rightarrow> threshold_bls \<Rightarrow> (nat \<Rightarrow> 'a) \<Rightarrow> threshold_error + 'k \<times> ('a, 'k) key_share list" where
  "trusted_setup B t rng =
     (let master_scalar = rng 0; master_pk = scalar_to_public_key B master_scalar
      in map_sum id (\<lambda>shares. (master_pk,
           map (\<lambda>(idx, share). \<lparr>ks_id = idx + 1, ks_secret_scalar = share_y share,
                 ks_public_key = scalar_to_public_key B (share_y share)\<rparr>) (enumerate 0 shares)))
           (split (tb_shamir t) master_scalar (\<lambda>i. rng (Suc i))))"

definition partial_sign :: "('a, 'g, 'k) blst \<Rightarrow> ('a, 'k) key_share \<Rightarrow> bytes \<Rightarrow> 'g partial_signature" where
  "partial_sign B k message =
     \<lparr>pg_id = ks_id k, pg_signature = bl_p1_mult B (ks_secret_scalar k) (bl_hash_to_g1 B message)\<rparr>"

text \<open>The loop over the signatures with their coefficients; the first point is copied.\<close>

fun add_signatures ::
    "('a, 'g::ab_group_add, 'k) blst \<Rightarrow> (nat \<times> 'g partial_signature \<times> 'a) list \<Rightarrow> 'g \<Rightarrow> threshold_error + 'g" where
  "add_signatures B [] acc = Inr acc"
| "add_signatures B ((i, partial, lambda) # rest) acc =
     (if \<not> bl_in_g1 B (pg_signature partial) then Inl (NotInG1 i)
      else let multiplied = bl_p1_mult B lambda (pg_signature partial)
        in add_signatures B rest (if i = 0 then multiplied else acc + multiplied))"

definition aggregate ::
    "('a::field, 'g::ab_group_add, 'k) blst \<Rightarrow> threshold_bls \<Rightarrow> 'g partial_signature list \<Rightarrow> threshold_error + 'g" where
  "aggregate B t partial_signatures =
     (if length partial_signatures < tb_threshold t
      then Inl (NotEnoughSignatures (length partial_signatures) (tb_threshold t))
      else let sigs_to_use = take (tb_threshold t) partial_signatures;
               shares = map (\<lambda>ps. \<lparr>share_x = of_nat (pg_id ps), share_y = 0\<rparr>) sigs_to_use
        in case lagrange_coefficients shares of
             Inl e \<Rightarrow> Inl e
           | Inr lambdas \<Rightarrow> add_signatures B (enumerate 0 (zip sigs_to_use lambdas)) 0)"

definition threshold_verify :: "('a, 'g, 'k) blst \<Rightarrow> 'k \<Rightarrow> bytes \<Rightarrow> 'g \<Rightarrow> threshold_error + unit" where
  "threshold_verify B public_key message signature =
     (if bl_verify B public_key message signature then Inr () else Inl VerificationFailed)"

text \<open>What is relied on: a hash and its multiples lie in the subgroup of prime order, multiplication by
  scalars is linear on that subgroup (on the curve points outside of it, which \<open>bl_in_g1\<close> rejects, it
  need not be), and a signature by a nonzero key verifies under the key.\<close>

definition blst_laws :: "('a::field, 'g::ab_group_add, 'k) blst \<Rightarrow> bool" where
  "blst_laws B \<longleftrightarrow> (\<forall>m. bl_in_g1 B (bl_hash_to_g1 B m))
     \<and> (\<forall>a m. bl_in_g1 B (bl_p1_mult B a (bl_hash_to_g1 B m)))
     \<and> (\<forall>a b P. bl_in_g1 B P \<longrightarrow> bl_p1_mult B (a + b) P = bl_p1_mult B a P + bl_p1_mult B b P)
     \<and> (\<forall>a b P. bl_in_g1 B P \<longrightarrow> bl_p1_mult B a (bl_p1_mult B b P) = bl_p1_mult B (a * b) P)
     \<and> (\<forall>a m. a \<noteq> 0 \<longrightarrow> bl_verify B (bl_p2_mult B a (bl_p2_generator B)) m (bl_p1_mult B a (bl_hash_to_g1 B m)))"

subsection \<open>Functions given by polynomials\<close>

lemma evaluate_Nil [simp]: "evaluate [] x = 0"
  by (simp add: evaluate_def)

lemma evaluate_Cons: "evaluate (c # cs) x = c + x * evaluate cs x"
  by (cases "rev cs") (simp_all add: evaluate_def algebra_simps)

primrec poly_fun :: "nat \<Rightarrow> ('a::field \<Rightarrow> 'a) \<Rightarrow> bool" where
  "poly_fun 0 f \<longleftrightarrow> (\<forall>z. f z = 0)"
| "poly_fun (Suc d) f \<longleftrightarrow> (\<exists>c g. poly_fun d g \<and> (\<forall>z. f z = c + z * g z))"

lemma poly_fun_cong: "poly_fun d f \<Longrightarrow> (\<And>z. f z = g z) \<Longrightarrow> poly_fun d g"
  by (cases d) auto

lemma poly_fun_evaluate: "poly_fun (length cs) (evaluate cs)"
  by (induction cs) (auto simp: evaluate_Cons)

lemma poly_fun_zero: "poly_fun d (\<lambda>z. 0)"
  by (induction d) (auto intro!: exI [of _ "\<lambda>z. 0"])

lemma poly_fun_const: "poly_fun (Suc d) (\<lambda>z. c)"
  using poly_fun_zero [of d] by (auto intro!: exI [of _ c] exI [of _ "\<lambda>z. 0"])

lemma poly_fun_add: "poly_fun d f \<Longrightarrow> poly_fun d g \<Longrightarrow> poly_fun d (\<lambda>z. f z + g z)"
proof (induction d arbitrary: f g)
  case (Suc d)
  obtain a f' where f: "poly_fun d f'" "\<forall>z. f z = a + z * f' z" using Suc.prems(1) by auto
  obtain b g' where g: "poly_fun d g'" "\<forall>z. g z = b + z * g' z" using Suc.prems(2) by auto
  have "poly_fun d (\<lambda>z. f' z + g' z)" using f(1) g(1) by (rule Suc.IH)
  moreover have "\<forall>z. f z + g z = (a + b) + z * (f' z + g' z)" using f(2) g(2) by (simp add: algebra_simps)
  ultimately show ?case unfolding poly_fun.simps by blast
qed simp

lemma poly_fun_scale: "poly_fun d f \<Longrightarrow> poly_fun d (\<lambda>z. k * f z)"
proof (induction d arbitrary: f)
  case (Suc d)
  obtain a f' where f: "poly_fun d f'" "\<forall>z. f z = a + z * f' z" using Suc.prems by auto
  have "poly_fun d (\<lambda>z. k * f' z)" using f(1) by (rule Suc.IH)
  moreover have "\<forall>z. k * f z = (k * a) + z * (k * f' z)" using f(2) by (simp add: algebra_simps)
  ultimately show ?case unfolding poly_fun.simps by blast
qed simp

lemma poly_fun_Suc: "poly_fun d f \<Longrightarrow> poly_fun (Suc d) f"
proof (induction d arbitrary: f)
  case 0
  then show ?case by (auto intro!: exI [of _ 0] exI [of _ "\<lambda>z. 0"])
next
  case (Suc d)
  then obtain a f' where "poly_fun d f'" "\<forall>z. f z = a + z * f' z" by auto
  then show ?case using Suc.IH [of f'] unfolding poly_fun.simps(2) [of "Suc d"] by blast
qed

lemma poly_fun_linear: "poly_fun d f \<Longrightarrow> poly_fun (Suc d) (\<lambda>z. (a - z) * f z)"
proof -
  assume f: "poly_fun d f"
  have "poly_fun (Suc d) (\<lambda>z. a * f z)" using poly_fun_Suc poly_fun_scale f by blast
  moreover have "poly_fun (Suc d) (\<lambda>z. z * ((- 1) * f z))"
    using poly_fun_scale [OF f, of "- 1"] by (auto intro!: exI [of _ 0])
  ultimately have "poly_fun (Suc d) (\<lambda>z. a * f z + z * ((- 1) * f z))" by (rule poly_fun_add)
  then show ?thesis by (rule poly_fun_cong) (simp add: algebra_simps)
qed

lemma poly_fun_prod: "finite X \<Longrightarrow> poly_fun (Suc (card X)) (\<lambda>z. k * (\<Prod>b\<in>X. (b - z)))"
proof (induction X rule: finite_induct)
  case (insert b X)
  show ?case using poly_fun_linear [OF insert.IH, of b] insert.hyps
    by (auto elim!: poly_fun_cong simp: algebra_simps simp del: poly_fun.simps)
qed (simp add: poly_fun_const del: poly_fun.simps)

lemma poly_fun_sum: "finite A \<Longrightarrow> (\<And>a. a \<in> A \<Longrightarrow> poly_fun d (f a)) \<Longrightarrow> poly_fun d (\<lambda>z. \<Sum>a\<in>A. f a z)"
  by (induction A rule: finite_induct) (auto intro: poly_fun_zero poly_fun_add)

text \<open>Division by \<open>z - a\<close>, and from it the bound on the number of roots.\<close>

lemma poly_fun_divide: "poly_fun (Suc d) f \<Longrightarrow> \<exists>g. poly_fun d g \<and> (\<forall>z. f z = f a + (z - a) * g z)"
proof (induction d arbitrary: f)
  case 0
  then show ?case by auto
next
  case (Suc d)
  obtain c h where h: "poly_fun (Suc d) h" "\<forall>z. f z = c + z * h z"
    using Suc.prems by (auto simp only: poly_fun.simps(2) [of "Suc d"])
  obtain g where g: "poly_fun d g" "\<forall>z. h z = h a + (z - a) * g z" using Suc.IH [OF h(1)] by auto
  have "poly_fun (Suc d) (\<lambda>z. h z + a * g z)"
    using poly_fun_add [OF h(1) poly_fun_Suc [OF poly_fun_scale [OF g(1)]]] .
  moreover have "f z = f a + (z - a) * (h z + a * g z)" for z
  proof -
    have diff: "h z - h a = (z - a) * g z" using g(2) by (metis add_diff_cancel_left')
    have "f z = f a + ((z - a) * h z + a * (h z - h a))" using h(2) by (simp add: algebra_simps)
    also have "\<dots> = f a + (z - a) * (h z + a * g z)" unfolding diff by (simp add: algebra_simps)
    finally show ?thesis .
  qed
  ultimately show ?case by blast
qed

lemma poly_fun_roots:
  "finite X \<Longrightarrow> poly_fun (card X) f \<Longrightarrow> (\<And>a. a \<in> X \<Longrightarrow> f a = 0) \<Longrightarrow> f z = 0"
proof (induction X arbitrary: f z rule: finite_induct)
  case (insert x X)
  obtain g where g: "poly_fun (card X) g" "\<forall>z. f z = f x + (z - x) * g z"
    using poly_fun_divide [of "card X" f x] insert.prems(1) insert.hyps by (auto simp del: poly_fun.simps)
  have "g a = 0" if "a \<in> X" for a
  proof -
    have "f a = 0" "f x = 0" "a \<noteq> x" using that insert by auto
    then show ?thesis using g(2) [rule_format, of a] by auto
  qed
  then show ?case using insert.IH [OF g(1)] g(2) insert.prems(2) by simp
qed simp

lemma minus_one_cancel: "a + (- 1) * b = 0 \<Longrightarrow> b = a" for a b :: "'a::field"
  by simp

text \<open>Interpolation at 0.\<close>

lemma interpolate_zero:
  assumes "finite X" "poly_fun (card X) f"
  shows "(\<Sum>a\<in>X. f a * ((\<Prod>b\<in>X - {a}. b) / (\<Prod>b\<in>X - {a}. b - a))) = f 0"
proof -
  let ?k = "\<lambda>a. f a / (\<Prod>b\<in>X - {a}. b - a)"
  let ?q = "\<lambda>z. \<Sum>a\<in>X. ?k a * (\<Prod>b\<in>X - {a}. b - z)"
  have "poly_fun (card X) (\<lambda>z. ?k a * (\<Prod>b\<in>X - {a}. b - z))" if "a \<in> X" for a
    using poly_fun_prod [of "X - {a}" "?k a"] card_Suc_Diff1 [OF assms(1) that] assms(1)
    by (simp del: poly_fun.simps)
  then have q: "poly_fun (card X) ?q" using assms(1) by (intro poly_fun_sum)
  have agree: "?q c = f c" if c: "c \<in> X" for c
  proof -
    have zero: "?k a * (\<Prod>b\<in>X - {a}. b - c) = 0" if "a \<in> X - {c}" for a
      using that c assms(1) by auto
    have "(\<Sum>a\<in>X - {c}. ?k a * (\<Prod>b\<in>X - {a}. b - c)) = 0" using zero by (rule sum.neutral [OF ballI])
    then have "?q c = ?k c * (\<Prod>b\<in>X - {c}. b - c)"
      unfolding sum.remove [OF assms(1) c, of "\<lambda>a. ?k a * (\<Prod>b\<in>X - {a}. b - c)"] by (simp only: add_0_right)
    moreover have "(\<Prod>b\<in>X - {c}. b - c) \<noteq> 0" using assms(1) by auto
    ultimately show ?thesis by simp
  qed
  have "poly_fun (card X) (\<lambda>z. f z + (- 1) * ?q z)"
    using assms(2) poly_fun_scale [OF q, of "- 1"] by (rule poly_fun_add)
  moreover have "f a + (- 1) * ?q a = 0" if "a \<in> X" for a unfolding agree [OF that] by simp
  ultimately have "f 0 + (- 1) * ?q 0 = 0" by (rule poly_fun_roots [OF assms(1)])
  then have "?q 0 = f 0" by (rule minus_one_cancel)
  then show ?thesis by simp
qed

subsection \<open>Reconstruction\<close>

lemma collect_results_Inr: "collect_results (map (\<lambda>i. Inr (f i)) is) = Inr (map f is)"
  by (induction "is") auto

lemma lagrange_fold:
  fixes xs :: "'a::field share list"
  shows "fold (\<lambda>(j, share_j) (numerator, denominator).
            if i \<noteq> j then (numerator * share_x share_j, denominator * (share_x share_j - c))
            else (numerator, denominator)) (enumerate k xs) (p, q)
       = (p * (\<Prod>j\<in>{k..<k + length xs} - {i}. share_x (xs ! (j - k))),
          q * (\<Prod>j\<in>{k..<k + length xs} - {i}. share_x (xs ! (j - k)) - c))"
proof (induction xs arbitrary: k p q)
  case (Cons x xs)
  let ?S = "{Suc k..<Suc k + length xs} - {i}"
  have split: "{k..<k + length (x # xs)} - {i} = (if i = k then ?S else insert k ?S)" by auto
  have shift: "(\<Prod>j\<in>?S. g ((x # xs) ! (j - k))) = (\<Prod>j\<in>?S. g (xs ! (j - Suc k)))" for g :: "'a share \<Rightarrow> 'a"
    by (rule prod.cong) (auto simp: nth_Cons' Suc_diff_Suc)
  show ?case
  proof (cases "i = k")
    case True
    then show ?thesis using Cons.IH [of "Suc k" p q] split shift [of share_x] shift [of "\<lambda>s. share_x s - c"] by simp
  next
    case False
    then show ?thesis
      using Cons.IH [of "Suc k" "p * share_x x" "q * (share_x x - c)"] split shift [of share_x]
        shift [of "\<lambda>s. share_x s - c"] by (simp add: mult.assoc)
  qed
qed simp

definition lagrange :: "(nat \<Rightarrow> 'a::field) \<Rightarrow> nat \<Rightarrow> nat \<Rightarrow> 'a" where
  "lagrange x n i = (\<Prod>j\<in>{0..<n} - {i}. x j) / (\<Prod>j\<in>{0..<n} - {i}. x j - x i)"

lemma lagrange_coefficient_eq:
  assumes "i < length shares"
  shows "lagrange_coefficient shares i =
     (if \<exists>j < length shares. j \<noteq> i \<and> share_x (shares ! j) = share_x (shares ! i) then Inl DivisionByZero
      else Inr (lagrange (\<lambda>j. share_x (shares ! j)) (length shares) i))"
proof -
  let ?x = "\<lambda>j. share_x (shares ! j)"
  let ?d = "\<Prod>j\<in>{0..<length shares} - {i}. ?x j - ?x i"
  have zero: "?d = 0 \<longleftrightarrow> (\<exists>j < length shares. j \<noteq> i \<and> ?x j = ?x i)" by auto
  have "lagrange_coefficient shares i = (if ?d = 0 then Inl DivisionByZero else Inr (lagrange ?x (length shares) i))"
    using assms unfolding lagrange_coefficient_def lagrange_fold
    by (simp add: scalar_div_def scalar_inverse_def is_zero_def lagrange_def divide_inverse del: prod_zero_iff)
  then show ?thesis unfolding zero .
qed

lemma lagrange_coefficients_distinct:
  assumes "distinct (map share_x shares)"
  shows "lagrange_coefficients shares
       = Inr (map (lagrange (\<lambda>j. share_x (shares ! j)) (length shares)) [0..<length shares])"
proof -
  have "share_x (shares ! j) \<noteq> share_x (shares ! i)" if "i < length shares" "j < length shares" "j \<noteq> i" for i j
    using assms that nth_eq_iff_index_eq [of "map share_x shares" j i] by simp
  then have "map (lagrange_coefficient shares) [0..<length shares]
      = map (\<lambda>i. Inr (lagrange (\<lambda>j. share_x (shares ! j)) (length shares) i)) [0..<length shares]"
    by (auto simp: lagrange_coefficient_eq)
  then show ?thesis unfolding lagrange_coefficients_def by (simp only: collect_results_Inr)
qed

lemma interpolate_list:
  assumes "inj_on x {0..<n}" "poly_fun n f"
  shows "(\<Sum>i\<in>{0..<n}. f (x i) * lagrange x n i) = f 0"
proof -
  let ?X = "x ` {0..<n}"
  let ?l = "\<lambda>a. (\<Prod>b\<in>?X - {a}. b) / (\<Prod>b\<in>?X - {a}. b - a)"
  have card: "card ?X = n" using assms(1) by (simp add: card_image)
  have "lagrange x n i = ?l (x i)" if i: "i < n" for i
  proof -
    have X: "?X - {x i} = x ` ({0..<n} - {i})" using assms(1) i by (auto simp: inj_on_def)
    have inj: "inj_on x ({0..<n} - {i})" using assms(1) by (rule inj_on_subset) auto
    show ?thesis unfolding X by (simp add: lagrange_def prod.reindex [OF inj])
  qed
  then have "(\<Sum>i\<in>{0..<n}. f (x i) * lagrange x n i) = (\<Sum>i\<in>{0..<n}. f (x i) * ?l (x i))" by simp
  also have "\<dots> = (\<Sum>a\<in>?X. f a * ?l a)" by (simp add: sum.reindex [OF assms(1)])
  also have "\<dots> = f 0" using assms(2) card by (intro interpolate_zero) auto
  finally show ?thesis .
qed

lemma fold_add_zip:
  "fold (\<lambda>(s, l) acc. acc + g s * l) (zip xs (map h [0..<length xs])) a = a + (\<Sum>i\<in>{0..<length xs}. g (xs ! i) * h i)"
  for a :: "'a::field"
proof (induction xs arbitrary: a rule: rev_induct)
  case (snoc x xs)
  have "zip (xs @ [x]) (map h [0..<length (xs @ [x])]) = zip xs (map h [0..<length xs]) @ [(x, h (length xs))]"
    by simp
  moreover have "(\<Sum>i\<in>{0..<length xs}. g ((xs @ [x]) ! i) * h i) = (\<Sum>i\<in>{0..<length xs}. g (xs ! i) * h i)"
    by (rule sum.cong) (auto simp: nth_append)
  ultimately show ?case using snoc.IH by (simp add: algebra_simps)
qed simp

definition on_polynomial :: "'a::field polynomial \<Rightarrow> 'a share list \<Rightarrow> bool" where
  "on_polynomial cs shares \<longleftrightarrow> distinct (map share_x shares) \<and> (\<forall>s\<in>set shares. share_y s = evaluate cs (share_x s))"

lemma interpolate_shares:
  assumes "on_polynomial cs shares" "length shares = length cs"
  shows "(\<Sum>i\<in>{0..<length shares}. share_y (shares ! i) * lagrange (\<lambda>j. share_x (shares ! j)) (length shares) i)
       = evaluate cs 0"
proof -
  have "inj_on (\<lambda>j. share_x (shares ! j)) {0..<length shares}"
    using assms(1) nth_eq_iff_index_eq [of "map share_x shares"] by (auto simp: on_polynomial_def inj_on_def)
  then have "(\<Sum>i\<in>{0..<length shares}. evaluate cs (share_x (shares ! i))
      * lagrange (\<lambda>j. share_x (shares ! j)) (length shares) i) = evaluate cs 0"
    using poly_fun_evaluate [of cs] assms(2) by (intro interpolate_list) auto
  then show ?thesis using assms(1) by (auto simp: on_polynomial_def intro: sum.cong)
qed

lemma on_polynomial_take: "on_polynomial cs shares \<Longrightarrow> on_polynomial cs (take n shares)"
  by (auto simp: on_polynomial_def take_map [symmetric] dest: in_set_takeD)

lemma reconstruct_on_polynomial:
  assumes "on_polynomial cs shares" "length cs = ss_threshold sh" "ss_threshold sh \<le> length shares"
  shows "reconstruct sh shares = Inr (evaluate cs 0)"
proof -
  let ?use = "take (ss_threshold sh) shares"
  have use: "on_polynomial cs ?use" "length ?use = length cs"
    using assms on_polynomial_take by (auto simp: min_def)
  have "distinct (map share_x ?use)" using use(1) by (simp add: on_polynomial_def)
  then show ?thesis
    using assms interpolate_shares [OF use]
    by (simp add: reconstruct_def lagrange_coefficients_distinct fold_add_zip del: length_take)
qed

lemma split_Inr:
  assumes "split sh secret rng = Inr shares"
  shows "0 < ss_threshold sh" "length shares = ss_total_shares sh"
    "shares = map (\<lambda>i. \<lparr>share_x = of_nat i, share_y = evaluate (poly_random (ss_threshold sh - 1) secret rng) (of_nat i)\<rparr>)
       [1..<Suc (ss_total_shares sh)]"
  using assms by (auto simp: split_def split: if_splits)

lemma poly_random_simps [simp]:
  "length (poly_random d c rng) = Suc d" "evaluate (poly_random d c rng) 0 = c"
  by (simp_all add: poly_random_def evaluate_Cons)

text \<open>Any selection of the shares lies on the polynomial of the split, as long as the indices are
  distinct scalars.\<close>

lemma split_on_polynomial:
  assumes "split sh secret rng = Inr shares" "inj_on (of_nat :: nat \<Rightarrow> 'a::field) {..ss_total_shares sh}"
    and "distinct picked" "set picked \<subseteq> set (shares :: 'a share list)"
  shows "on_polynomial (poly_random (ss_threshold sh - 1) secret rng) picked"
proof -
  have "inj_on share_x (set shares)"
    using assms(2) unfolding split_Inr(3) [OF assms(1)] by (auto simp: inj_on_def simp del: of_nat_eq_iff)
  then have "inj_on share_x (set picked)" using assms(4) by (rule inj_on_subset)
  moreover have "\<forall>s\<in>set shares. share_y s = evaluate (poly_random (ss_threshold sh - 1) secret rng) (share_x s)"
    by (subst split_Inr(3) [OF assms(1)]) auto
  ultimately show ?thesis using assms(3,4) by (auto simp: on_polynomial_def distinct_map)
qed

text \<open>C27: Shamir's scheme returns the secret. From any \<open>threshold\<close> or more different shares that \<open>split\<close>
  made of a secret, in any order, \<open>reconstruct\<close> returns the secret, whatever random scalars were drawn,
  in every field in which the indices 0 to \<open>total_shares\<close> are different.\<close>

theorem reconstruct_returns_secret:
  fixes secret :: "'a::field"
  assumes "split sh secret rng = Inr shares" "inj_on (of_nat :: nat \<Rightarrow> 'a) {..ss_total_shares sh}"
    and "distinct picked" "set picked \<subseteq> set shares" "ss_threshold sh \<le> length picked"
  shows "reconstruct sh picked = Inr secret"
  using reconstruct_on_polynomial [OF split_on_polynomial [OF assms(1-4)], of sh] assms(5) split_Inr(1) [OF assms(1)]
  by simp

subsection \<open>Aggregation\<close>

lemma p1_mult_zero:
  assumes "blst_laws B"
  shows "bl_p1_mult B 0 (bl_hash_to_g1 B m) = 0"
proof -
  let ?P = "bl_hash_to_g1 B m"
  have "bl_p1_mult B (0 + 0) ?P = bl_p1_mult B 0 ?P + bl_p1_mult B 0 ?P"
    using assms unfolding blst_laws_def by blast
  then show ?thesis by simp
qed

lemma add_signatures_sum:
  assumes "blst_laws B" "k = 0 \<Longrightarrow> a = 0"
  shows "add_signatures B (enumerate k (zip (map (\<lambda>s. partial_sign B s m) signers) ls)) (bl_p1_mult B a (bl_hash_to_g1 B m))
       = Inr (bl_p1_mult B (a + sum_list (map (\<lambda>(s, l). l * ks_secret_scalar s) (zip signers ls))) (bl_hash_to_g1 B m))"
  using assms(2)
proof (induction signers arbitrary: k a ls)
  case (Cons s signers)
  note laws = assms(1) [unfolded blst_laws_def]
  show ?case
  proof (cases ls)
    case (Cons l ls')
    let ?a = "a + l * ks_secret_scalar s"
    have "bl_p1_mult B ?a (bl_hash_to_g1 B m)
        = (if k = 0 then bl_p1_mult B (l * ks_secret_scalar s) (bl_hash_to_g1 B m)
           else bl_p1_mult B a (bl_hash_to_g1 B m) + bl_p1_mult B (l * ks_secret_scalar s) (bl_hash_to_g1 B m))"
      using laws Cons.prems by (cases "k = 0") simp_all
    then show ?thesis
      using Cons.IH [of "Suc k" ?a ls'] laws Cons by (simp add: partial_sign_def add.assoc)
  qed simp
qed simp

definition key_point :: "('a::field, 'k) key_share \<Rightarrow> 'a share" where
  "key_point k = \<lparr>share_x = of_nat (ks_id k), share_y = ks_secret_scalar k\<rparr>"

lemma sum_list_zip_upt:
  "sum_list (map (\<lambda>(s, l). l * g s) (zip xs (map h [0..<length xs]))) = (\<Sum>i\<in>{0..<length xs}. g (xs ! i) * h i)"
  for g :: "'s \<Rightarrow> 'a::field"
  by (simp add: sum_list_sum_nth mult.commute)

lemma aggregate_on_polynomial:
  fixes cs :: "'a::field polynomial" and B :: "('a, 'g::ab_group_add, 'k) blst"
  assumes "blst_laws B" "on_polynomial cs (map key_point signers)" "length cs = tb_threshold t"
    and "tb_threshold t \<le> length signers"
  shows "aggregate B t (map (\<lambda>k. partial_sign B k m) signers)
       = Inr (bl_p1_mult B (evaluate cs 0) (bl_hash_to_g1 B m))"
proof -
  let ?use = "take (tb_threshold t) signers"
  let ?pts = "map key_point ?use"
  let ?ids = "map (\<lambda>ps. \<lparr>share_x = of_nat (pg_id ps), share_y = 0\<rparr>) (map (\<lambda>k. partial_sign B k m) ?use) :: 'a share list"
  let ?ls = "map (lagrange (\<lambda>j. share_x (?pts ! j)) (length ?pts)) [0..<length ?pts]"
  have use: "on_polynomial cs ?pts" "length ?pts = length cs"
    using on_polynomial_take [OF assms(2), of "tb_threshold t"] assms(3,4) by (simp_all add: take_map)
  have xs: "map share_x ?ids = map share_x ?pts" by (simp add: key_point_def partial_sign_def)
  have "lagrange (\<lambda>j. share_x (?ids ! j)) (length ?ids) i = lagrange (\<lambda>j. share_x (?pts ! j)) (length ?pts) i"
    if "i < length ?pts" for i
    unfolding lagrange_def using that
    by (intro arg_cong2 [where f = "(/)"] prod.cong) (simp_all add: key_point_def partial_sign_def)
  then have ls: "map (lagrange (\<lambda>j. share_x (?ids ! j)) (length ?ids)) [0..<length ?ids] = ?ls" by simp
  have "distinct (map share_x ?ids)" using use(1) unfolding xs on_polynomial_def by simp
  then have lambdas: "lagrange_coefficients ?ids = Inr ?ls" unfolding ls [symmetric] by (rule lagrange_coefficients_distinct)
  have "aggregate B t (map (\<lambda>k. partial_sign B k m) signers)
      = add_signatures B (enumerate 0 (zip (map (\<lambda>k. partial_sign B k m) ?use) ?ls)) (bl_p1_mult B 0 (bl_hash_to_g1 B m))"
    using assms(1,4) lambdas by (simp add: aggregate_def take_map p1_mult_zero)
  also have "\<dots> = Inr (bl_p1_mult B (0 + sum_list (map (\<lambda>(s, l). l * ks_secret_scalar s) (zip ?use ?ls))) (bl_hash_to_g1 B m))"
    using assms(1) by (rule add_signatures_sum) simp
  also have "sum_list (map (\<lambda>(s, l). l * ks_secret_scalar s) (zip ?use ?ls))
      = (\<Sum>i\<in>{0..<length ?pts}. share_y (?pts ! i) * lagrange (\<lambda>j. share_x (?pts ! j)) (length ?pts) i)"
    using sum_list_zip_upt [of ks_secret_scalar ?use] by (simp add: key_point_def)
  also have "\<dots> = evaluate cs 0" using use by (rule interpolate_shares)
  finally show ?thesis by simp
qed

lemma split_nth:
  assumes "split sh secret rng = Inr shares" "i < ss_total_shares sh"
  shows "shares ! i = \<lparr>share_x = of_nat (Suc i),
           share_y = evaluate (poly_random (ss_threshold sh - 1) secret rng) (of_nat (Suc i))\<rparr>"
  using assms(2) unfolding split_Inr(3) [OF assms(1)] by (simp del: upt_Suc of_nat_Suc)

lemma trusted_setup_Inr:
  assumes "trusted_setup B t rng = Inr (pk, keys)"
  obtains shares where "split (tb_shamir t) (rng 0) (\<lambda>i. rng (Suc i)) = Inr shares"
    "pk = scalar_to_public_key B (rng 0)" "map key_point keys = shares"
proof -
  obtain shares where shares: "split (tb_shamir t) (rng 0) (\<lambda>i. rng (Suc i)) = Inr shares"
    using assms by (cases "split (tb_shamir t) (rng 0) (\<lambda>i. rng (Suc i))") (auto simp: trusted_setup_def)
  moreover have "pk = scalar_to_public_key B (rng 0)" using assms shares by (simp add: trusted_setup_def)
  moreover have "map key_point keys = shares"
  proof (rule nth_equalityI)
    fix i
    assume i: "i < length (map key_point keys)"
    then have "keys ! i = \<lparr>ks_id = i + 1, ks_secret_scalar = share_y (shares ! i),
        ks_public_key = scalar_to_public_key B (share_y (shares ! i))\<rparr>" "i < length shares"
      using assms shares by (auto simp: trusted_setup_def nth_enumerate_eq)
    then show "map key_point keys ! i = shares ! i"
      using i split_nth [OF shares] split_Inr(2) [OF shares] by (simp add: key_point_def del: of_nat_Suc)
  qed (use assms shares in \<open>auto simp: trusted_setup_def\<close>)
  ultimately show thesis by (rule that)
qed

lemma distinct_map_subset:
  assumes "distinct (map f xs)" "distinct ys" "set ys \<subseteq> set xs"
  shows "distinct (map f ys)"
  using assms by (auto simp: distinct_map intro: inj_on_subset)

text \<open>C26: threshold signing. After a trusted setup, the partial signatures on a message by any
  \<open>threshold\<close> or more different key shares, in any order, aggregate without error to the signature the
  master key would make, and it verifies under the master public key. The field has different scalars
  for the indices 0 to \<open>total_participants\<close> and the master scalar drawn is not 0.\<close>

theorem aggregated_signature_verifies:
  fixes B :: "('a::field, 'g::ab_group_add, 'k) blst"
  assumes "blst_laws B" "trusted_setup B (threshold_bls_new n p) rng = Inr (pk, keys)"
    and "inj_on (of_nat :: nat \<Rightarrow> 'a) {..p}" "rng 0 \<noteq> 0"
    and "distinct signers" "set signers \<subseteq> set keys" "n \<le> length signers"
  shows "aggregate B (threshold_bls_new n p) (map (\<lambda>k. partial_sign B k m) signers)
           = Inr (bl_p1_mult B (rng 0) (bl_hash_to_g1 B m))
       \<and> threshold_verify B pk m (bl_p1_mult B (rng 0) (bl_hash_to_g1 B m)) = Inr ()"
proof -
  let ?t = "threshold_bls_new n p"
  let ?cs = "poly_random (n - 1) (rng 0) (\<lambda>i. rng (Suc i))"
  obtain shares where s: "split (tb_shamir ?t) (rng 0) (\<lambda>i. rng (Suc i)) = Inr shares"
      "pk = scalar_to_public_key B (rng 0)" "map key_point keys = shares"
    using assms(2) by (rule trusted_setup_Inr)
  have sh: "ss_threshold (tb_shamir ?t) = n" "ss_total_shares (tb_shamir ?t) = p" "tb_threshold ?t = n"
    by (simp_all add: threshold_bls_new_def shamir_new_def)
  have n: "0 < n" using split_Inr(1) [OF s(1)] sh by simp
  have "distinct shares" using assms(3) unfolding split_Inr(3) [OF s(1)] sh
    by (auto simp: distinct_map inj_on_def simp del: of_nat_eq_iff)
  then have d: "distinct (map key_point signers)" using s(3) assms(5,6) distinct_map_subset by blast
  have sub: "set (map key_point signers) \<subseteq> set shares" using s(3) assms(6) by auto
  have "on_polynomial ?cs (map key_point signers)"
    using split_on_polynomial [OF s(1) _ d sub] assms(3) sh by simp
  then have "aggregate B ?t (map (\<lambda>k. partial_sign B k m) signers) = Inr (bl_p1_mult B (evaluate ?cs 0) (bl_hash_to_g1 B m))"
    using assms(7) n sh by (intro aggregate_on_polynomial [OF assms(1)]) auto
  moreover have "bl_verify B pk m (bl_p1_mult B (rng 0) (bl_hash_to_g1 B m))"
    using assms(1,4) unfolding s(2) scalar_to_public_key_def blst_laws_def by blast
  ultimately show ?thesis by (simp add: threshold_verify_def)
qed

subsection \<open>Secrecy\<close>

lemma poly_fun_coefficients: "poly_fun d f \<Longrightarrow> \<exists>cs. length cs = d \<and> (\<forall>z. f z = evaluate cs z)"
proof (induction d arbitrary: f)
  case (Suc d)
  then obtain c g where g: "poly_fun d g" "\<forall>z. f z = c + z * g z" by auto
  then obtain cs where "length cs = d" "\<forall>z. g z = evaluate cs z" using Suc.IH by blast
  then show ?case using g(2) by (intro exI [of _ "c # cs"]) (simp add: evaluate_Cons)
qed simp

lemma poly_fun_mono: "poly_fun d f \<Longrightarrow> d \<le> e \<Longrightarrow> poly_fun e f"
  by (induction e) (auto simp: le_Suc_eq simp del: poly_fun.simps intro: poly_fun_Suc)

lemma poly_fun_through: "finite X \<Longrightarrow> \<exists>f. poly_fun (card X) f \<and> (\<forall>a\<in>X. f a = y a)"
proof (induction X rule: finite_induct)
  case empty
  show ?case by (rule exI [of _ "\<lambda>z. 0"]) simp
next
  case (insert x X)
  then obtain f where f: "poly_fun (card X) f" "\<forall>a\<in>X. f a = y a" by blast
  let ?k = "(y x - f x) / (\<Prod>b\<in>X. b - x)"
  let ?g = "\<lambda>z. f z + ?k * (\<Prod>b\<in>X. b - z)"
  have "(\<Prod>b\<in>X. b - x) \<noteq> 0" using insert.hyps by auto
  then have "?g x = y x" by simp
  moreover have "?g a = y a" if "a \<in> X" for a using that f(2) insert.hyps(1) by simp
  moreover have "poly_fun (card (insert x X)) ?g"
    using poly_fun_add [OF poly_fun_Suc [OF f(1)] poly_fun_prod [OF insert.hyps(1), of ?k]]
    unfolding card_insert_disjoint [OF insert.hyps] .
  ultimately have "poly_fun (card (insert x X)) ?g \<and> (\<forall>a\<in>insert x X. ?g a = y a)" by blast
  then show ?case by (rule exI [of _ ?g])
qed

text \<open>C28: fewer than \<open>threshold\<close> shares say nothing about the secret. For every set of fewer than
  \<open>threshold\<close> share holders and every other secret there are random scalars with which \<open>split\<close> gives
  these holders exactly the same shares.\<close>

theorem few_shares_hide_secret:
  fixes secret other :: "'a::field"
  assumes "split sh secret rng = Inr shares" "inj_on (of_nat :: nat \<Rightarrow> 'a) {..ss_total_shares sh}"
    and "holders \<subseteq> {..<ss_total_shares sh}" "card holders < ss_threshold sh"
  shows "\<exists>rng' shares'. split sh other rng' = Inr shares' \<and> (\<forall>i\<in>holders. shares' ! i = shares ! i)"
proof -
  let ?t = "ss_threshold sh"
  let ?p = "poly_random (?t - 1) secret rng"
  let ?X = "insert 0 ((\<lambda>i. of_nat (Suc i) :: 'a) ` holders)"
  have fin: "finite holders" using assms(3) finite_subset by blast
  have card: "card ?X \<le> ?t" using card_insert_le_m1 [of ?t "(\<lambda>i. of_nat (Suc i) :: 'a) ` holders" 0]
      card_image_le [OF fin, of "\<lambda>i. of_nat (Suc i) :: 'a"] assms(4) by linarith
  obtain f where f: "poly_fun (card ?X) f" "\<forall>a\<in>?X. f a = (if a = 0 then other else evaluate ?p a)"
    using poly_fun_through [of ?X "\<lambda>a. if a = 0 then other else evaluate ?p a", OF finite.insertI [OF finite_imageI [OF fin]]]
    by blast
  obtain cs where cs: "length cs = ?t" "\<forall>z. f z = evaluate cs z"
    using poly_fun_coefficients [OF poly_fun_mono [OF f(1) card]] by blast
  obtain c cs' where Cons: "cs = c # cs'" using cs(1) assms(4) by (cases cs) auto
  have "f 0 = other" using f(2) by simp
  then have c: "c = other" using cs(2) unfolding Cons by (simp add: evaluate_Cons)
  let ?rng = "\<lambda>i. cs' ! i"
  have poly: "poly_random (?t - 1) other ?rng = cs"
  proof -
    have "?t - 1 = length cs'" using cs(1) unfolding Cons by simp
    then show ?thesis unfolding poly_random_def Cons c by (simp only: map_nth)
  qed
  obtain shares' where shares': "split sh other ?rng = Inr shares'" using assms(4) by (simp add: split_def)
  have "shares' ! i = shares ! i" if i: "i \<in> holders" for i
  proof -
    have lt: "i < ss_total_shares sh" using i assms(3) by auto
    have nz: "of_nat (Suc i) \<noteq> (0 :: 'a)" using inj_onD [OF assms(2), of "Suc i" 0] lt by auto
    have mem: "of_nat (Suc i) \<in> ?X" using i by blast
    have "f (of_nat (Suc i)) = evaluate ?p (of_nat (Suc i))" using f(2) [rule_format, OF mem] nz by (simp only: if_False)
    then have "evaluate cs (of_nat (Suc i)) = evaluate ?p (of_nat (Suc i))" using cs(2) by simp
    then show ?thesis
      unfolding split_nth [OF shares' lt] split_nth [OF assms(1) lt] poly by (simp del: of_nat_Suc)
  qed
  then show ?thesis using shares' by blast
qed

subsection \<open>Repeated signers\<close>

lemma collect_results_error:
  "Inl e \<in> set rs \<Longrightarrow> {e'. Inl e' \<in> set rs} \<subseteq> {e} \<Longrightarrow> collect_results rs = Inl e"
proof (induction rs rule: collect_results.induct)
  case (2 e1 rs)
  have "e1 = e" using "2.prems"(2) by auto
  then show ?case by simp
next
  case (3 x rs)
  have "{e'. Inl e' \<in> set rs} \<subseteq> {e'. Inl e' \<in> set (Inr x # rs)}" by auto
  then have "collect_results rs = Inl e" using "3.prems" by (intro "3.IH") (simp, rule subset_trans)
  then show ?case by simp
qed simp

lemma lagrange_coefficients_repeated:
  assumes "i < j" "j < length shares" "share_x (shares ! i) = share_x (shares ! j)"
  shows "lagrange_coefficients shares = Inl DivisionByZero"
proof -
  have "\<exists>k < length shares. k \<noteq> j \<and> share_x (shares ! k) = share_x (shares ! j)"
    using assms by (intro exI [of _ i]) simp
  then have j: "lagrange_coefficient shares j = Inl DivisionByZero"
    unfolding lagrange_coefficient_eq [OF assms(2)] by (simp only: if_True)
  have "lagrange_coefficient shares j \<in> set (map (lagrange_coefficient shares) [0..<length shares])"
    using assms(2) by simp
  then have "Inl DivisionByZero \<in> set (map (lagrange_coefficient shares) [0..<length shares])" unfolding j .
  moreover have "{e. Inl e \<in> set (map (lagrange_coefficient shares) [0..<length shares])} \<subseteq> {DivisionByZero}"
  proof
    fix e
    assume e: "e \<in> {e. Inl e \<in> set (map (lagrange_coefficient shares) [0..<length shares])}"
    obtain k where k: "k < length shares" "Inl e = lagrange_coefficient shares k" using e by auto
    show "e \<in> {DivisionByZero}" using k(2) unfolding lagrange_coefficient_eq [OF k(1)] by (simp split: if_splits)
  qed
  ultimately show ?thesis unfolding lagrange_coefficients_def by (rule collect_results_error)
qed

text \<open>Two partial signatures with the same identifier among the first \<open>threshold\<close> ones make
  \<open>aggregate\<close> panic by a division by zero, where it reports every other bad input as an error.\<close>

theorem repeated_signer_panics:
  fixes B :: "('a::field, 'g::ab_group_add, 'k) blst"
  assumes "tb_threshold t \<le> length sigs" "i < j" "j < tb_threshold t" "pg_id (sigs ! i) = pg_id (sigs ! j)"
  shows "aggregate B t sigs = Inl DivisionByZero"
proof -
  let ?ids = "map (\<lambda>ps. \<lparr>share_x = of_nat (pg_id ps), share_y = 0\<rparr>) (take (tb_threshold t) sigs) :: 'a share list"
  have "lagrange_coefficients ?ids = Inl DivisionByZero"
    using assms by (intro lagrange_coefficients_repeated [of i j]) simp_all
  then show ?thesis using assms(1) by (simp add: aggregate_def)
qed

subsection \<open>Instances over the rational numbers\<close>

definition rat_blst :: "(rat, rat, rat) blst" where
  "rat_blst = \<lparr>bl_hash_to_g1 = (\<lambda>m. of_nat (Suc (length m))), bl_p1_mult = (*), bl_in_g1 = (\<lambda>P. True),
     bl_p2_mult = (*), bl_p2_generator = 1,
     bl_verify = (\<lambda>pk m s. s = pk * of_nat (Suc (length m)))\<rparr>"

lemma rat_blst_laws: "blst_laws rat_blst"
  by (simp add: blst_laws_def rat_blst_def algebra_simps)

definition rat_rng :: "nat \<Rightarrow> rat" where
  "rat_rng i = of_nat (i + 5)"

definition rat_shares :: "rat share list" where
  "rat_shares = [\<lparr>share_x = 1, share_y = 12\<rparr>, \<lparr>share_x = 2, share_y = 17\<rparr>, \<lparr>share_x = 3, share_y = 22\<rparr>]"

lemma rat_split: "split (shamir_new 2 3) 7 rat_rng = Inr rat_shares"
  by (simp add: split_def shamir_new_def poly_random_def evaluate_def rat_rng_def rat_shares_def upt_rec)

lemma rat_threshold [simp]: "ss_threshold (shamir_new t n) = t" "ss_total_shares (shamir_new t n) = n"
  by (simp_all add: shamir_new_def)

theorem reconstruct_returns_secret_witness:
  "split (shamir_new 2 3) 7 rat_rng = Inr rat_shares
   \<and> reconstruct (shamir_new 2 3) [rat_shares ! 2, rat_shares ! 0] = Inr 7"
  using reconstruct_returns_secret [OF rat_split, of "[rat_shares ! 2, rat_shares ! 0]"] rat_split
  by (simp add: rat_shares_def inj_on_def)

theorem few_shares_hide_secret_witness:
  "split (shamir_new 2 3) 7 rat_rng = Inr rat_shares
   \<and> (\<exists>rng' shares'. split (shamir_new 2 3) (100 :: rat) rng' = Inr shares' \<and> shares' ! 1 = rat_shares ! 1)"
  using few_shares_hide_secret [OF rat_split, of "{1}" 100] rat_split by (simp add: inj_on_def)

definition rat_keys :: "(rat, rat) key_share list" where
  "rat_keys = [\<lparr>ks_id = 1, ks_secret_scalar = 11, ks_public_key = 11\<rparr>, \<lparr>ks_id = 2, ks_secret_scalar = 17, ks_public_key = 17\<rparr>,
     \<lparr>ks_id = 3, ks_secret_scalar = 23, ks_public_key = 23\<rparr>]"

lemma rat_setup: "trusted_setup rat_blst (threshold_bls_new 2 3) rat_rng = Inr (5, rat_keys)"
  by (simp add: trusted_setup_def threshold_bls_new_def split_def shamir_new_def poly_random_def evaluate_def
      rat_rng_def rat_keys_def scalar_to_public_key_def rat_blst_def upt_rec)

theorem aggregated_signature_verifies_witness:
  "aggregate rat_blst (threshold_bls_new 2 3) (map (\<lambda>k. partial_sign rat_blst k [1]) [rat_keys ! 1, rat_keys ! 2]) = Inr 10
   \<and> threshold_verify rat_blst 5 [1] 10 = Inr ()"
  using aggregated_signature_verifies [OF rat_blst_laws rat_setup, of "[rat_keys ! 1, rat_keys ! 2]" "[1]"]
  by (simp add: rat_keys_def inj_on_def rat_rng_def) (simp add: rat_blst_def)

theorem repeated_signer_panics_witness:
  "aggregate rat_blst (threshold_bls_new 2 3) [\<lparr>pg_id = 1, pg_signature = 4\<rparr>, \<lparr>pg_id = 1, pg_signature = 4\<rparr>]
     = Inl DivisionByZero"
  by (rule repeated_signer_panics [of _ _ 0 1]) (simp_all add: threshold_bls_new_def)

end
