(* ===== verification/Block_Sync.thy ===== *)
theory Block_Sync
  imports Pending_State
begin

text \<open>
  Block synchronisation between validators and RPC nodes: the wire messages (\<open>p2p/src/message.rs\<close>,
  \<open>p2p/src/protocols/sync.rs\<close>), the sync channel and the router of a validator
  (\<open>p2p/src/service.rs\<close>), the RPC side of the channel (\<open>rpc/src/p2p.rs\<close>), the block syncer
  (\<open>rpc/src/sync.rs\<close>) and the event loop of the RPC node (\<open>rpc/src/node.rs\<close>). The \<open>rkyv\<close> encoding of
  blocks, notarizations and messages is a parameter; heights are natural numbers below \<open>2 ^ 64\<close>, with
  the wrap-around of their addition written out.
\<close>

subsection \<open>Messages and their encoding\<close>

record block_request =
  br_view :: nat
  br_block_hash :: "hash option"

datatype block_response =
    Found bytes "bytes option"
  | NotFound nat
  | HashMismatch nat "hash option"

datatype p2p_message =
    Consensus consensus_message
  | Transaction transaction
  | TransactionBatch "transaction list"
  | Ping u64
  | Pong u64
  | BlockRequest block_request
  | BlockResponse block_response

record wire =
  serialize_block :: "block \<Rightarrow> bytes option"
  deserialize_block :: "bytes \<Rightarrow> block option"
  serialize_l_notarization :: "l_notarization \<Rightarrow> bytes option"
  deserialize_l_notarization :: "bytes \<Rightarrow> l_notarization option"
  serialize_message :: "p2p_message \<Rightarrow> bytes option"
  deserialize_message :: "bytes \<Rightarrow> p2p_message option"

text \<open>What is relied on of the encoding: decoding inverts it.\<close>

definition wire_laws :: "wire \<Rightarrow> bool" where
  "wire_laws W \<longleftrightarrow> (\<forall>b bs. serialize_block W b = Some bs \<longrightarrow> deserialize_block W bs = Some b)
     \<and> (\<forall>l bs. serialize_l_notarization W l = Some bs \<longrightarrow> deserialize_l_notarization W bs = Some l)
     \<and> (\<forall>m bs. serialize_message W m = Some bs \<longrightarrow> deserialize_message W bs = Some m)"

datatype p2p_error =
    Connection | Codec | Anyhow | MessageType | PeerNotFound | SendError | ReceiveError | Config | NotReady | QueueFull

definition encode_block_request :: "wire \<Rightarrow> nat \<Rightarrow> hash option \<Rightarrow> p2p_error + bytes" where
  "encode_block_request W view h =
     (case serialize_message W (BlockRequest \<lparr>br_view = view, br_block_hash = h\<rparr>) of
        None \<Rightarrow> Inl Codec | Some bs \<Rightarrow> Inr bs)"

definition encode_block_response :: "wire \<Rightarrow> block_response \<Rightarrow> p2p_error + bytes" where
  "encode_block_response W r =
     (case serialize_message W (BlockResponse r) of None \<Rightarrow> Inl Codec | Some bs \<Rightarrow> Inr bs)"

definition decode_block_request :: "wire \<Rightarrow> bytes \<Rightarrow> p2p_error + block_request" where
  "decode_block_request W bs =
     (case deserialize_message W bs of
        None \<Rightarrow> Inl Anyhow
      | Some (BlockRequest req) \<Rightarrow> Inr req
      | Some _ \<Rightarrow> Inl MessageType)"

definition decode_block_response :: "wire \<Rightarrow> bytes \<Rightarrow> p2p_error + block_response" where
  "decode_block_response W bs =
     (case deserialize_message W bs of
        None \<Rightarrow> Inl Anyhow
      | Some (BlockResponse r) \<Rightarrow> Inr r
      | Some _ \<Rightarrow> Inl MessageType)"

subsection \<open>The network service of a validator\<close>

text \<open>The bounded queues towards the consensus and the mempool threads.\<close>

record 'a queue =
  q_items :: "'a list"
  q_capacity :: nat

definition queue_push :: "'a \<Rightarrow> 'a queue \<Rightarrow> 'a queue option" where
  "queue_push x q = (if length (q_items q) < q_capacity q then Some (q\<lparr>q_items := q_items q @ [x]\<rparr>) else None)"

definition route_incoming_message ::
    "wire \<Rightarrow> bytes \<Rightarrow> consensus_message queue \<Rightarrow> transaction queue
      \<Rightarrow> (p2p_error + unit) \<times> consensus_message queue \<times> transaction queue" where
  "route_incoming_message W bs cq tq =
     (case deserialize_message W bs of
        None \<Rightarrow> (Inl Anyhow, cq, tq)
      | Some (Consensus m) \<Rightarrow>
          (case queue_push m cq of None \<Rightarrow> (Inl SendError, cq, tq) | Some cq' \<Rightarrow> (Inr (), cq', tq))
      | Some (Transaction tx) \<Rightarrow>
          (case queue_push tx tq of None \<Rightarrow> (Inl SendError, cq, tq) | Some tq' \<Rightarrow> (Inr (), cq, tq'))
      | Some _ \<Rightarrow> (Inr (), cq, tq))"

text \<open>The answer to a block request, from the finalized blocks of the store.\<close>

definition block_response_for :: "wire \<Rightarrow> store \<Rightarrow> block_request \<Rightarrow> block_response" where
  "block_response_for W st req =
     (case get_finalized_block_by_height (br_view req) st of
        None \<Rightarrow> NotFound (br_view req)
      | Some b \<Rightarrow>
          let block_bytes = (case serialize_block W b of None \<Rightarrow> [] | Some bs \<Rightarrow> bs);
              l_notarization_bytes =
                Option.bind (b_hash b) (\<lambda>h. case get_l_notarization h st of
                    Inl e \<Rightarrow> None
                  | Inr None \<Rightarrow> None
                  | Inr (Some l) \<Rightarrow> serialize_l_notarization W l)
          in Found block_bytes l_notarization_bytes)"

text \<open>A message on the sync channel; the result is what is sent, with the recipients.\<close>

definition serve_sync_message :: "wire \<Rightarrow> store option \<Rightarrow> bytes \<Rightarrow> bytes \<Rightarrow> (bytes \<times> bytes list) list" where
  "serve_sync_message W st sender msg =
     (case deserialize_message W msg of
        Some (Ping ts) \<Rightarrow> (case serialize_message W (Pong ts) of None \<Rightarrow> [] | Some bs \<Rightarrow> [(bs, [sender])])
      | Some (BlockRequest req) \<Rightarrow>
          (case st of
             None \<Rightarrow> []
           | Some st \<Rightarrow>
               (case serialize_message W (BlockResponse (block_response_for W st req)) of
                  None \<Rightarrow> [] | Some bs \<Rightarrow> [(bs, [sender])]))
      | _ \<Rightarrow> [])"

text \<open>A message in the bootstrap phase: what is sent, and the peers that have answered.\<close>

definition handle_bootstrap_message ::
    "wire \<Rightarrow> p2p_message \<Rightarrow> bytes \<Rightarrow> bytes list \<Rightarrow> bytes list \<Rightarrow> (bytes \<times> bytes list) list \<times> bytes list" where
  "handle_bootstrap_message W msg sender expected_peers ready_peers =
     (let ready = (if sender \<in> set expected_peers then List.insert sender ready_peers else ready_peers)
      in case msg of
           Ping ts \<Rightarrow> ((case serialize_message W (Pong ts) of None \<Rightarrow> [] | Some bs \<Rightarrow> [(bs, [sender])]), ready)
         | Pong ts \<Rightarrow> ([], ready)
         | _ \<Rightarrow> ([], ready_peers))"

subsection \<open>The block syncer\<close>

datatype sync_state =
    Discovering
  | Syncing nat nat
  | Following nat

record sync_config =
  sync_interval :: nat
  request_timeout :: nat
  batch_size :: nat

definition sync_config_default :: sync_config where
  "sync_config_default = \<lparr>sync_interval = 100, request_timeout = 5000, batch_size = 10\<rparr>"

record block_syncer =
  sy_store :: store
  sy_state :: sync_state
  sy_config :: sync_config
  sy_validators :: "bytes list"
  sy_peer_set :: peer_set

definition block_syncer_new :: "store \<Rightarrow> bytes list \<Rightarrow> peer_set \<Rightarrow> sync_config \<Rightarrow> block_syncer" where
  "block_syncer_new st validators P config =
     \<lparr>sy_store = st, sy_state = Discovering, sy_config = config, sy_validators = validators, sy_peer_set = P\<rparr>"

definition local_height :: "block_syncer \<Rightarrow> nat" where
  "local_height s = (case get_latest_finalized_block (sy_store s) of Some b \<Rightarrow> b_height b | None \<Rightarrow> 0)"

definition update_state_after_block :: "nat \<Rightarrow> block_syncer \<Rightarrow> block_syncer" where
  "update_state_after_block received s =
     (case sy_state s of
        Discovering \<Rightarrow> s\<lparr>sy_state := Following received\<rparr>
      | Syncing current target \<Rightarrow>
          let new_current = max received current
          in if new_current \<ge> target then s\<lparr>sy_state := Following new_current\<rparr>
             else s\<lparr>sy_state := Syncing new_current target\<rparr>
      | Following height \<Rightarrow> if received > height then s\<lparr>sy_state := Following received\<rparr> else s)"

datatype sync_error = DeserializeFailed | StoreError error

text \<open>The proof is checked and stored when it is there; the block is stored in every case.\<close>

definition store_proof :: "env \<Rightarrow> nat \<Rightarrow> nat \<Rightarrow> wire \<Rightarrow> peer_set \<Rightarrow> hash \<Rightarrow> bytes option \<Rightarrow> store \<Rightarrow> store" where
  "store_proof E N F W P h proof st =
     (case Option.bind proof (deserialize_l_notarization W) of
        None \<Rightarrow> st
      | Some l \<Rightarrow>
          if ln_block_hash l \<noteq> h then st
          else if \<not> lnot_verify E N F P l then st
          else snd (put_l_notarization E l st))"

definition handle_block_response ::
    "env \<Rightarrow> nat \<Rightarrow> nat \<Rightarrow> wire \<Rightarrow> block_response \<Rightarrow> block_syncer \<Rightarrow> (sync_error + block option) \<times> block_syncer" where
  "handle_block_response E N F W response s =
     (case response of
        Found block_bytes proof \<Rightarrow>
          (case deserialize_block W block_bytes of
             None \<Rightarrow> (Inl DeserializeFailed, s)
           | Some b \<Rightarrow>
               (case put_finalized_block E b (sy_store s) of
                  Inl e \<Rightarrow> (Inl (StoreError e), s)
                | Inr st \<Rightarrow>
                    (Inr (Some b), update_state_after_block (b_height b)
                       (s\<lparr>sy_store := store_proof E N F W (sy_peer_set s) (get_hash E b) proof st\<rparr>))))
      | NotFound v \<Rightarrow> (Inr None, s)
      | HashMismatch v h \<Rightarrow> (Inr None, s))"

definition request_of :: "nat \<Rightarrow> block_request" where
  "request_of view = \<lparr>br_view = view, br_block_hash = None\<rparr>"

definition next_block_request :: "block_syncer \<Rightarrow> block_request option" where
  "next_block_request s =
     (case sy_state s of
        Discovering \<Rightarrow> Some (request_of 1)
      | Syncing current target \<Rightarrow> if current < target then Some (request_of (u64_add current 1)) else None
      | Following height \<Rightarrow> Some (request_of (u64_add height 1)))"

definition next_block_requests :: "block_syncer \<Rightarrow> block_request list" where
  "next_block_requests s =
     (let batch = batch_size (sy_config s)
      in case sy_state s of
           Discovering \<Rightarrow> [request_of 0]
         | Syncing current target \<Rightarrow>
             if current \<ge> target then []
             else let start = u64_add current 1
               in map request_of [start..<min (u64_add start batch) (u64_add target 1)]
         | Following height \<Rightarrow>
             let start = u64_add height 1 in map request_of [start..<u64_add start batch])"

definition set_target_height :: "nat \<Rightarrow> block_syncer \<Rightarrow> block_syncer" where
  "set_target_height target s =
     (let current = local_height s
      in if target > current then s\<lparr>sy_state := Syncing current target\<rparr>
         else s\<lparr>sy_state := Following current\<rparr>)"

definition is_synced :: "block_syncer \<Rightarrow> bool" where
  "is_synced s = (case sy_state s of Following _ \<Rightarrow> True | _ \<Rightarrow> False)"

definition pick_validator_at :: "nat \<Rightarrow> block_syncer \<Rightarrow> bytes option" where
  "pick_validator_at i s =
     (if sy_validators s = [] then None else Some (sy_validators s ! (i mod length (sy_validators s))))"

subsection \<open>The RPC node\<close>

datatype rpc_node_state = NodeStarting | NodeSyncing | NodeReady | NodeShuttingDown

record rpc_node =
  rn_state :: rpc_node_state
  rn_syncer :: block_syncer

text \<open>A message on the sync channel of an RPC node: the response it forwards to the event loop.\<close>

definition handle_sync_message :: "wire \<Rightarrow> bytes \<Rightarrow> bytes \<Rightarrow> p2p_error + (bytes \<times> block_response) option" where
  "handle_sync_message W bs sender =
     (case deserialize_message W bs of
        None \<Rightarrow> Inl Anyhow
      | Some (BlockResponse r) \<Rightarrow> Inr (Some (sender, r))
      | Some _ \<Rightarrow> Inr None)"

text \<open>The state of the node before its event loop: \<open>run\<close> starts as syncing.\<close>

definition rpc_node_start :: "nat \<Rightarrow> block_syncer \<Rightarrow> rpc_node" where
  "rpc_node_start configured_validators s =
     \<lparr>rn_state = (if configured_validators = 0 \<or> is_synced s then NodeReady else NodeSyncing), rn_syncer = s\<rparr>"

definition node_on_response :: "env \<Rightarrow> nat \<Rightarrow> nat \<Rightarrow> wire \<Rightarrow> block_response \<Rightarrow> rpc_node \<Rightarrow> rpc_node" where
  "node_on_response E N F W response n =
     (let s = snd (handle_block_response E N F W response (rn_syncer n))
      in n\<lparr>rn_syncer := s, rn_state := (if is_synced s then NodeReady else rn_state n)\<rparr>)"

text \<open>The tick of the event loop: the commands for the network, each with its target.\<close>

definition node_on_tick :: "rpc_node \<Rightarrow> (bytes \<times> block_request) list \<times> rpc_node" where
  "node_on_tick n =
     (let s = rn_syncer n
      in (List.map_filter (\<lambda>(i, req). map_option (\<lambda>target. (target, req)) (pick_validator_at i s))
            (enumerate 0 (next_block_requests s)),
          n\<lparr>rn_state := (case sy_state s of
               Discovering \<Rightarrow> rn_state n | Syncing _ _ \<Rightarrow> NodeSyncing | Following _ \<Rightarrow> NodeReady)\<rparr>))"

text \<open>A command goes to its target, the target answers, and the answers to the node are forwarded. In a
  round the commands of a tick are answered in order.\<close>

definition exchange :: "wire \<Rightarrow> (bytes \<Rightarrow> store option) \<Rightarrow> bytes \<Rightarrow> bytes \<times> block_request \<Rightarrow> block_response list" where
  "exchange W stores me cmd =
     (case serialize_message W (BlockRequest (snd cmd)) of
        None \<Rightarrow> []
      | Some bs \<Rightarrow>
          List.map_filter (\<lambda>(reply, recipients).
              if me \<in> set recipients
              then (case handle_sync_message W reply (fst cmd) of Inr (Some (_, r)) \<Rightarrow> Some r | _ \<Rightarrow> None)
              else None)
            (serve_sync_message W (stores (fst cmd)) me bs))"

definition sync_round ::
    "env \<Rightarrow> nat \<Rightarrow> nat \<Rightarrow> wire \<Rightarrow> (bytes \<Rightarrow> store option) \<Rightarrow> bytes \<Rightarrow> rpc_node \<Rightarrow> rpc_node" where
  "sync_round E N F W stores me n =
     (case node_on_tick n of (cmds, n1) \<Rightarrow>
        fold (node_on_response E N F W) (concat (map (exchange W stores me) cmds)) n1)"

subsection \<open>The syncer never goes back\<close>

lemma put_l_notarization_finalized [simp]:
  "st_finalized_blocks (snd (put_l_notarization E l st)) = st_finalized_blocks st"
  by (simp add: put_l_notarization_def put_value_def)

lemma store_proof_finalized [simp]:
  "st_finalized_blocks (store_proof E N F W P h proof st) = st_finalized_blocks st"
  by (simp add: store_proof_def split: option.splits)

lemma update_state_simps [simp]:
  "sy_store (update_state_after_block k s) = sy_store s" "sy_config (update_state_after_block k s) = sy_config s"
  "sy_validators (update_state_after_block k s) = sy_validators s" "sy_peer_set (update_state_after_block k s) = sy_peer_set s"
  by (simp_all add: update_state_after_block_def Let_def split: sync_state.splits)

lemma update_state_Discovering:
  "sy_state s = Discovering \<Longrightarrow> sy_state (update_state_after_block k s) = Following k"
  by (simp add: update_state_after_block_def)

lemma handle_block_response_simps [simp]:
  "sy_config (snd (handle_block_response E N F W r s)) = sy_config s"
  "sy_validators (snd (handle_block_response E N F W r s)) = sy_validators s"
  "sy_peer_set (snd (handle_block_response E N F W r s)) = sy_peer_set s"
  by (simp_all add: handle_block_response_def split: block_response.splits option.splits sum.splits)

abbreviation handle_responses ::
    "env \<Rightarrow> nat \<Rightarrow> nat \<Rightarrow> wire \<Rightarrow> block_response list \<Rightarrow> block_syncer \<Rightarrow> block_syncer" where
  "handle_responses E N F W rs s \<equiv> fold (\<lambda>r s. snd (handle_block_response E N F W r s)) rs s"

lemma handle_responses_config: "sy_config (handle_responses E N F W rs s) = sy_config s"
  by (induction rs arbitrary: s) simp_all

lemma response_keeps_following:
  assumes "sy_state s = Following h" "h < B"
    and "\<And>bs proof b. r = Found bs proof \<Longrightarrow> deserialize_block W bs = Some b \<Longrightarrow> b_height b < B"
  shows "\<exists>h'. sy_state (snd (handle_block_response E N F W r s)) = Following h' \<and> h \<le> h' \<and> h' < B"
  using assms
  by (auto simp: handle_block_response_def update_state_after_block_def
      split: block_response.splits option.splits sum.splits)

lemma responses_keep_following:
  assumes "sy_state s = Following h" "h < B"
    and "\<And>bs proof b. Found bs proof \<in> set rs \<Longrightarrow> deserialize_block W bs = Some b \<Longrightarrow> b_height b < B"
  shows "\<exists>h'. sy_state (handle_responses E N F W rs s) = Following h' \<and> h \<le> h' \<and> h' < B"
  using assms
proof (induction rs arbitrary: s h)
  case (Cons r rs)
  obtain h' where "sy_state (snd (handle_block_response E N F W r s)) = Following h'" "h \<le> h'" "h' < B"
    using response_keeps_following [OF Cons.prems(1,2), of r W E N F] Cons.prems(3) by auto
  moreover have "\<exists>h''. sy_state (handle_responses E N F W rs (snd (handle_block_response E N F W r s))) = Following h''
      \<and> h' \<le> h'' \<and> h'' < B"
    by (rule Cons.IH [OF calculation(1,3)]) (use Cons.prems(3) in auto)
  ultimately show ?case by (auto intro: order_trans)
qed simp


subsection \<open>What is stored\<close>

text \<open>A block is stored as finalized without proof. Whatever bytes come as the proof, or none, a
  response whose block can be decoded and stored makes that block a finalized block of the RPC node and
  moves the node to its height; the proof only decides whether a notarization is stored beside it.\<close>

theorem unproven_block_is_finalized:
  assumes "writes_ok E" "deserialize_block W block_bytes = Some b"
  shows "fst (handle_block_response E N F W (Found block_bytes proof) s) = Inr (Some b)
       \<and> get_finalized_block (get_hash E b) (sy_store (snd (handle_block_response E N F W (Found block_bytes proof) s)))
           = Inr (Some b)
       \<and> (sy_state s = Discovering
            \<longrightarrow> is_synced (snd (handle_block_response E N F W (Found block_bytes proof) s)))"
  using assms
  by (auto simp: handle_block_response_def writes_ok_def put_finalized_block_def put_value_def get_finalized_block_def
      get_blob_value_def map_of_bt_insert is_synced_def update_state_Discovering)

text \<open>The hash a received block carries is not recomputed. So a genuine notarization of one block is
  accepted as the proof of any other block that carries the same hash.\<close>

theorem proof_does_not_bind_block:
  assumes "writes_ok E" "wire_laws W" "lnot_verify E N F (sy_peer_set s) l"
    and "serialize_block W (b\<lparr>b_hash := Some (ln_block_hash l)\<rparr>) = Some bs"
    and "serialize_l_notarization W l = Some ps"
  shows "get_finalized_block (ln_block_hash l) (sy_store (snd (handle_block_response E N F W (Found bs (Some ps)) s)))
           = Inr (Some (b\<lparr>b_hash := Some (ln_block_hash l)\<rparr>))
       \<and> get_l_notarization (ln_block_hash l) (sy_store (snd (handle_block_response E N F W (Found bs (Some ps)) s)))
           = Inr (Some l)"
proof -
  have "deserialize_block W bs = Some (b\<lparr>b_hash := Some (ln_block_hash l)\<rparr>)" "deserialize_l_notarization W ps = Some l"
    using assms(2,4,5) unfolding wire_laws_def by blast+
  then show ?thesis
    using assms(1,3)
    by (simp add: handle_block_response_def store_proof_def writes_ok_def put_finalized_block_def put_value_def
        get_finalized_block_def get_blob_value_def map_of_bt_insert get_hash_def put_l_notarization_def
        get_l_notarization_def)
qed

definition proofs_verified :: "env \<Rightarrow> nat \<Rightarrow> nat \<Rightarrow> block_syncer \<Rightarrow> bool" where
  "proofs_verified E N F s \<longleftrightarrow> (\<forall>h l. get_l_notarization h (sy_store s) = Inr (Some l)
     \<longrightarrow> ln_block_hash l = h \<and> lnot_verify E N F (sy_peer_set s) l)"

lemma put_finalized_block_Inr:
  assumes "put_finalized_block E b st = Inr st'"
  shows "st' = st\<lparr>st_finalized_blocks := bt_insert (get_hash E b) b (st_finalized_blocks st)\<rparr>"
  using assms by (auto simp: put_finalized_block_def put_value_def split: if_splits)

lemma put_l_notarization_table:
  "st_l_notarizations (snd (put_l_notarization E l st)) \<in>
     {st_l_notarizations st, bt_insert (ln_block_hash l) l (st_l_notarizations st)}"
  by (simp add: put_l_notarization_def put_value_def)

lemma store_proof_verified:
  assumes "get_l_notarization h (store_proof E N F W P k proof st) = Inr (Some l)"
  shows "get_l_notarization h st = Inr (Some l) \<or> (ln_block_hash l = h \<and> lnot_verify E N F P l)"
proof (cases "Option.bind proof (deserialize_l_notarization W)")
  case None
  then show ?thesis using assms by (simp add: store_proof_def)
next
  case (Some l')
  then show ?thesis
    using assms put_l_notarization_table [of E l' st]
    by (auto simp: store_proof_def get_l_notarization_def get_blob_value_def map_of_bt_insert split: if_splits)
qed

text \<open>C30: every notarization an RPC node stores verifies under the validators' keys and is stored for the
  block hash it names, whatever responses the node has received.\<close>

theorem stored_proofs_verify:
  assumes "proofs_verified E N F s"
  shows "proofs_verified E N F (handle_responses E N F W rs s)"
  using assms
proof (induction rs arbitrary: s)
  case (Cons r rs)
  have "proofs_verified E N F (snd (handle_block_response E N F W r s))"
    unfolding proofs_verified_def
  proof (intro allI impI)
    fix h l
    assume l: "get_l_notarization h (sy_store (snd (handle_block_response E N F W r s))) = Inr (Some l)"
    have "get_l_notarization h (sy_store s) = Inr (Some l) \<or> (ln_block_hash l = h \<and> lnot_verify E N F (sy_peer_set s) l)"
      using l store_proof_verified
      by (fastforce simp: handle_block_response_def get_l_notarization_def dest!: put_finalized_block_Inr
          split: block_response.splits option.splits sum.splits)
    then show "ln_block_hash l = h \<and> lnot_verify E N F (sy_peer_set (snd (handle_block_response E N F W r s))) l"
      using Cons.prems by (auto simp: proofs_verified_def)
  qed
  then show ?case using Cons.IH by simp
qed simp

subsection \<open>Catching up\<close>

text \<open>A store that keys its finalized blocks by their hash, as \<open>put_finalized_block\<close> does.\<close>

definition blocks_keyed :: "env \<Rightarrow> store \<Rightarrow> bool" where
  "blocks_keyed E st \<longleftrightarrow> bt_invar (st_finalized_blocks st)
     \<and> (\<forall>(k, b) \<in> set (st_finalized_blocks st). k = get_hash E b)"

definition copied_from :: "env \<Rightarrow> store \<Rightarrow> block_syncer \<Rightarrow> bool" where
  "copied_from E V s \<longleftrightarrow> blocks_keyed E (sy_store s)
     \<and> (\<forall>(k, b) \<in> set (st_finalized_blocks (sy_store s)). get_finalized_block_by_height (b_height b) V = Some b)"

definition heights :: "block_syncer \<Rightarrow> nat set" where
  "heights s = (\<lambda>(k, b). b_height b) ` set (st_finalized_blocks (sy_store s))"

lemma by_height_SomeD:
  "get_finalized_block_by_height k st = Some b \<Longrightarrow> b_height b = k \<and> b \<in> snd ` set (st_finalized_blocks st)"
  by (auto simp: get_finalized_block_by_height_def find_Some_iff in_set_conv_nth image_iff) (metis snd_conv surj_pair nth_mem)

lemma by_height_copied:
  assumes "copied_from E V s"
  shows "get_finalized_block_by_height k (sy_store s)
       = (if k \<in> heights s then get_finalized_block_by_height k V else None)"
proof (cases "get_finalized_block_by_height k (sy_store s)")
  case None
  then have "k \<notin> heights s" by (auto simp: get_finalized_block_by_height_def find_None_iff heights_def)
  then show ?thesis using None by simp
next
  case (Some b)
  then have b: "b_height b = k" "b \<in> snd ` set (st_finalized_blocks (sy_store s))" by (auto dest: by_height_SomeD)
  then have "k \<in> heights s" "get_finalized_block_by_height k V = Some b"
    using assms by (auto simp: heights_def copied_from_def)
  then show ?thesis using Some by simp
qed

lemma same_hash_same_block:
  assumes "blocks_keyed E V" "get_finalized_block_by_height k V = Some b" "get_finalized_block_by_height k' V = Some b'"
    and "get_hash E b = get_hash E b'"
  shows "b = b'"
proof -
  have "(get_hash E b, b) \<in> set (st_finalized_blocks V)" "(get_hash E b', b') \<in> set (st_finalized_blocks V)"
    using assms(1-3) by (auto simp: blocks_keyed_def dest!: by_height_SomeD)
  moreover have "distinct (map fst (st_finalized_blocks V))"
    using assms(1) by (simp add: blocks_keyed_def bt_invar_def strict_sorted_iff)
  ultimately show ?thesis using assms(4) by (metis eq_key_imp_eq_value)
qed

lemma set_bt_insert:
  assumes "bt_invar m"
  shows "set (bt_insert k v m) = insert (k, v) {e \<in> set m. fst e \<noteq> k}"
proof -
  have d: "distinct (map fst m)" "distinct (map fst (bt_insert k v m))"
    using assms bt_invar_insert [OF assms, of k v] by (simp_all add: bt_invar_def strict_sorted_iff)
  have "e \<in> set (bt_insert k v m) \<longleftrightarrow> map_of (bt_insert k v m) (fst e) = Some (snd e)" for e
    using d(2) by (cases e) (simp add: map_of_eq_Some_iff)
  moreover have "e \<in> set m \<longleftrightarrow> map_of m (fst e) = Some (snd e)" for e
    using d(1) by (cases e) (simp add: map_of_eq_Some_iff)
  ultimately show ?thesis by (auto simp: map_of_bt_insert split: if_splits)
qed

text \<open>The blocks of the store and the messages about them can be encoded.\<close>

definition serves :: "wire \<Rightarrow> store \<Rightarrow> bool" where
  "serves W V \<longleftrightarrow> (\<forall>(h, b) \<in> set (st_finalized_blocks V). serialize_block W b \<noteq> None)
     \<and> (\<forall>k. serialize_message W (BlockRequest (request_of k)) \<noteq> None
          \<and> serialize_message W (BlockResponse (block_response_for W V (request_of k))) \<noteq> None)"

lemma served_block:
  assumes "wire_laws W" "serves W V" "get_finalized_block_by_height k V = Some b"
  obtains bs ps where "block_response_for W V (request_of k) = Found bs ps" "deserialize_block W bs = Some b"
proof -
  have "b \<in> snd ` set (st_finalized_blocks V)" using assms(3) by (auto dest: by_height_SomeD)
  then obtain bs where "serialize_block W b = Some bs" using assms(2) by (fastforce simp: serves_def)
  moreover have "deserialize_block W bs = Some b" using calculation assms(1) unfolding wire_laws_def by blast
  ultimately show thesis using that assms(3) by (simp add: block_response_for_def request_of_def Let_def)
qed

lemma handle_served_block:
  assumes "wire_laws W" "serves W V" "writes_ok E" "blocks_keyed E V" "copied_from E V s"
    and "get_finalized_block_by_height k V = Some b"
  shows "copied_from E V (snd (handle_block_response E N F W (block_response_for W V (request_of k)) s))"
    and "heights (snd (handle_block_response E N F W (block_response_for W V (request_of k)) s)) = insert k (heights s)"
    and "sy_state (snd (handle_block_response E N F W (block_response_for W V (request_of k)) s))
       = sy_state (update_state_after_block k s)"
proof -
  obtain bs ps where r: "block_response_for W V (request_of k) = Found bs ps" "deserialize_block W bs = Some b"
    using assms(1,2,6) by (rule served_block)
  have k: "b_height b = k" using assms(6) by (auto dest: by_height_SomeD)
  let ?fin = "st_finalized_blocks (sy_store s)"
  let ?s' = "snd (handle_block_response E N F W (block_response_for W V (request_of k)) s)"
  have fin: "st_finalized_blocks (sy_store ?s') = bt_insert (get_hash E b) b ?fin"
    using r assms(3) by (simp add: handle_block_response_def put_finalized_block_def put_value_def writes_ok_def)
  have inv: "bt_invar ?fin" using assms(5) by (simp add: copied_from_def blocks_keyed_def)
  have same: "b' = b" if b': "(get_hash E b, b') \<in> set ?fin" for b'
  proof -
    have "get_hash E b' = get_hash E b" "get_finalized_block_by_height (b_height b') V = Some b'"
      using b' assms(5) unfolding copied_from_def blocks_keyed_def by fastforce+
    then show ?thesis using same_hash_same_block [OF assms(4) _ assms(6)] by blast
  qed
  have set: "set (st_finalized_blocks (sy_store ?s')) = insert (get_hash E b, b) (set ?fin)"
    unfolding fin set_bt_insert [OF inv] using same by auto
  show "copied_from E V ?s'"
    using assms(5,6) k bt_invar_insert [OF inv, of "get_hash E b" b]
    unfolding copied_from_def blocks_keyed_def set unfolding fin by auto
  show "heights ?s' = insert k (heights s)" unfolding heights_def set using k by simp
  show "sy_state ?s' = sy_state (update_state_after_block k s)"
    using r assms(3) k
    by (simp add: handle_block_response_def put_finalized_block_def put_value_def writes_ok_def
        update_state_after_block_def Let_def split: sync_state.splits)
qed

lemma handle_missing_block:
  "get_finalized_block_by_height k V = None
     \<Longrightarrow> snd (handle_block_response E N F W (block_response_for W V (request_of k)) s) = s"
  by (simp add: block_response_for_def handle_block_response_def request_of_def)

definition held :: "store \<Rightarrow> nat \<Rightarrow> bool" where
  "held V k \<longleftrightarrow> get_finalized_block_by_height k V \<noteq> None"

lemma handle_served_blocks:
  fixes N F :: nat
  assumes "wire_laws W" "serves W V" "writes_ok E" "blocks_keyed E V" "copied_from E V s" "sy_state s = Following h"
    and "sorted_wrt (<) (h # ks)"
  defines "s' \<equiv> handle_responses E N F W (map (\<lambda>k. block_response_for W V (request_of k)) ks) s"
  shows "copied_from E V s' \<and> heights s' = heights s \<union> {k \<in> set ks. held V k}
       \<and> sy_state s' = Following (last (h # filter (held V) ks))"
  using assms(5-7) unfolding s'_def
proof (induction ks arbitrary: s h)
  case (Cons k ks)
  let ?s1 = "snd (handle_block_response E N F W (block_response_for W V (request_of k)) s)"
  show ?case
  proof (cases "get_finalized_block_by_height k V")
    case None
    then show ?thesis using Cons.IH [OF Cons.prems(1,2)] Cons.prems(3)
      by (auto simp: handle_missing_block held_def)
  next
    case (Some b)
    note one = handle_served_block [OF assms(1-4) Cons.prems(1) Some, of N F]
    have "sy_state ?s1 = Following k"
      using one(3) Cons.prems(2,3) by (simp add: update_state_after_block_def)
    then show ?thesis using Cons.IH [OF one(1), of k] one(2) Cons.prems(3) Some by (auto simp: held_def)
  qed
qed simp

lemma exchange_answers:
  assumes "wire_laws W" "serves W V" "stores (fst cmd) = Some V" "snd cmd = request_of k"
  shows "exchange W stores me cmd = [block_response_for W V (snd cmd)]"
proof -
  obtain q a where qa: "serialize_message W (BlockRequest (request_of k)) = Some q"
      "serialize_message W (BlockResponse (block_response_for W V (request_of k))) = Some a"
    using assms(2) unfolding serves_def by blast
  then have "deserialize_message W q = Some (BlockRequest (request_of k))"
    "deserialize_message W a = Some (BlockResponse (block_response_for W V (request_of k)))"
    using assms(1) unfolding wire_laws_def by blast+
  then show ?thesis using qa assms(3,4)
    by (simp add: exchange_def serve_sync_message_def handle_sync_message_def List.map_filter_def)
qed

lemma node_responses_syncer:
  "rn_syncer (fold (node_on_response E N F W) rs n) = handle_responses E N F W rs (rn_syncer n)"
  by (induction rs arbitrary: n) (simp_all add: node_on_response_def Let_def)

lemma map_filter_all: "\<forall>x \<in> set xs. f x = Some (g x) \<Longrightarrow> List.map_filter f xs = map g xs"
  by (induction xs) (simp_all add: List.map_filter_def)

lemma enumerate_snd: "p \<in> set (enumerate k xs) \<Longrightarrow> snd p \<in> set xs"
  by (induction xs arbitrary: k) auto

lemma map_snd_enumerate: "map (\<lambda>p. h (snd p)) (enumerate k xs) = map h xs"
  by (simp add: enumerate_eq_zip flip: map_map [unfolded comp_def])

text \<open>A round with validators that all hold the store \<open>V\<close>.\<close>

lemma next_block_requests_of: "req \<in> set (next_block_requests s) \<Longrightarrow> \<exists>k. req = request_of k"
  by (auto simp: next_block_requests_def Let_def split: sync_state.splits if_splits)

lemma sync_round_syncer:
  assumes "wire_laws W" "serves W V" "\<forall>t. stores t = Some V" "sy_validators (rn_syncer n) \<noteq> []"
  shows "rn_syncer (sync_round E N F W stores me n)
       = handle_responses E N F W (map (block_response_for W V) (next_block_requests (rn_syncer n))) (rn_syncer n)"
proof -
  let ?s = "rn_syncer n"
  let ?f = "\<lambda>(i, req). map_option (\<lambda>target. (target, req)) (pick_validator_at i ?s)"
  let ?g = "\<lambda>(i, req). (sy_validators ?s ! (i mod length (sy_validators ?s)), req)"
  have "List.map_filter ?f (enumerate 0 (next_block_requests ?s)) = map ?g (enumerate 0 (next_block_requests ?s))"
    using assms(4) by (intro map_filter_all) (auto simp: pick_validator_at_def)
  moreover have "exchange W stores me (?g p) = [block_response_for W V (snd p)]"
    if p: "p \<in> set (enumerate 0 (next_block_requests ?s))" for p
  proof -
    have "snd p \<in> set (next_block_requests ?s)" using p by (rule enumerate_snd)
    then obtain k where "snd p = request_of k" using next_block_requests_of by blast
    then show ?thesis using exchange_answers [OF assms(1,2), of stores "?g p" k me] assms(3) by (simp add: split_beta)
  qed
  then have "concat (map (exchange W stores me) (map ?g xs)) = map (\<lambda>p. block_response_for W V (snd p)) xs"
    if "set xs \<subseteq> set (enumerate 0 (next_block_requests ?s))" for xs
    using that by (induction xs) auto
  ultimately show ?thesis
    by (simp add: sync_round_def node_on_tick_def Let_def node_responses_syncer map_snd_enumerate)
qed

definition honest_round_setup :: "env \<Rightarrow> wire \<Rightarrow> store \<Rightarrow> (bytes \<Rightarrow> store option) \<Rightarrow> bool" where
  "honest_round_setup E W V stores \<longleftrightarrow> wire_laws W \<and> serves W V \<and> writes_ok E \<and> blocks_keyed E V \<and> (\<forall>t. stores t = Some V)"

lemma following_requests:
  assumes "sy_state s = Following h" "h + batch_size (sy_config s) + 1 < 2 ^ 64"
  shows "next_block_requests s = map request_of [Suc h..<Suc (h + batch_size (sy_config s))]"
  using assms by (simp add: next_block_requests_def u64_add_mod Let_def)

lemma sync_round_following:
  fixes E :: env and N F :: nat and W :: wire and stores :: "bytes \<Rightarrow> store option" and me :: bytes and n :: rpc_node
  assumes "honest_round_setup E W V stores" "sy_validators (rn_syncer n) \<noteq> []" "copied_from E V (rn_syncer n)"
    and "sy_state (rn_syncer n) = Following h" "h + batch_size (sy_config (rn_syncer n)) + 1 < 2 ^ 64"
  defines "s' \<equiv> rn_syncer (sync_round E N F W stores me n)"
    and "ks \<equiv> [Suc h..<Suc (h + batch_size (sy_config (rn_syncer n)))]"
  shows "copied_from E V s'" "heights s' = heights (rn_syncer n) \<union> {k \<in> set ks. held V k}"
    "sy_state s' = Following (last (h # filter (held V) ks))"
    "sy_config s' = sy_config (rn_syncer n)" "sy_validators s' = sy_validators (rn_syncer n)"
proof -
  have su: "wire_laws W" "serves W V" "writes_ok E" "blocks_keyed E V" "\<forall>t. stores t = Some V"
    using assms(1) by (auto simp: honest_round_setup_def)
  have s': "s' = handle_responses E N F W (map (\<lambda>k. block_response_for W V (request_of k)) ks) (rn_syncer n)"
    unfolding s'_def ks_def sync_round_syncer [OF su(1,2,5) assms(2)] following_requests [OF assms(4,5)]
    by (simp add: comp_def)
  have "sorted_wrt (<) (h # ks)" unfolding ks_def by (auto simp: sorted_wrt_upt simp del: upt_Suc)
  from handle_served_blocks [OF su(1-4) assms(3,4) this, of N F, folded s']
  show "copied_from E V s'" "heights s' = heights (rn_syncer n) \<union> {k \<in> set ks. held V k}"
    "sy_state s' = Following (last (h # filter (held V) ks))" by auto
  have "sy_validators (handle_responses E N F W rs s) = sy_validators s" for rs s
    by (induction rs arbitrary: s) simp_all
  then show "sy_config s' = sy_config (rn_syncer n)" "sy_validators s' = sy_validators (rn_syncer n)"
    unfolding s' by (simp_all add: handle_responses_config)
qed

lemma last_filter_upt:
  fixes h m :: nat and P :: "nat \<Rightarrow> bool"
  defines "h' \<equiv> last (h # filter P [Suc h..<m])"
  shows "h \<le> h'" "h' = h \<or> (P h' \<and> Suc h \<le> h' \<and> h' < m)" "\<And>k. Suc h \<le> k \<Longrightarrow> k < m \<Longrightarrow> P k \<Longrightarrow> k \<le> h'"
proof -
  have "h \<le> h' \<and> (h' = h \<or> (P h' \<and> Suc h \<le> h' \<and> h' < m)) \<and> (\<forall>k. Suc h \<le> k \<longrightarrow> k < m \<longrightarrow> P k \<longrightarrow> k \<le> h')"
    unfolding h'_def
  proof (induction m)
    case (Suc m)
    show ?case
    proof (cases "Suc h \<le> m \<and> P m")
      case True
      then show ?thesis by auto
    next
      case False
      then have "filter P [Suc h..<Suc m] = filter P [Suc h..<m]" by auto
      then show ?thesis using Suc.IH False by (metis less_Suc_eq)
    qed
  qed simp
  then show "h \<le> h'" "h' = h \<or> (P h' \<and> Suc h \<le> h' \<and> h' < m)"
    "\<And>k. Suc h \<le> k \<Longrightarrow> k < m \<Longrightarrow> P k \<Longrightarrow> k \<le> h'" by blast+
qed

text \<open>After \<open>r\<close> rounds the node follows at a height \<open>h\<close> that covers everything the validators hold up to \<open>r\<close>.\<close>

definition caught_up :: "env \<Rightarrow> store \<Rightarrow> nat \<Rightarrow> nat \<Rightarrow> rpc_node \<Rightarrow> nat \<Rightarrow> bool" where
  "caught_up E V B r n h \<longleftrightarrow> copied_from E V (rn_syncer n) \<and> sy_state (rn_syncer n) = Following h \<and> held V h
     \<and> (\<forall>k \<le> r. held V k \<longrightarrow> k \<le> h) \<and> heights (rn_syncer n) = {k. k \<le> h \<and> held V k}
     \<and> batch_size (sy_config (rn_syncer n)) = B \<and> sy_validators (rn_syncer n) \<noteq> []"

lemma caught_up_round:
  assumes "honest_round_setup E W V stores" "caught_up E V B r n h"
    and "\<forall>k. held V k \<longrightarrow> k + B + 1 < 2 ^ 64"
    and "\<forall>k. held V k \<longrightarrow> k = 0 \<or> (\<exists>j < k. held V j \<and> k \<le> j + B)"
  shows "\<exists>h'. caught_up E V B (Suc r) (sync_round E N F W stores me n) h'"
proof -
  let ?h' = "last (h # filter (held V) [Suc h..<Suc (h + B)])"
  have pre: "copied_from E V (rn_syncer n)" "sy_state (rn_syncer n) = Following h" "held V h"
      "heights (rn_syncer n) = {k. k \<le> h \<and> held V k}" "batch_size (sy_config (rn_syncer n)) = B"
      "sy_validators (rn_syncer n) \<noteq> []" and le: "\<And>k. k \<le> r \<Longrightarrow> held V k \<Longrightarrow> k \<le> h"
    using assms(2) by (auto simp: caught_up_def)
  have "h + batch_size (sy_config (rn_syncer n)) + 1 < 2 ^ 64" using assms(3) pre(3,5) by blast
  note step = sync_round_following [OF assms(1) pre(6,1,2) this, of N F me, unfolded pre(5)]
  note last = last_filter_upt [where h = h and P = "held V" and m = "Suc (h + B)"]
  have "held V ?h'" using last(2) pre(3) by auto
  moreover have "k \<le> ?h'" if k: "k \<le> Suc r" "held V k" for k
  proof (cases "k \<le> h")
    case False
    then obtain j where "j < k" "held V j" "k \<le> j + B" using assms(4) k(2) by fastforce
    then have "k < Suc (h + B)" using le [of j] k(1) by linarith
    then show ?thesis using last(3) [of k] False k(2) by simp
  qed (use last(1) in linarith)
  moreover have "heights (rn_syncer (sync_round E N F W stores me n)) = {k. k \<le> ?h' \<and> held V k}"
    unfolding step(2) pre(4) using last by (auto simp del: upt_Suc)
  ultimately show ?thesis using step pre(5,6) unfolding caught_up_def by (intro exI [of _ ?h']) simp
qed

lemma first_round:
  assumes "honest_round_setup E W V stores" "held V 0" "sy_validators (rn_syncer n) \<noteq> []"
    and "st_finalized_blocks (sy_store (rn_syncer n)) = []" "sy_state (rn_syncer n) = Discovering"
  shows "caught_up E V (batch_size (sy_config (rn_syncer n))) 0 (sync_round E N F W stores me n) 0"
proof -
  have su: "wire_laws W" "serves W V" "writes_ok E" "blocks_keyed E V" "\<forall>t. stores t = Some V"
    using assms(1) by (auto simp: honest_round_setup_def)
  obtain b where b: "get_finalized_block_by_height 0 V = Some b" using assms(2) by (auto simp: held_def)
  have empty: "copied_from E V (rn_syncer n)" "heights (rn_syncer n) = {}"
    using assms(4) by (simp_all add: copied_from_def blocks_keyed_def heights_def bt_invar_def)
  have "rn_syncer (sync_round E N F W stores me n)
      = snd (handle_block_response E N F W (block_response_for W V (request_of 0)) (rn_syncer n))"
    using assms(5) by (simp add: sync_round_syncer [OF su(1,2,5) assms(3)] next_block_requests_def)
  then show ?thesis
    using handle_served_block [OF su(1-4) empty(1) b, of N F] empty(2) assms(2,3,5)
    by (auto simp: caught_up_def update_state_after_block_def)
qed

text \<open>C29: an RPC node catches up with honest validators. If the validators hold the same finalized
  blocks, the genesis block among them, with never more than \<open>batch_size\<close> heights from one block to the
  next, then after \<open>r + 1\<close> rounds of requests and answers delivered in order a fresh node has, for every
  height up to \<open>r\<close>, exactly the block the validators have at that height.\<close>

theorem rpc_node_catches_up:
  assumes "honest_round_setup E W V stores" "validators \<noteq> []" "st_finalized_blocks st = []" "held V 0"
    and "\<forall>k. held V k \<longrightarrow> k + batch_size config + 1 < 2 ^ 64"
    and "\<forall>k. held V k \<longrightarrow> k = 0 \<or> (\<exists>j < k. held V j \<and> k \<le> j + batch_size config)"
    and "k \<le> r"
  shows "get_finalized_block_by_height k (sy_store (rn_syncer
           ((sync_round E N F W stores me ^^ Suc r) (rpc_node_start c (block_syncer_new st validators P config)))))
       = get_finalized_block_by_height k V"
proof -
  let ?n = "rpc_node_start c (block_syncer_new st validators P config)"
  have "\<exists>h. caught_up E V (batch_size config) r ((sync_round E N F W stores me ^^ Suc r) ?n) h"
  proof (induction r)
    case 0
    have "caught_up E V (batch_size config) 0 (sync_round E N F W stores me ?n) 0"
      using first_round [OF assms(1,4), of ?n N F me] assms(2,3)
      by (simp add: rpc_node_start_def block_syncer_new_def)
    then show ?case by auto
  next
    case (Suc r)
    then show ?case using caught_up_round [OF assms(1) _ assms(5,6)] by auto
  qed
  then obtain h where h: "caught_up E V (batch_size config) r ((sync_round E N F W stores me ^^ Suc r) ?n) h" by blast
  then show ?thesis using by_height_copied [of E V _ k] assms(7) by (auto simp: caught_up_def held_def)
qed

text \<open>The bound is needed: when the validators hold nothing in the next \<open>batch_size\<close> heights, the node
  stays at its height for ever, whatever they hold above. Heights are the view numbers of the blocks, so
  this happens after \<open>batch_size\<close> nullified views in a row.\<close>

theorem sync_stops_at_wide_gap:
  assumes "honest_round_setup E W V stores" "sy_validators (rn_syncer n) \<noteq> []" "sy_state (rn_syncer n) = Following h"
    and "h + batch_size (sy_config (rn_syncer n)) + 1 < 2 ^ 64"
    and "\<forall>k. h < k \<longrightarrow> k \<le> h + batch_size (sy_config (rn_syncer n)) \<longrightarrow> \<not> held V k"
  shows "rn_syncer ((sync_round E N F W stores me ^^ r) n) = rn_syncer n"
proof (induction r)
  case (Suc r)
  let ?n = "(sync_round E N F W stores me ^^ r) n"
  let ?ks = "[Suc h..<Suc (h + batch_size (sy_config (rn_syncer n)))]"
  have su: "wire_laws W" "serves W V" "\<forall>t. stores t = Some V" using assms(1) by (auto simp: honest_round_setup_def)
  have miss: "get_finalized_block_by_height k V = None" if "k \<in> set ?ks" for k
    using that assms(5) by (auto simp: held_def simp del: upt_Suc)
  have "handle_responses E N F W (map (block_response_for W V) (map request_of ks)) s = s"
    if "set ks \<subseteq> set ?ks" for ks s
    using that by (induction ks) (simp_all add: handle_missing_block miss del: upt_Suc set_upt)
  then show ?case
    using sync_round_syncer [OF su, of ?n E N F me] following_requests [of "rn_syncer n" h] Suc assms(2-4) by simp
qed simp

subsection \<open>Instances\<close>

definition sync_block :: "nat \<Rightarrow> block" where
  "sync_block k = toy_block\<lparr>b_height := k, b_hash := Some [of_nat k]\<rparr>"

definition sync_chain :: store where
  "sync_chain = init_tables\<lparr>st_finalized_blocks := map (\<lambda>k. ([of_nat k], sync_block k)) [0, 1, 3]\<rparr>"

definition sync_wire :: wire where
  "sync_wire =
     \<lparr>serialize_block = (\<lambda>b. if b = sync_block (b_height b) then Some (replicate (b_height b) 0) else None),
      deserialize_block = (\<lambda>bs. Some (sync_block (length bs))),
      serialize_l_notarization = (\<lambda>l. None), deserialize_l_notarization = (\<lambda>bs. None),
      serialize_message = (\<lambda>m. case m of
          BlockRequest q \<Rightarrow> if br_block_hash q = None then Some (1 # replicate (br_view q) 0) else None
        | BlockResponse (NotFound v) \<Rightarrow> Some (2 # replicate v 0)
        | BlockResponse (Found bs None) \<Rightarrow> Some (3 # bs)
        | _ \<Rightarrow> None),
      deserialize_message = (\<lambda>bs. case bs of
          [] \<Rightarrow> None
        | t # rest \<Rightarrow>
            if t = 1 then Some (BlockRequest (request_of (length rest)))
            else if t = 2 then Some (BlockResponse (NotFound (length rest)))
            else Some (BlockResponse (Found rest None)))\<rparr>"

lemma sync_block_height [simp]: "b_height (sync_block k) = k" "get_hash E (sync_block k) = [of_nat k]" "b_hash (sync_block k) = Some [of_nat k]"
  by (simp_all add: sync_block_def get_hash_def)

lemma sync_wire_laws: "wire_laws sync_wire"
  by (auto simp: wire_laws_def sync_wire_def request_of_def split: p2p_message.splits block_response.splits option.splits if_splits)

lemma sync_chain_by_height:
  "get_finalized_block_by_height k sync_chain = (if k \<in> {0, 1, 3} then Some (sync_block k) else None)"
  by (auto simp: get_finalized_block_by_height_def sync_chain_def)

lemma sync_chain_held: "held sync_chain k \<longleftrightarrow> k = 0 \<or> k = 1 \<or> k = 3"
  by (simp add: held_def sync_chain_by_height)

lemma sync_chain_setup: "honest_round_setup toy_env sync_wire sync_chain (\<lambda>t. Some sync_chain)"
proof -
  have no_proof: "get_l_notarization h sync_chain = Inr None" for h
    by (simp add: sync_chain_def init_tables_def get_l_notarization_def get_blob_value_def)
  have "block_response_for sync_wire sync_chain (request_of k)
      = (if k \<in> {0, 1, 3} then Found (replicate k 0) None else NotFound k)" for k
    by (simp add: block_response_for_def request_of_def sync_chain_by_height Let_def no_proof)
      (simp add: sync_wire_def)
  then have "serves sync_wire sync_chain"
    by (auto simp: serves_def) (auto simp: sync_wire_def request_of_def sync_chain_def)
  moreover have "writes_ok toy_env" by (simp add: writes_ok_def toy_env_def)
  moreover have "blocks_keyed toy_env sync_chain" by (simp add: blocks_keyed_def sync_chain_def bt_invar_def)
  ultimately show ?thesis by (simp add: honest_round_setup_def sync_wire_laws)
qed

definition sync_start :: block_syncer where
  "sync_start = block_syncer_new init_tables [[7]] toy_peers \<lparr>sync_interval = 100, request_timeout = 5000, batch_size = 2\<rparr>"

theorem rpc_node_catches_up_witness:
  "get_finalized_block_by_height 3 (sy_store (rn_syncer
     ((sync_round toy_env 6 1 sync_wire (\<lambda>t. Some sync_chain) [9] ^^ Suc 3) (rpc_node_start 1 sync_start))))
   = Some (sync_block 3)"
proof -
  have "\<forall>k. held sync_chain k \<longrightarrow> k = 0 \<or> (\<exists>j < k. held sync_chain j \<and> k \<le> j + 2)"
    unfolding sync_chain_held by (intro allI impI) (auto intro: exI [of _ 0] exI [of _ 1])
  moreover have "\<forall>k. held sync_chain k \<longrightarrow> k + 2 + 1 < 2 ^ 64" unfolding sync_chain_held by auto
  ultimately show ?thesis
    using rpc_node_catches_up [OF sync_chain_setup, of "[[7]]" init_tables
        "\<lparr>sync_interval = 100, request_timeout = 5000, batch_size = 2\<rparr>" 3 3 6 1 "[9]" 1 toy_peers]
    by (simp add: sync_start_def sync_chain_by_height sync_chain_held init_tables_def)
qed

definition sync_followed :: block_syncer where
  "sync_followed = sync_start\<lparr>sy_state := Following 3\<rparr>"


theorem unproven_block_is_finalized_witness:
  "fst (handle_block_response toy_env 6 1 sync_wire (Found [0] (Some [1, 2])) sync_start) = Inr (Some (sync_block 1))
   \<and> get_finalized_block [1] (sy_store (snd (handle_block_response toy_env 6 1 sync_wire (Found [0] (Some [1, 2])) sync_start)))
       = Inr (Some (sync_block 1))"
proof -
  have "writes_ok toy_env" by (simp add: writes_ok_def toy_env_def)
  from unproven_block_is_finalized [OF this, of sync_wire "[0]" "sync_block 1" 6 1 "Some [1, 2]" sync_start]
  show ?thesis by (simp add: sync_wire_def)
qed

text \<open>Two notarizations arrive, one that both validators have signed and one with another signature.\<close>

definition sync_proof :: "hash \<Rightarrow> g1 \<Rightarrow> l_notarization" where
  "sync_proof h sg = \<lparr>ln_view = 4, ln_block_hash = h, ln_aggregated_signature = sg, ln_peer_ids = [1, 2], ln_height = 4\<rparr>"

definition signed_proof :: l_notarization where
  "signed_proof = sync_proof [2] (aggregate_signatures toy_env (map v_signature toy_votes))"

definition proof_wire :: wire where
  "proof_wire = sync_wire\<lparr>deserialize_l_notarization := (\<lambda>bs.
     if bs = [1] then Some signed_proof else Some (sync_proof [1] 0))\<rparr>"

lemma signed_proof_stored:
  "get_l_notarization [2] (sy_store (handle_responses toy_env 2 0 proof_wire
       [Found [0, 0] (Some [1]), Found [0] (Some [2])] sync_start)) = Inr (Some signed_proof)
   \<and> get_l_notarization [1] (sy_store (handle_responses toy_env 2 0 proof_wire
       [Found [0, 0] (Some [1]), Found [0] (Some [2])] sync_start)) = Inr None"
  by code_simp

theorem stored_proofs_verify_witness:
  "\<exists>s. s = handle_responses toy_env 2 0 proof_wire [Found [0, 0] (Some [1]), Found [0] (Some [2])] sync_start
     \<and> get_l_notarization [2] (sy_store s) = Inr (Some signed_proof) \<and> get_l_notarization [1] (sy_store s) = Inr None
     \<and> proofs_verified toy_env 2 0 s \<and> lnot_verify toy_env 2 0 (sy_peer_set s) signed_proof"
proof -
  let ?s = "handle_responses toy_env 2 0 proof_wire [Found [0, 0] (Some [1]), Found [0] (Some [2])] sync_start"
  have v: "proofs_verified toy_env 2 0 ?s"
    by (rule stored_proofs_verify)
      (simp add: proofs_verified_def sync_start_def block_syncer_new_def init_tables_def get_l_notarization_def get_blob_value_def)
  moreover have "lnot_verify toy_env 2 0 (sy_peer_set ?s) signed_proof"
    using v signed_proof_stored unfolding proofs_verified_def by blast
  ultimately show ?thesis using signed_proof_stored by blast
qed

end
