(* ===== verification/Spec2Isabelle.thy ===== *)
theory Spec2Isabelle
  imports Agreement Replica_Runs Mempool_Service Threshold Block_Sync
begin

text \<open>
  This development models the Minimmit consensus node of this repository and proves what makes it
  correct. Beside its network side a validator runs two threads. The consensus thread executes a state machine
  (\<open>consensus/src/consensus_manager\<close>): it takes network messages and clock ticks, hands them to the
  view progress manager, and acts on the event the manager returns by voting, nullifying, proposing,
  finalizing or entering the next view. The manager keeps a view chain, one view context per view that
  is not finalized. The validator (\<open>consensus/src/validation\<close>) checks the transactions of a block
  against the account state and computes a state diff; the pending state holds the diffs of notarized
  blocks until they are finalized into the store (\<open>consensus/src/storage\<close>). The mempool thread
  (\<open>consensus/src/mempool\<close>) admits transactions, selects them for proposals and drops them when they
  are finalized. RPC nodes (\<open>rpc\<close>) copy finalized blocks from validators over the peer-to-peer network
  (\<open>p2p\<close>). The \<open>crypto\<close> crate holds a threshold signature scheme of its own.

  \<^bold>\<open>Theories and sources.\<close>
  \<^item> \<open>Prelude\<close>: machine integers, Rust's maps and sets as lists, sequences of writes, the locale of
    machines with an invariant, and the locale of map implementations.
  \<^item> \<open>Crypto\<close> (\<open>crypto/aggregated.rs\<close>): BLS signatures, their aggregation and verification. The
    libraries (curve, hash, ed25519, database writes, hex) are the record \<open>env\<close>; \<open>ark_laws\<close>, \<open>ed_laws\<close>,
    \<open>ed_batch_law\<close> and \<open>writes_ok\<close> are what is relied on.
  \<^item> \<open>Chain_Types\<close> (\<open>state/\<close>, \<open>consensus.rs\<close>): transactions, blocks, peers, votes, notarizations,
    nullifications, errors, and their verification. \<open>Leader_Manager\<close> (\<open>leader_manager.rs\<close>): the round
    robin schedule, through a locale of leader schedules.
  \<^item> \<open>Validation_Types\<close>, \<open>Validator\<close>, \<open>Pending_State\<close> (\<open>validation/\<close>) and \<open>Storage\<close> (\<open>storage/\<close>).
  \<^item> \<open>View_Context\<close>, \<open>Persistence\<close> and \<open>View_Chain\<close>, \<open>View_Manager\<close>, \<open>State_Machine\<close>: one theory
    for each of \<open>view_context.rs\<close>, the persistence part and the rest of \<open>view_chain.rs\<close>,
    \<open>view_manager.rs\<close> and \<open>state_machine.rs\<close>. Each has its struct as a record and one definition per
    method. \<open>Manager_Decisions\<close> and \<open>Machine_Safety\<close> hold the theorems on what the manager asks for and
    on what the state machine sends; \<open>Agreement\<close> the theorem on several replicas; \<open>Replica_Runs\<close> a run
    that does not end.
  \<^item> \<open>Mempool\<close> (\<open>mempool/pool.rs\<close>) and \<open>Mempool_Service\<close> (\<open>mempool/service.rs\<close>).
  \<^item> \<open>Threshold\<close> (\<open>crypto/src/\<close>) and \<open>Block_Sync\<close> (\<open>p2p/src/message.rs\<close>, \<open>protocols/sync.rs\<close>,
    \<open>service.rs\<close>, \<open>rpc/src/sync.rs\<close>, \<open>p2p.rs\<close>, \<open>node.rs\<close>).

  \<^bold>\<open>How code is modelled.\<close> An operation that can fail returns a sum of the errors and its result,
  beside the new state; a failing operation returns the state it leaves behind. A panic is an error of
  its own. Code that may not return (tracing the ancestors of a block, processing pending blocks, the
  mutually recursive handlers of the state machine, waiting for room in a ring buffer) is a partial
  function with values in \<open>option\<close>, \<open>None\<close> meaning that it does not return; no fuel is used; the only
  bounds on loops are those of the code (ten broadcast attempts, five finalizations per pass).
  The clock, the room in the ring buffers and the mempool's answers are the fields of a record
  \<open>world\<close>, indexed by the number of questions asked so far. A run of the state machine is a list of
  inputs. Balances, nonces, fees, timestamps and peer ids are 64 bit words; view numbers and heights
  are natural numbers, with the wrap-around written out (\<open>u64_add\<close>) where they come from a message: in
  \<open>Block_Sync\<close> and in the answers to recovery requests.

  \<^bold>\<open>What the lemmas show.\<close>
  \<^item> \<open>Agreement\<close>, \<open>Machine_Safety\<close>: in every run a replica votes and nullifies at most once per view,
    never votes after nullifying, and sends only messages that verify; with at most \<open>F\<close> faulty peers
    two quorums of a view are for one block; the runs of the state machine are runs of the manager.
  \<^item> \<open>View_Context\<close>, \<open>View_Chain\<close>, \<open>View_Manager\<close>, \<open>Manager_Decisions\<close>: invariants of all operations;
    reported quorums are quorums of valid votes; assembled certificates verify; a finalization commits
    exactly the chain of parents and, with enough votes, succeeds and returns; adopted proposals extend
    the chain; a message makes the manager leave its view only by a certificate of that view; votes are
    requested only when they are in order; recovery requests are bounded, and one of the replicas that
    answer them is honest. The steps of the manager (\<open>vm_step\<close>) allow more than the state machine does,
    so their invariants hold for it.
  \<^item> \<open>Validator\<close>, \<open>Pending_State\<close>, \<open>Storage\<close>: validation refines an abstract ledger; diffs keep
    balances and the supply; no replay in the next block; finalizing a diff changes no account a reader
    sees; what is stored is read back.
  \<^item> \<open>Mempool\<close>, \<open>Mempool_Service\<close>: the invariant of the pool and of the thread; the iterator yields the
    runs of consecutive nonces by fee; proposals keep their limits and pass validation.
  \<^item> \<open>Threshold\<close>: any \<open>threshold\<close> shares give the secret back and sign for the group, fewer say nothing.
    \<open>Block_Sync\<close>: an RPC node catches up with honest validators and stores only notarizations that
    verify.
  \<^item> Theorems that record defects: forged signatures and content that signatures do not bind,
    certificates from one vote, handlers and finalizations that do not return, transactions that are
    never proposed or end the mempool thread, funds that are lost or burned by others, blocks an RPC
    node takes without proof or never gets.

  \<^bold>\<open>Limits.\<close> A group of reads of one operation (the accounts a block is validated against) sees one state.
  Whether a database write succeeds depends on its table and key only. The laws of the libraries are
  idealised: batch verification is taken to agree with verification one by one (\<open>ed_batch_law\<close>), and
  the arithmetic of the curve is exact. The iteration order of
  hash maps is that of the list. The theorems on the pool, the mempool thread and its proposals exclude
  transactions with the nonce \<open>2 ^ 64 - 1\<close>, after which the expected nonce wraps. What a handler
  that does not return has sent before is not covered. Agreement excludes the votes of the leader of the
  view, which are implied by its proposal. The round of \<open>Block_Sync\<close> delivers the answers in order.

  \<^bold>\<open>Not modelled.\<close> Threads, timers, sockets and the async runtime (\<open>consensus_engine.rs\<close>,
  \<open>validation/service.rs\<close>, \<open>p2p/src/network.rs\<close>, the loops around the modelled handlers): input and
  output, which appear as the order of inputs. The gRPC services, the SDK and the binaries: conversions
  to generated types, configuration and logging. Encodings (\<open>rkyv\<close>): values are stored and sent as they
  are, or through a codec that decoding inverts.
\<close>

end
